(* ===== verification/Prelude.thy ===== *)
theory Prelude
  imports Main "HOL-Library.AList" "HOL-Library.Multiset" "HOL-Library.Word"
begin

text \<open>
  Shared vocabulary of the development: Go's built-in maps and sets, the order in which a
  \<open>range\<close> statement visits a map, instants and durations, and the lemmas on association lists
  that every component uses.

  A Go map is an association list with distinct keys (\<open>gm_ok\<close>); reading a missing key gives
  \<open>None\<close> (the \<open>v, ok\<close> form of the source). The runtime chooses the order of each \<open>range\<close> over
  a map: every loop over a map takes a permutation \<open>ord\<close> as an argument (\<open>is_order\<close>), and a
  property that does not fix it holds for all orders.
\<close>

named_theorems gomap "rewrite rules for lookups in updated maps"
named_theorems invar_intros "introduction rules for the invariants of the components"

subsection \<open>Go maps\<close>

type_synonym ('k, 'v) gomap = "('k \<times> 'v) list"

abbreviation gm_get :: "('k, 'v) gomap \<Rightarrow> 'k \<Rightarrow> 'v option" where
  "gm_get m k \<equiv> map_of m k"

abbreviation gm_set :: "('k, 'v) gomap \<Rightarrow> 'k \<Rightarrow> 'v \<Rightarrow> ('k, 'v) gomap" where
  "gm_set m k v \<equiv> AList.update k v m"

abbreviation gm_delete :: "('k, 'v) gomap \<Rightarrow> 'k \<Rightarrow> ('k, 'v) gomap" where
  "gm_delete m k \<equiv> AList.delete k m"

abbreviation gm_has :: "('k, 'v) gomap \<Rightarrow> 'k \<Rightarrow> bool" where
  "gm_has m k \<equiv> map_of m k \<noteq> None"

definition gm_ok :: "('k, 'v) gomap \<Rightarrow> bool" where
  "gm_ok m \<longleftrightarrow> distinct (map fst m)"

lemma gm_get_set [simp, gomap]:
  "gm_get (gm_set m k v) k' = (if k' = k then Some v else gm_get m k')"
  by (simp add: update_conv')

lemma gm_get_delete [simp, gomap]:
  "gm_get (gm_delete m k) k' = (if k' = k then None else gm_get m k')"
  by (simp add: delete_conv')

lemma gm_ok_Nil [simp, intro!, invar_intros]: "gm_ok []"
  by (simp add: gm_ok_def)

lemma gm_ok_set [simp, intro, invar_intros]: "gm_ok m \<Longrightarrow> gm_ok (gm_set m k v)"
  by (simp add: gm_ok_def distinct_update)

lemma gm_ok_delete [simp, intro, invar_intros]: "gm_ok m \<Longrightarrow> gm_ok (gm_delete m k)"
  by (simp add: gm_ok_def distinct_delete)

lemma gm_ok_singleton [simp]: "gm_ok [(k, v)]"
  by (simp add: gm_ok_def)

lemma gm_ok_filter [simp, intro, invar_intros]: "gm_ok m \<Longrightarrow> gm_ok (filter P m)"
  by (simp add: gm_ok_def distinct_map_filter)

lemma gm_get_eq_mem: "gm_ok m \<Longrightarrow> gm_get m k = Some v \<longleftrightarrow> (k, v) \<in> set m"
  by (simp add: gm_ok_def)

lemma gm_get_filter:
  "gm_ok m \<Longrightarrow> gm_get (filter P m) k =
     (case gm_get m k of None \<Rightarrow> None | Some v \<Rightarrow> if P (k, v) then Some v else None)"
proof (induction m)
  case (Cons kv m)
  obtain k' v' where kv: "kv = (k', v')" by (cases kv)
  from Cons.prems have ok: "gm_ok m" and fresh: "k' \<notin> fst ` set m"
    by (auto simp: gm_ok_def kv)
  from fresh have "gm_get m k' = None" by (simp add: map_of_eq_None_iff)
  with Cons.IH [OF ok] show ?case by (auto simp: kv split: option.splits)
qed simp

lemma gm_delete_length: "gm_ok m \<Longrightarrow> gm_has m k \<Longrightarrow> length (gm_delete m k) = length m - 1"
proof (induction m)
  case (Cons kv m)
  then show ?case
    by (cases m; cases kv) (auto simp: gm_ok_def map_of_eq_None_iff rev_image_eqI split: if_splits)
qed simp

lemma gm_length_1: "gm_ok m \<Longrightarrow> length m = 1 \<Longrightarrow> gm_get m k = Some v \<Longrightarrow> m = [(k, v)]"
  by (cases m) (auto split: if_splits)

lemma gm_Nil_iff: "m = [] \<longleftrightarrow> (\<forall>k. gm_get m k = None)"
proof
  assume none: "\<forall>k. gm_get m k = None"
  show "m = []"
  proof (cases m)
    case (Cons kv m')
    from none have "gm_get m (fst kv) = None" by (rule spec)
    with Cons show ?thesis by (cases kv) simp
  qed simp
qed simp

lemma gm_set_fresh_length:
  "gm_get m k = None \<Longrightarrow> length (gm_set m k v) = Suc (length m)"
  by (induction m) (auto split: if_splits)

lemma gm_set_known_length:
  "gm_has m k \<Longrightarrow> length (gm_set m k v) = length m"
  by (induction m) (auto split: if_splits)

subsection \<open>The order of a \<open>range\<close> over a map\<close>

type_synonym 'a order = "'a list \<Rightarrow> 'a list"

definition is_order :: "'a order \<Rightarrow> bool" where
  "is_order ord \<longleftrightarrow> (\<forall>xs. mset (ord xs) = mset xs)"

lemma is_order_id [simp]: "is_order (\<lambda>xs. xs)"
  by (simp add: is_order_def)

lemma is_order_rev [simp]: "is_order rev"
  by (simp add: is_order_def)

lemma is_order_mset: "is_order ord \<Longrightarrow> mset (ord xs) = mset xs"
  by (simp add: is_order_def)

lemma is_order_set [simp]: "is_order ord \<Longrightarrow> set (ord xs) = set xs"
  by (metis is_order_mset set_mset_mset)

lemma is_order_length [simp]: "is_order ord \<Longrightarrow> length (ord xs) = length xs"
  by (metis is_order_mset size_mset)

lemma is_order_distinct [simp]: "is_order ord \<Longrightarrow> distinct (ord xs) = distinct xs"
  by (metis is_order_mset mset_eq_imp_distinct_iff)

lemma is_order_Nil [simp]: "is_order ord \<Longrightarrow> ord [] = []"
  by (metis is_order_length length_0_conv list.size(3))

lemma is_order_keys: "is_order ord \<Longrightarrow> distinct (map fst (ord m)) = distinct (map fst m)"
  by (metis is_order_mset mset_eq_imp_distinct_iff mset_map)

lemma gm_ok_order [simp]: "is_order ord \<Longrightarrow> gm_ok (ord m) = gm_ok m"
  by (simp add: gm_ok_def is_order_keys)

lemma gm_get_order [simp]:
  assumes "is_order ord" and "gm_ok m"
  shows "gm_get (ord m) k = gm_get m k"
proof -
  from assms have "gm_get (ord m) k = Some v \<longleftrightarrow> gm_get m k = Some v" for v
    by (simp add: gm_get_eq_mem)
  then show ?thesis by (cases "gm_get m k"; cases "gm_get (ord m) k") auto
qed

subsection \<open>Instants and durations\<close>

text \<open>
  An instant is the number of nanoseconds since Go's zero \<open>time.Time\<close>, so \<open>Time.IsZero\<close> is
  \<open>t = 0\<close>; a \<open>time.Duration\<close> is an \<open>int64\<close> of nanoseconds, and \<open>Time.Sub\<close> saturates at its bounds.
\<close>

type_synonym instant = int
type_synonym duration = int

definition second :: duration where "second = 1000000000"

definition max_duration :: duration where "max_duration = 2 ^ 63 - 1"
definition min_duration :: duration where "min_duration = - (2 ^ 63)"

definition time_after :: "instant \<Rightarrow> instant \<Rightarrow> bool" where
  "time_after t u \<longleftrightarrow> u < t"

definition time_sub :: "instant \<Rightarrow> instant \<Rightarrow> duration" where
  "time_sub t u = max min_duration (min max_duration (t - u))"

text \<open>\<open>time.Duration.Truncate\<close>: Go's remainder has the sign of the dividend.\<close>

definition trunc_dur :: "duration \<Rightarrow> duration \<Rightarrow> duration" where
  "trunc_dur d m = (if m \<le> 0 then d else d - sgn d * (\<bar>d\<bar> mod m))"

lemma time_sub_bounds: "min_duration \<le> time_sub t u \<and> time_sub t u \<le> max_duration"
  by (simp add: time_sub_def min_duration_def max_duration_def)

lemma time_sub_exact:
  "min_duration \<le> t - u \<Longrightarrow> t - u \<le> max_duration \<Longrightarrow> time_sub t u = t - u"
  by (simp add: time_sub_def)

lemma time_sub_nonneg: "u \<le> t \<Longrightarrow> 0 \<le> time_sub t u"
  by (simp add: time_sub_def max_duration_def)

lemma time_sub_le: "u \<le> t \<Longrightarrow> time_sub t u \<le> t - u"
  by (simp add: time_sub_def min_duration_def)

lemma time_sub_antimono: "u \<le> u' \<Longrightarrow> time_sub t u' \<le> time_sub t u"
  by (simp add: time_sub_def)

lemma trunc_dur_nonneg: "0 \<le> d \<Longrightarrow> 0 < m \<Longrightarrow> 0 \<le> trunc_dur d m \<and> trunc_dur d m \<le> d"
  by (cases "d = 0") (auto simp: trunc_dur_def zmod_le_nonneg_dividend)

subsection \<open>Machine integers\<close>

type_synonym u8 = "8 word"
type_synonym u16 = "16 word"
type_synonym u32 = "32 word"
type_synonym u64 = "64 word"

text \<open>Go's \<open>%\<close> on \<open>int\<close>: the sign is the dividend's. A zero divisor panics and is checked first.\<close>

definition go_rem :: "int \<Rightarrow> int \<Rightarrow> int" where
  "go_rem a b = sgn a * (\<bar>a\<bar> mod \<bar>b\<bar>)"

lemma go_rem_nonneg [simp]: "0 \<le> a \<Longrightarrow> 0 < b \<Longrightarrow> go_rem a b = a mod b"
  by (cases "a = 0") (auto simp: go_rem_def)

definition max_int :: int where "max_int = 2 ^ 63 - 1"
definition min_int :: int where "min_int = - (2 ^ 63)"

text \<open>\<open>cmp.Compare\<close> and \<open>bytes.Compare\<close> on an ordered type.\<close>

definition cmp_compare :: "'a::linorder \<Rightarrow> 'a \<Rightarrow> int" where
  "cmp_compare a b = (if a < b then -1 else if b < a then 1 else 0)"

lemma cmp_compare_simps [simp]:
  "cmp_compare a b = 0 \<longleftrightarrow> a = b" "0 < cmp_compare a b \<longleftrightarrow> b < a" "cmp_compare a b \<le> 0 \<longleftrightarrow> a \<le> b"
  by (auto simp: cmp_compare_def)

subsection \<open>Panics\<close>

datatype go_panic =
    DivideByZero
  | IndexOutOfRange
  | MakeSliceLen
  | MakeSliceCap
  | InvalidIPv4Address
  | InvalidPrefix

type_synonym 'a panicking = "go_panic + 'a"

text \<open>A loop that computes one value per element and stops at the first panic.\<close>

fun traverse :: "('a \<Rightarrow> 'e + 'b) \<Rightarrow> 'a list \<Rightarrow> 'e + 'b list" where
  "traverse f [] = Inr []"
| "traverse f (x # xs) =
     (case f x of
        Inl e \<Rightarrow> Inl e
      | Inr y \<Rightarrow> (case traverse f xs of Inl e \<Rightarrow> Inl e | Inr ys \<Rightarrow> Inr (y # ys)))"

lemma traverse_Inr: "(\<And>x. x \<in> set xs \<Longrightarrow> f x = Inr (g x)) \<Longrightarrow> traverse f xs = Inr (map g xs)"
  by (induction xs) auto

lemma traverse_cong [fundef_cong]:
  "xs = ys \<Longrightarrow> (\<And>x. x \<in> set ys \<Longrightarrow> f x = g x) \<Longrightarrow> traverse f xs = traverse g ys"
  by (induction ys arbitrary: xs) (auto split: sum.split)

text \<open>A loop that updates a state once per element and stops at the first panic.\<close>

fun fold_res :: "('s \<Rightarrow> 'a \<Rightarrow> 'e + 's) \<Rightarrow> 's \<Rightarrow> 'a list \<Rightarrow> 'e + 's" where
  "fold_res f s [] = Inr s"
| "fold_res f s (x # xs) = (case f s x of Inl e \<Rightarrow> Inl e | Inr s' \<Rightarrow> fold_res f s' xs)"

lemma fold_res_append:
  "fold_res f s (xs @ ys) = (case fold_res f s xs of Inl e \<Rightarrow> Inl e | Inr s' \<Rightarrow> fold_res f s' ys)"
  by (induction xs arbitrary: s) (auto split: sum.split)

subsection \<open>The end of a list\<close>

definition last_n :: "nat \<Rightarrow> 'a list \<Rightarrow> 'a list" where
  "last_n n xs = drop (length xs - n) xs"

lemma last_n_short [simp]: "length xs \<le> n \<Longrightarrow> last_n n xs = xs"
  by (simp add: last_n_def)

lemma length_last_n [simp]: "length (last_n n xs) = min n (length xs)"
  by (simp add: last_n_def)

lemma last_n_snoc_full: "length xs = n \<Longrightarrow> 0 < n \<Longrightarrow> last_n n (xs @ [x]) = tl xs @ [x]"
  by (simp add: last_n_def drop_Suc)

lemma last_n_last_n [simp]: "last_n n (last_n n xs @ ys) = last_n n (xs @ ys)"
proof (cases "length xs \<le> n")
  case False
  then show ?thesis by (simp add: last_n_def add.commute)
qed simp

lemma set_last_n_subset: "set (last_n n xs) \<subseteq> set xs"
  by (simp add: last_n_def set_drop_subset)

end
