(* ===== verification/GoStd.thy ===== *)
theory GoStd
  imports Prelude
begin

text \<open>
  The parts of Go's standard library the sources call on strings: \<open>strings\<close> (\<open>HasPrefix\<close>,
  \<open>HasSuffix\<close>, \<open>Contains\<close>, \<open>TrimRight\<close>, \<open>Trim\<close>, \<open>TrimSpace\<close>, \<open>Split\<close>, \<open>IndexByte\<close>,
  \<open>ToLower\<close>) and \<open>strconv\<close> (\<open>Itoa\<close>, \<open>Atoi\<close>, \<open>ParseUint\<close>, the verb \<open>%016x\<close>). A Go string is a list
  of bytes (\<open>char\<close>). \<open>TrimSpace\<close> and \<open>ToLower\<close> act on the ASCII bytes only, which is all the
  sources need of them (output of the \<open>ip\<close> command, the words \<open>true\<close> and \<open>1\<close>).
\<close>

subsection \<open>Package strings\<close>

definition has_prefix :: "string \<Rightarrow> string \<Rightarrow> bool" where
  "has_prefix s p \<longleftrightarrow> take (length p) s = p"

definition has_suffix :: "string \<Rightarrow> string \<Rightarrow> bool" where
  "has_suffix s p \<longleftrightarrow> length p \<le> length s \<and> drop (length s - length p) s = p"

fun str_contains :: "string \<Rightarrow> string \<Rightarrow> bool" where
  "str_contains [] sub = (sub = [])"
| "str_contains (c # s) sub = (has_prefix (c # s) sub \<or> str_contains s sub)"

definition trim_left :: "string \<Rightarrow> string \<Rightarrow> string" where
  "trim_left s cutset = dropWhile (\<lambda>c. c \<in> set cutset) s"

definition trim_right :: "string \<Rightarrow> string \<Rightarrow> string" where
  "trim_right s cutset = rev (dropWhile (\<lambda>c. c \<in> set cutset) (rev s))"

definition trim :: "string \<Rightarrow> string \<Rightarrow> string" where
  "trim s cutset = trim_right (trim_left s cutset) cutset"

definition is_space :: "char \<Rightarrow> bool" where
  "is_space c \<longleftrightarrow> c = CHR '' '' \<or> (9 \<le> (of_char c :: nat) \<and> (of_char c :: nat) \<le> 13)"

definition trim_space :: "string \<Rightarrow> string" where
  "trim_space s = rev (dropWhile is_space (rev (dropWhile is_space s)))"

fun split_on :: "char \<Rightarrow> string \<Rightarrow> string list" where
  "split_on sep [] = [[]]"
| "split_on sep (c # s) =
     (if c = sep then [] # split_on sep s
      else (case split_on sep s of [] \<Rightarrow> [[c]] | w # ws \<Rightarrow> (c # w) # ws))"

fun index_byte :: "string \<Rightarrow> char \<Rightarrow> nat option" where
  "index_byte [] b = None"
| "index_byte (c # s) b = (if c = b then Some 0 else map_option Suc (index_byte s b))"

fun join_with :: "string \<Rightarrow> string list \<Rightarrow> string" where
  "join_with sep [] = []"
| "join_with sep [w] = w"
| "join_with sep (w # ws) = w @ sep @ join_with sep ws"

definition to_lower_char :: "char \<Rightarrow> char" where
  "to_lower_char c =
     (let n = (of_char c :: nat) in if 65 \<le> n \<and> n \<le> 90 then char_of (n + 32) else c)"

definition to_lower :: "string \<Rightarrow> string" where
  "to_lower s = map to_lower_char s"

lemma has_suffix_iff: "has_suffix s p \<longleftrightarrow> (\<exists>q. s = q @ p)"
proof
  assume "has_suffix s p"
  then have "s = take (length s - length p) s @ p"
    by (metis append_take_drop_id has_suffix_def)
  then show "\<exists>q. s = q @ p" by blast
qed (auto simp: has_suffix_def)

lemma has_prefix_iff: "has_prefix s p \<longleftrightarrow> (\<exists>q. s = p @ q)"
proof
  assume "has_prefix s p"
  then have "s = p @ drop (length p) s"
    by (metis append_take_drop_id has_prefix_def)
  then show "\<exists>q. s = p @ q" by blast
qed (auto simp: has_prefix_def)

lemma str_contains_iff: "str_contains s sub \<longleftrightarrow> (\<exists>p q. s = p @ sub @ q)"
proof (induction s)
  case (Cons c s)
  have "str_contains (c # s) sub \<longleftrightarrow>
      (\<exists>q. c # s = sub @ q) \<or> (\<exists>p q. s = p @ sub @ q)"
    using Cons.IH by (simp add: has_prefix_iff)
  also have "\<dots> \<longleftrightarrow> (\<exists>p q. c # s = p @ sub @ q)"
    by (auto simp: Cons_eq_append_conv)
  finally show ?case .
qed auto

lemma split_on_not_Nil [simp]: "split_on sep s \<noteq> []"
  by (induction s) (auto split: list.splits)

lemma split_on_no_sep: "sep \<notin> set s \<Longrightarrow> split_on sep s = [s]"
  by (induction s) auto

lemma split_on_append:
  "sep \<notin> set w \<Longrightarrow> split_on sep (w @ sep # s) = w # split_on sep s"
  by (induction w) auto

lemma split_on_join:
  "ws \<noteq> [] \<Longrightarrow> \<forall>w \<in> set ws. sep \<notin> set w \<Longrightarrow> split_on sep (join_with [sep] ws) = ws"
  by (induction "[sep]" ws rule: join_with.induct) (auto simp: split_on_no_sep split_on_append)

lemma join_split_on: "join_with [sep] (split_on sep s) = s"
proof (induction s)
  case (Cons c s)
  obtain w ws where "split_on sep s = w # ws" by (cases "split_on sep s") auto
  with Cons show ?case by (cases ws) auto
qed simp

lemma split_on_elem_no_sep: "w \<in> set (split_on sep s) \<Longrightarrow> sep \<notin> set w"
  by (induction s arbitrary: w) (auto split: if_splits list.splits)

lemma index_byte_None_iff: "index_byte s b = None \<longleftrightarrow> b \<notin> set s"
  by (induction s) auto

lemma index_byte_append:
  "b \<notin> set s \<Longrightarrow> index_byte (s @ b # t) b = Some (length s)"
  by (induction s) auto

lemma dropWhile_no_hd: "s = [] \<or> \<not> P (hd s) \<Longrightarrow> dropWhile P s = s"
  by (cases s) auto

lemma trim_space_id:
  "s = [] \<or> (\<not> is_space (hd s) \<and> \<not> is_space (last s)) \<Longrightarrow> trim_space s = s"
  by (auto simp: trim_space_def dropWhile_no_hd hd_rev)

lemma trim_right_append:
  "\<forall>c \<in> set t. c \<in> set cutset \<Longrightarrow> trim_right (s @ t) cutset = trim_right s cutset"
proof -
  assume "\<forall>c \<in> set t. c \<in> set cutset"
  then have "dropWhile (\<lambda>c. c \<in> set cutset) (rev t @ rev s) = dropWhile (\<lambda>c. c \<in> set cutset) (rev s)"
    by (intro dropWhile_append2) simp
  then show ?thesis by (simp add: trim_right_def)
qed

lemma trim_right_idem: "trim_right (trim_right s cutset) cutset = trim_right s cutset"
  by (simp add: trim_right_def dropWhile_idem)

lemma trim_right_last:
  "trim_right s cutset \<noteq> [] \<Longrightarrow> last (trim_right s cutset) \<notin> set cutset"
proof -
  assume "trim_right s cutset \<noteq> []"
  then have ne: "dropWhile (\<lambda>c. c \<in> set cutset) (rev s) \<noteq> []" by (simp add: trim_right_def)
  then show ?thesis
    using hd_dropWhile [OF ne] by (simp add: trim_right_def last_rev)
qed

end
