(* ===== verification/MDNSConn.thy ===== *)
theory MDNSConn
  imports GoStd
begin

text \<open>
  \<open>mdnsClient.connection\<close> of \<open>dns-server/internal/mdns_client.go\<close>: concurrent calls that share one connection
  behind a \<open>sync.RWMutex\<close>, as a step relation. The read lock of the fast path is taken and not released
  when there is a connection; the model keeps that, and the lemmas show what still holds and what
  it can lead to.
\<close>

subsection \<open>State\<close>

text \<open>
  \<open>sync.RWMutex\<close> as the standard library has it: \<open>mc_readers\<close> counts the read locks held, a thread that
  calls \<open>Lock\<close> first becomes the one pending writer, which keeps later readers waiting
  (\<open>mc_blocked\<close>), then waits for the readers before it to leave; \<open>Unlock\<close> hands read locks to all
  readers that wait. A connection is named by a number.
\<close>

datatype conn_pc =
    CIdle
  | CBlocked
  | CReading
  | CSawNil
  | CPending
  | CWriting
  | CReturned "string + nat"

record mdns_conn =
  mc_conn :: "nat option"
  mc_readers :: nat
  mc_blocked :: "nat list"
  mc_pc :: "nat \<Rightarrow> conn_pc"

definition new_mdns_conn :: mdns_conn where
  "new_mdns_conn = \<lparr>mc_conn = None, mc_readers = 0, mc_blocked = [], mc_pc = \<lambda>t. CIdle\<rparr>"

definition is_writer :: "conn_pc \<Rightarrow> bool" where
  "is_writer pc \<longleftrightarrow> pc = CPending \<or> pc = CWriting"

definition no_writer :: "mdns_conn \<Rightarrow> bool" where
  "no_writer s \<longleftrightarrow> (\<forall>t. \<not> is_writer (mc_pc s t))"

subsection \<open>The method, between its lock operations\<close>

definition conn_rlock :: "nat \<Rightarrow> mdns_conn \<Rightarrow> mdns_conn" where
  "conn_rlock t s = s\<lparr>mc_readers := mc_readers s + 1, mc_pc := (mc_pc s)(t := CReading)\<rparr>"

definition conn_block :: "nat \<Rightarrow> mdns_conn \<Rightarrow> mdns_conn" where
  "conn_block t s = s\<lparr>mc_blocked := mc_blocked s @ [t], mc_pc := (mc_pc s)(t := CBlocked)\<rparr>"

text \<open>The first check: with a connection the method returns and keeps the read lock; without one it releases it.\<close>

definition conn_check :: "nat \<Rightarrow> mdns_conn \<Rightarrow> mdns_conn" where
  "conn_check t s =
     (case mc_conn s of
        Some c \<Rightarrow> s\<lparr>mc_pc := (mc_pc s)(t := CReturned (Inr c))\<rparr>
      | None \<Rightarrow> s\<lparr>mc_readers := mc_readers s - 1, mc_pc := (mc_pc s)(t := CSawNil)\<rparr>)"

text \<open>The deferred \<open>Unlock\<close>, as the method returns \<open>res\<close>.\<close>

definition conn_unlock :: "nat \<Rightarrow> string + nat \<Rightarrow> mdns_conn \<Rightarrow> mdns_conn" where
  "conn_unlock t res s =
     s\<lparr>mc_readers := mc_readers s + length (mc_blocked s), mc_blocked := [],
       mc_pc := (\<lambda>u. if u \<in> set (mc_blocked s) then CReading else ((mc_pc s)(t := CReturned res)) u)\<rparr>"

text \<open>The body under the write lock; \<open>dial\<close> is the outcome of resolving, listening and starting the client.\<close>

definition conn_open :: "nat \<Rightarrow> string + nat \<Rightarrow> mdns_conn \<Rightarrow> mdns_conn" where
  "conn_open t dial s =
     (case mc_conn s of
        Some c \<Rightarrow> conn_unlock t (Inr c) s
      | None \<Rightarrow>
          (case dial of
             Inl err \<Rightarrow> conn_unlock t (Inl err) s
           | Inr c \<Rightarrow> conn_unlock t (Inr c) (s\<lparr>mc_conn := Some c\<rparr>)))"

inductive conn_step :: "mdns_conn \<Rightarrow> mdns_conn \<Rightarrow> bool" where
  rlock: "mc_pc s t = CIdle \<Longrightarrow> no_writer s \<Longrightarrow> conn_step s (conn_rlock t s)"
| block: "mc_pc s t = CIdle \<Longrightarrow> \<not> no_writer s \<Longrightarrow> conn_step s (conn_block t s)"
| check: "mc_pc s t = CReading \<Longrightarrow> conn_step s (conn_check t s)"
| pend: "mc_pc s t = CSawNil \<Longrightarrow> no_writer s \<Longrightarrow> conn_step s (s\<lparr>mc_pc := (mc_pc s)(t := CPending)\<rparr>)"
| lock: "mc_pc s t = CPending \<Longrightarrow> mc_readers s = 0 \<Longrightarrow> conn_step s (s\<lparr>mc_pc := (mc_pc s)(t := CWriting)\<rparr>)"
| opened: "mc_pc s t = CWriting \<Longrightarrow> conn_step s (conn_open t res s)"

inductive_cases conn_stepE [consumes 1, case_names rlock block check pend lock opened]: "conn_step s s'"

abbreviation conn_reach :: "mdns_conn \<Rightarrow> bool" where
  "conn_reach s \<equiv> conn_step\<^sup>*\<^sup>* new_mdns_conn s"

subsection \<open>Invariant\<close>

definition conn_inv :: "mdns_conn \<Rightarrow> bool" where
  "conn_inv s \<longleftrightarrow>
     (\<forall>t u. is_writer (mc_pc s t) \<longrightarrow> is_writer (mc_pc s u) \<longrightarrow> t = u)
   \<and> (\<forall>t. t \<in> set (mc_blocked s) \<longleftrightarrow> mc_pc s t = CBlocked)
   \<and> (\<forall>t c. mc_pc s t = CReturned (Inr c) \<longrightarrow> mc_conn s = Some c)
   \<and> (\<forall>t. mc_pc s t = CWriting \<longrightarrow> mc_readers s = 0)"

lemma conn_unlock_inv:
  assumes "conn_inv s" and "mc_pc s t = CWriting" and "\<And>c. res = Inr c \<Longrightarrow> mc_conn s = Some c"
  shows "conn_inv (conn_unlock t res s)"
proof -
  have w: "\<not> is_writer (mc_pc s u)" if "u \<noteq> t" for u
    using assms(1,2) that unfolding conn_inv_def is_writer_def by blast
  then have "\<not> is_writer (mc_pc (conn_unlock t res s) u)" for u
    by (simp add: conn_unlock_def is_writer_def)
  then have "\<not> is_writer (mc_pc (conn_unlock t res s) u)" "mc_pc (conn_unlock t res s) u \<noteq> CWriting" for u
    by (auto simp: is_writer_def)
  moreover have "mc_pc (conn_unlock t res s) u \<noteq> CBlocked" for u
    using assms(1) unfolding conn_inv_def conn_unlock_def by auto
  moreover have "mc_conn (conn_unlock t res s) = mc_conn s" "mc_blocked (conn_unlock t res s) = []" by (simp_all add: conn_unlock_def)
  moreover have "mc_conn s = Some c" if "mc_pc (conn_unlock t res s) u = CReturned (Inr c)" for u c
    using that assms(1,3) unfolding conn_inv_def conn_unlock_def by (auto split: if_splits)
  ultimately show ?thesis unfolding conn_inv_def by auto
qed

lemma conn_step_inv:
  assumes "conn_step s s'" and inv: "conn_inv s"
  shows "conn_inv s'"
  using assms(1)
proof (cases rule: conn_stepE)
  case (opened t res)
  show ?thesis
  proof (cases "mc_conn s")
    case (Some c)
    with opened inv show ?thesis by (auto simp: conn_open_def intro!: conn_unlock_inv)
  next
    case None
    have "conn_inv (s\<lparr>mc_conn := Some c\<rparr>)" for c using inv None by (simp add: conn_inv_def)
    with opened inv None show ?thesis
      by (auto simp: conn_open_def intro!: conn_unlock_inv split: sum.split)
  qed
next
  case (pend t)
  then show ?thesis using inv unfolding conn_inv_def no_writer_def by (auto simp: is_writer_def)
next
  case (lock t)
  then show ?thesis using inv unfolding conn_inv_def by (auto simp: is_writer_def)
next
  case (rlock t)
  then show ?thesis using inv unfolding conn_inv_def no_writer_def conn_rlock_def by (auto simp: is_writer_def)
next
  case (block t)
  then show ?thesis using inv unfolding conn_inv_def conn_block_def by (auto simp: is_writer_def)
next
  case (check t)
  then show ?thesis using inv unfolding conn_inv_def conn_check_def
    by (auto simp: is_writer_def split: option.split)
qed

lemma conn_reach_inv: "conn_reach s \<Longrightarrow> conn_inv s"
  by (induction rule: rtranclp_induct) (simp add: conn_inv_def new_mdns_conn_def is_writer_def, rule conn_step_inv)

lemma conn_kept: "conn_step s s' \<Longrightarrow> mc_conn s = Some c \<Longrightarrow> mc_conn s' = Some c"
  by (cases rule: conn_stepE, assumption)
    (auto simp: conn_rlock_def conn_block_def conn_check_def conn_open_def conn_unlock_def split: option.splits sum.splits)

lemma conn_kept_run: "conn_step\<^sup>*\<^sup>* s s' \<Longrightarrow> mc_conn s = Some c \<Longrightarrow> mc_conn s' = Some c"
  by (induction rule: rtranclp_induct) (auto intro: conn_kept)

subsection \<open>The read lock that is never released\<close>

text \<open>A connection is open, a read lock is held, and a writer waits for it.\<close>

definition conn_stuck :: "nat \<Rightarrow> mdns_conn \<Rightarrow> bool" where
  "conn_stuck t s \<longleftrightarrow> mc_conn s \<noteq> None \<and> 0 < mc_readers s \<and> mc_pc s t = CPending
     \<and> (\<forall>u. u \<noteq> t \<longrightarrow> \<not> is_writer (mc_pc s u))"

lemma conn_stuckD:
  assumes "conn_stuck t s"
  shows "mc_conn s \<noteq> None" and "0 < mc_readers s" and "mc_pc s t = CPending"
    and "is_writer (mc_pc s u) \<Longrightarrow> u = t" and "\<not> no_writer s"
proof -
  note k = assms [unfolded conn_stuck_def]
  show "mc_conn s \<noteq> None" using k by (rule conjunct1)
  show "0 < mc_readers s" using k by (elim conjE)
  show p: "mc_pc s t = CPending" using k by (elim conjE)
  show "is_writer (mc_pc s u) \<Longrightarrow> u = t" using k by blast
  have "is_writer (mc_pc s t)" using p by (simp add: is_writer_def)
  then show "\<not> no_writer s" by (auto simp: no_writer_def)
qed

lemma conn_stuck_step:
  assumes "conn_step s s'" and k: "conn_stuck t s"
  shows "conn_stuck t s'"
  using assms(1)
proof (cases rule: conn_stepE)
  case (block u)
  then have "u \<noteq> t" using conn_stuckD(3) [OF k] by auto
  with block k show ?thesis by (simp add: conn_stuck_def conn_block_def is_writer_def)
next
  case (check u)
  then have "u \<noteq> t" using conn_stuckD(3) [OF k] by auto
  with check k show ?thesis by (auto simp: conn_stuck_def conn_check_def is_writer_def split: if_splits)
next
  case (lock u)
  with conn_stuckD(4) [OF k, of u] conn_stuckD(2) [OF k] show ?thesis by (simp add: is_writer_def)
next
  case (opened u res)
  with conn_stuckD(4) [OF k, of u] conn_stuckD(3) [OF k] show ?thesis by (auto simp: is_writer_def)
qed (use conn_stuckD(5) [OF k] in auto)

lemma conn_stuck_run: "conn_step\<^sup>*\<^sup>* s s' \<Longrightarrow> conn_stuck t s \<Longrightarrow> conn_stuck t s'"
  by (induction rule: rtranclp_induct) (auto intro: conn_stuck_step)

subsection \<open>Properties\<close>


text \<open>C33: The first calls can block the client for good. When the method finds a connection it returns without
  releasing its read lock; a call that had seen no connection and now asks for the write lock then waits
  for ever, and every later call waits behind it and never returns.\<close>

theorem mdns_read_lock_leaks:
  assumes "conn_stuck t s" and "conn_step\<^sup>*\<^sup>* s s1" and "mc_pc s1 u = CIdle \<or> mc_pc s1 u = CBlocked"
    and "conn_step\<^sup>*\<^sup>* s1 s2"
  shows "mc_pc s2 t = CPending \<and> (mc_pc s2 u = CIdle \<or> mc_pc s2 u = CBlocked)"
  using assms(4)
proof (induction rule: rtranclp_induct)
  case base
  show ?case using conn_stuckD(3) [OF conn_stuck_run [OF assms(2,1)]] assms(3) by blast
next
  case (step y z)
  have k: "conn_stuck t y" using conn_stuck_run assms(1) rtranclp_trans [OF assms(2) step(1)] by blast
  have "mc_pc z u = CIdle \<or> mc_pc z u = CBlocked"
    using step(2)
  proof (cases rule: conn_stepE)
    case (opened v res)
    with conn_stuckD(4) [OF k, of v] conn_stuckD(3) [OF k] show ?thesis by (auto simp: is_writer_def)
  next
    case (check v)
    with step(3) show ?thesis by (auto simp: conn_check_def split: option.split)
  next
    case (lock v)
    with conn_stuckD(2) [OF k] show ?thesis by simp
  qed (use step(3) conn_stuckD(5) [OF k] in \<open>auto simp: conn_block_def\<close>)
  with conn_stuckD(3) [OF conn_stuck_step [OF step(2) k]] show ?case by blast
qed

text \<open>Three calls at the start: two find no connection, the first opens it, the third returns it on the
  fast path, and the second asks for the write lock.\<close>

definition after_open :: mdns_conn where
  "after_open = \<lparr>mc_conn = Some 9, mc_readers = 0, mc_blocked = [],
     mc_pc = (\<lambda>t. CIdle)(0 := CReturned (Inr 9), 1 := CSawNil)\<rparr>"

definition opening_conn :: mdns_conn where
  "opening_conn = \<lparr>mc_conn = None, mc_readers = 0, mc_blocked = [],
     mc_pc = (\<lambda>t. CIdle)(0 := CWriting, 1 := CSawNil)\<rparr>"

definition stuck_conn :: mdns_conn where
  "stuck_conn = \<lparr>mc_conn = Some 9, mc_readers = 1, mc_blocked = [],
     mc_pc = (\<lambda>t. CIdle)(0 := CReturned (Inr 9), 1 := CPending, 2 := CReturned (Inr 9))\<rparr>"

lemma conn_run_append: "conn_reach s \<Longrightarrow> conn_step s s' \<Longrightarrow> s' = s'' \<Longrightarrow> conn_reach s''"
  by (metis rtranclp.rtrancl_into_rtrancl)

lemma opening_conn_reach: "conn_reach opening_conn"
proof -
  let ?st = "\<lambda>c n pc. \<lparr>mc_conn = c, mc_readers = n, mc_blocked = [], mc_pc = pc\<rparr>"
  let ?i = "\<lambda>t :: nat. CIdle"
  have nw: "no_writer (?st c n pc)" if "\<forall>t. \<not> is_writer (pc t)" for c n pc
    using that by (simp add: no_writer_def)
  have 0: "conn_reach (?st None 0 ?i)" by (simp add: new_mdns_conn_def)
  have 1: "conn_reach (?st None 1 (?i(0 := CReading)))"
    by (rule conn_run_append [OF 0 conn_step.rlock [where t = 0]]) (simp_all add: nw is_writer_def conn_rlock_def)
  have 2: "conn_reach (?st None 2 (?i(0 := CReading, 1 := CReading)))"
    by (rule conn_run_append [OF 1 conn_step.rlock [where t = 1]]) (simp_all add: nw is_writer_def conn_rlock_def)
  have 3: "conn_reach (?st None 1 (?i(0 := CSawNil, 1 := CReading)))"
    by (rule conn_run_append [OF 2 conn_step.check [where t = 0]]) (simp_all add: conn_check_def fun_upd_twist)
  have 4: "conn_reach (?st None 0 (?i(0 := CSawNil, 1 := CSawNil)))"
    by (rule conn_run_append [OF 3 conn_step.check [where t = 1]]) (simp_all add: conn_check_def)
  have 5: "conn_reach (?st None 0 (?i(0 := CPending, 1 := CSawNil)))"
    by (rule conn_run_append [OF 4 conn_step.pend [where t = 0]]) (simp_all add: nw is_writer_def fun_upd_twist)
  show ?thesis
    by (rule conn_run_append [OF 5 conn_step.lock [where t = 0]]) (simp_all add: opening_conn_def fun_upd_twist)
qed

lemma after_open_reach: "conn_reach after_open"
  by (rule conn_run_append [OF opening_conn_reach conn_step.opened [where t = 0 and res = "Inr 9"]])
    (auto simp: opening_conn_def conn_open_def conn_unlock_def after_open_def)

lemma stuck_conn_reach: "conn_reach stuck_conn"
proof -
  let ?st = "\<lambda>n pc. \<lparr>mc_conn = Some 9, mc_readers = n, mc_blocked = [], mc_pc = pc\<rparr>"
  let ?i = "(\<lambda>t :: nat. CIdle)(0 := CReturned (Inr 9), 1 := CSawNil)"
  have 1: "conn_reach (?st 1 (?i(2 := CReading)))"
    by (rule conn_run_append [OF after_open_reach conn_step.rlock [where t = 2]])
      (simp_all add: no_writer_def is_writer_def conn_rlock_def after_open_def)
  have 2: "conn_reach (?st 1 (?i(2 := CReturned (Inr 9))))"
    by (rule conn_run_append [OF 1 conn_step.check [where t = 2]]) (simp_all add: conn_check_def)
  show ?thesis
    by (rule conn_run_append [OF 2 conn_step.pend [where t = 1]])
      (simp_all add: no_writer_def is_writer_def stuck_conn_def fun_upd_twist)
qed


theorem mdns_read_lock_leaks_witness:
  "conn_reach stuck_conn \<and> conn_stuck 1 stuck_conn \<and> conn_step stuck_conn (conn_block 3 stuck_conn)
   \<and> mc_pc (conn_block 3 stuck_conn) 1 = CPending \<and> mc_pc (conn_block 3 stuck_conn) 3 \<noteq> CReading"
proof -
  have k: "conn_stuck 1 stuck_conn" by (simp add: conn_stuck_def stuck_conn_def is_writer_def)
  have i: "mc_pc stuck_conn 3 = CIdle" by (simp add: stuck_conn_def)
  have s: "conn_step stuck_conn (conn_block 3 stuck_conn)"
    using conn_step.block [OF i] conn_stuckD(5) [OF k] by blast
  have run: "conn_step\<^sup>*\<^sup>* stuck_conn (conn_block 3 stuck_conn)" using s by blast
  from mdns_read_lock_leaks [OF k rtranclp.rtrancl_refl disjI1 [OF i] run] k s stuck_conn_reach
  show ?thesis by auto
qed

end
