(* ===== verification/RingBuf.thy ===== *)
theory RingBuf
  imports Prelude
begin

text \<open>
  \<open>internal/util/ring_buf.go\<close>: the fixed-capacity ring buffer behind every history stream. The
  record keeps the Go struct's fields; \<open>rb_list\<close> reads it as the list of its elements, oldest
  first, and the locale \<open>bounded_log\<close> is the contract its clients use: adding keeps the last
  \<open>cap\<close> elements, and positions read that list.
\<close>

record 'a ringbuf =
  rb_start :: int
  rb_end :: int
  rb_size :: int
  rb_buf :: "'a list"

definition rb_cap :: "'a ringbuf \<Rightarrow> int" where
  "rb_cap b = int (length (rb_buf b))"

text \<open>\<open>make ([]T, capacity)\<close> fills the buffer with the zero value of \<open>T\<close> and panics below 0.\<close>

definition new_ring_buf :: "'a \<Rightarrow> int \<Rightarrow> 'a ringbuf panicking" where
  "new_ring_buf zero capacity =
     (if capacity < 0 then Inl MakeSliceLen
      else Inr \<lparr>rb_start = 0, rb_end = -1, rb_size = 0, rb_buf = replicate (nat capacity) zero\<rparr>)"

text \<open>The read \<open>s.buf[k % cap (s.buf)]\<close>, with its two panics.\<close>

definition rb_at :: "'a ringbuf \<Rightarrow> int \<Rightarrow> 'a panicking" where
  "rb_at b k =
     (if rb_cap b = 0 then Inl DivideByZero
      else let j = go_rem k (rb_cap b) in
        if j < 0 then Inl IndexOutOfRange else Inr (rb_buf b ! nat j))"

definition rb_add :: "'a ringbuf \<Rightarrow> 'a \<Rightarrow> 'a ringbuf panicking" where
  "rb_add b item =
     (let capacity = rb_cap b in
      if capacity = 0 then Inl DivideByZero
      else
        let b1 = (if rb_size b = capacity
                  then b\<lparr>rb_start := go_rem (rb_start b + 1) capacity\<rparr>
                  else b\<lparr>rb_size := rb_size b + 1\<rparr>);
            e = go_rem (rb_end b1 + 1) capacity
        in if e < 0 then Inl IndexOutOfRange
           else Inr (b1\<lparr>rb_end := e, rb_buf := (rb_buf b1)[nat e := item]\<rparr>))"

definition rb_get :: "'a ringbuf \<Rightarrow> int \<Rightarrow> 'a panicking" where
  "rb_get b i = rb_at b (rb_start b + i)"

definition rb_slice :: "'a ringbuf \<Rightarrow> int \<Rightarrow> int \<Rightarrow> 'a list panicking" where
  "rb_slice b from cnt =
     (if rb_size b = 0 \<or> from < 0 \<or> cnt \<le> 0 \<or> rb_size b \<le> from then Inr []
      else
        let n = min cnt (rb_size b); base = from + rb_start b
        in traverse (\<lambda>i. rb_at b (base + int i)) [0..<nat n])"

definition rb_values :: "'a ringbuf \<Rightarrow> 'a list panicking" where
  "rb_values b = rb_slice b 0 (rb_size b)"

text \<open>The indices the loop of \<open>Iterator\<close> visits, in order.\<close>

function iter_indices :: "int \<Rightarrow> int \<Rightarrow> int \<Rightarrow> int list" where
  "iter_indices n i step =
     (if 0 \<le> i \<and> i < n \<and> step \<noteq> 0 then i # iter_indices n (i + step) step else [])"
  by pat_completeness auto
termination
  by (relation "measure (\<lambda>(n, i, step). nat (if 0 < step then n - i else i + 1))") auto

declare iter_indices.simps [simp del]

definition rb_iterator :: "'a ringbuf \<Rightarrow> int \<Rightarrow> int \<Rightarrow> 'a list panicking" where
  "rb_iterator b from step =
     traverse (\<lambda>i. rb_at b (rb_start b + i))
       (iter_indices (rb_size b) from (if step = 0 then 1 else step))"

subsection \<open>Invariant and contents\<close>

text \<open>
  The oldest element is at \<open>start\<close>, the newest at \<open>end\<close>, \<open>size\<close> of them in between, and
  \<open>start\<close> only moves once the buffer is full.
\<close>

definition rb_inv :: "'a ringbuf \<Rightarrow> bool" where
  "rb_inv b \<longleftrightarrow>
     0 < rb_cap b \<and> 0 \<le> rb_size b \<and> rb_size b \<le> rb_cap b
     \<and> 0 \<le> rb_start b \<and> rb_start b < rb_cap b
     \<and> (rb_size b < rb_cap b \<longrightarrow> rb_start b = 0)
     \<and> rb_end b = (if rb_size b = 0 then -1 else (rb_start b + rb_size b - 1) mod rb_cap b)"

definition rb_list :: "'a ringbuf \<Rightarrow> 'a list" where
  "rb_list b = map (\<lambda>i. rb_buf b ! nat ((rb_start b + int i) mod rb_cap b)) [0..<nat (rb_size b)]"

lemma length_rb_list [simp]: "length (rb_list b) = nat (rb_size b)"
  by (simp add: rb_list_def)

lemma rb_invD:
  assumes "rb_inv b"
  shows "0 < rb_cap b" "0 \<le> rb_size b" "rb_size b \<le> rb_cap b" "0 \<le> rb_start b" "rb_start b < rb_cap b"
  using assms by (auto simp: rb_inv_def)

lemma rb_list_nth:
  "0 \<le> i \<Longrightarrow> i < rb_size b \<Longrightarrow> rb_list b ! nat i = rb_buf b ! nat ((rb_start b + i) mod rb_cap b)"
  by (simp add: rb_list_def)

lemma new_ring_buf_inv:
  "0 < capacity \<Longrightarrow>
   \<exists>b. new_ring_buf zero capacity = Inr b \<and> rb_inv b \<and> rb_list b = [] \<and> rb_cap b = capacity"
  by (simp add: new_ring_buf_def rb_inv_def rb_list_def rb_cap_def)

lemma rb_at_Inr: "0 < rb_cap b \<Longrightarrow> 0 \<le> k \<Longrightarrow> rb_at b k = Inr (rb_buf b ! nat (k mod rb_cap b))"
  by (simp add: rb_at_def Let_def not_less)

lemma rb_get_list:
  "rb_inv b \<Longrightarrow> 0 \<le> i \<Longrightarrow> i < rb_size b \<Longrightarrow> rb_get b i = Inr (rb_list b ! nat i)"
  by (simp add: rb_get_def rb_at_Inr rb_list_nth rb_invD)

lemma rb_list_window:
  assumes "rb_inv b" and "0 \<le> from" and "from + int n \<le> rb_size b"
  shows "traverse (\<lambda>i. rb_at b (rb_start b + from + int i)) [0..<n] = Inr (take n (drop (nat from) (rb_list b)))"
proof -
  have "take n (drop (nat from) (rb_list b))
      = map (\<lambda>i. rb_buf b ! nat ((rb_start b + from + int i) mod rb_cap b)) [0..<n]"
    using assms by (intro nth_equalityI) (auto simp: rb_list_def algebra_simps nat_add_distrib)
  then show ?thesis
    using assms rb_invD [OF assms(1)] by (auto intro!: traverse_Inr simp: rb_at_Inr)
qed

lemma rb_slice_within:
  assumes "rb_inv b" and "0 \<le> from" and "0 < cnt" and "from + cnt \<le> rb_size b"
  shows "rb_slice b from cnt = Inr (take (nat cnt) (drop (nat from) (rb_list b)))"
  using rb_list_window [of b "from" "nat cnt"] assms
  by (auto simp: rb_slice_def Let_def algebra_simps)

lemma rb_slice_wraps:
  assumes inv: "rb_inv b" and "0 \<le> from" and "from < rb_size b" and "rb_size b < from + cnt"
    and "cnt \<le> rb_size b" and full: "rb_size b = rb_cap b"
  shows "rb_slice b from cnt = Inr (drop (nat from) (rb_list b)
           @ take (nat (from + cnt - rb_size b)) (rb_list b))"
proof -
  let ?read = "\<lambda>i. rb_buf b ! nat ((from + rb_start b + int i) mod rb_cap b)"
  note bounds = rb_invD [OF inv]
  have "rb_slice b from cnt = traverse (\<lambda>i. rb_at b (from + rb_start b + int i)) [0..<nat cnt]"
    using assms by (simp add: rb_slice_def Let_def)
  also have "\<dots> = Inr (map ?read [0..<nat cnt])"
    using assms bounds by (intro traverse_Inr) (simp add: rb_at_Inr)
  also have "map ?read [0..<nat cnt] = drop (nat from) (rb_list b)
           @ take (nat (from + cnt - rb_size b)) (rb_list b)" (is "_ = ?rhs")
  proof (rule nth_equalityI)
    show "length (map ?read [0..<nat cnt]) = length ?rhs" using assms by auto
  next
    fix i assume "i < length (map ?read [0..<nat cnt])"
    then have i: "i < nat cnt" by simp
    show "map ?read [0..<nat cnt] ! i = ?rhs ! i"
    proof (cases "from + int i < rb_size b")
      case True
      then have lt: "i < nat (rb_size b) - nat from" and "nat from + i < nat (rb_size b)"
        using assms by simp_all
      with i assms show ?thesis
        by (simp add: nth_append rb_list_def algebra_simps)
    next
      case False
      have "(from + rb_start b + int i) mod rb_cap b = (rb_start b + (from + int i - rb_cap b)) mod rb_cap b"
        by (simp add: mod_diff_right_eq algebra_simps)
      moreover define j where "j = nat (from + int i - rb_cap b)"
      have "from + int i - rb_cap b = int j" using False full by (simp add: j_def)
      moreover have "\<not> i < nat (rb_size b) - nat from" using False assms(2) by linarith
      moreover have "i - (nat (rb_size b) - nat from) = j"
        using False full assms(2,3) by (simp add: j_def)
      moreover have "j < nat (from + cnt - rb_size b)" and "j < nat (rb_size b)"
        using False full i assms(3,4,5) unfolding j_def by linarith+
      ultimately show ?thesis using i by (simp add: nth_append rb_list_def)
    qed
  qed
  finally show ?thesis .
qed

lemma rb_values_list: "rb_inv b \<Longrightarrow> rb_values b = Inr (rb_list b)"
proof (cases "rb_size b = 0")
  case True
  then show ?thesis by (simp add: rb_values_def rb_slice_def rb_list_def)
next
  case False
  assume inv: "rb_inv b"
  with False have "0 < rb_size b" using rb_invD(2) [OF inv] by simp
  with rb_slice_within [OF inv, of 0 "rb_size b"] show ?thesis
    by (simp add: rb_values_def)
qed

subsection \<open>Adding an element\<close>

lemma mod_shift_neq:
  fixes s n k :: int
  assumes "0 \<le> s" and "s < n" and "0 < k" and "k < n"
  shows "(s + k) mod n \<noteq> s"
proof
  assume "(s + k) mod n = s"
  then have "n dvd k" by (metis add_diff_cancel_left' mod_eq_dvd_iff mod_pos_pos_trivial assms(1,2))
  with assms show False by (simp add: zdvd_not_zless)
qed

lemma rb_add_grow:
  assumes inv: "rb_inv b" and "rb_size b < rb_cap b"
  shows "rb_add b x = Inr (b\<lparr>rb_size := rb_size b + 1, rb_end := rb_size b,
           rb_buf := (rb_buf b)[nat (rb_size b) := x]\<rparr>)"
  using assms rb_invD [OF inv]
  by (auto simp: rb_add_def Let_def rb_inv_def rb_cap_def)

lemma rb_add_full:
  assumes inv: "rb_inv b" and full: "rb_size b = rb_cap b"
  shows "rb_add b x = Inr (b\<lparr>rb_start := (rb_start b + 1) mod rb_cap b, rb_end := rb_start b,
           rb_buf := (rb_buf b)[nat (rb_start b) := x]\<rparr>)"
proof -
  note bounds = rb_invD [OF inv]
  have "rb_end b = (rb_start b - 1) mod rb_cap b"
    using inv full bounds by (simp add: rb_inv_def) (metis add_diff_eq diff_add_eq mod_add_self2)
  then have "(rb_end b + 1) mod rb_cap b = rb_start b"
    using bounds by (simp add: mod_add_left_eq)
  moreover have "0 \<le> rb_end b" using inv full bounds by (simp add: rb_inv_def)
  ultimately show ?thesis using full bounds
    by (simp add: rb_add_def Let_def rb_cap_def)
qed

lemma rb_add_ok:
  assumes inv: "rb_inv b"
  shows "\<exists>b'. rb_add b x = Inr b' \<and> rb_inv b' \<and> rb_cap b' = rb_cap b
           \<and> rb_list b' = last_n (nat (rb_cap b)) (rb_list b @ [x])"
proof (cases "rb_size b < rb_cap b")
  case True
  let ?b = "b\<lparr>rb_size := rb_size b + 1, rb_end := rb_size b, rb_buf := (rb_buf b)[nat (rb_size b) := x]\<rparr>"
  note bounds = rb_invD [OF inv]
  have start: "rb_start b = 0" using inv True by (simp add: rb_inv_def)
  have "rb_list ?b = rb_list b @ [x]"
    using True bounds start
    by (intro nth_equalityI) (auto simp: rb_list_def rb_cap_def nth_append nth_list_update nat_add_distrib)
  moreover have "rb_inv ?b" using True bounds start by (simp add: rb_inv_def rb_cap_def)
  ultimately show ?thesis
    using rb_add_grow [OF inv True] True bounds by (simp add: rb_cap_def)
next
  case False
  note bounds = rb_invD [OF inv]
  from False bounds have full: "rb_size b = rb_cap b" by simp
  let ?s = "(rb_start b + 1) mod rb_cap b"
  let ?b = "b\<lparr>rb_start := ?s, rb_end := rb_start b, rb_buf := (rb_buf b)[nat (rb_start b) := x]\<rparr>"
  have cap: "rb_cap ?b = rb_cap b" by (simp add: rb_cap_def)
  have "(?s + rb_cap b - 1) mod rb_cap b = rb_start b"
  proof -
    have "(?s + rb_cap b - 1) mod rb_cap b = (?s + (rb_cap b - 1)) mod rb_cap b"
      by (simp only: add_diff_eq)
    also have "\<dots> = (rb_start b + 1 + (rb_cap b - 1)) mod rb_cap b" by (simp only: mod_add_left_eq)
    also have "\<dots> = rb_start b" using bounds by simp
    finally show ?thesis .
  qed
  then have inv': "rb_inv ?b" using full bounds by (simp add: rb_inv_def cap)
  have slot: "(?s + int i) mod rb_cap b = (rb_start b + 1 + int i) mod rb_cap b" for i
    by (simp only: mod_add_left_eq)
  have "rb_list ?b = tl (rb_list b) @ [x]"
  proof (rule nth_equalityI)
    show "length (rb_list ?b) = length (tl (rb_list b) @ [x])" using full bounds by simp
  next
    fix i assume "i < length (rb_list ?b)"
    then have i: "int i < rb_cap b" and iN: "i < nat (rb_cap b)" using full by simp_all
    have old: "rb_list ?b ! i = (rb_buf b)[nat (rb_start b) := x] ! nat ((rb_start b + 1 + int i) mod rb_cap b)"
      using iN full by (simp add: rb_list_def cap slot)
    show "rb_list ?b ! i = (tl (rb_list b) @ [x]) ! i"
    proof (cases "int i = rb_cap b - 1")
      case True
      then have "(rb_start b + 1 + int i) mod rb_cap b = rb_start b" using bounds by simp
      moreover have "i = length (tl (rb_list b))" using True full bounds by simp
      ultimately show ?thesis using old full bounds
        by (simp add: nth_append rb_cap_def)
    next
      case False
      with i have i': "int i + 1 < rb_cap b" by simp
      have ne: "(rb_start b + (int i + 1)) mod rb_cap b \<noteq> rb_start b"
        using mod_shift_neq [of "rb_start b" "rb_cap b" "int i + 1"] bounds i' by simp
      have nonneg: "0 \<le> (rb_start b + (int i + 1)) mod rb_cap b" using bounds by simp
      from ne nonneg bounds have "nat ((rb_start b + (int i + 1)) mod rb_cap b) \<noteq> nat (rb_start b)"
        by (simp add: eq_nat_nat_iff)
      with old have "rb_list ?b ! i = rb_buf b ! nat ((rb_start b + int (Suc i)) mod rb_cap b)"
        by (simp add: ac_simps)
      moreover have "Suc i < nat (rb_cap b)" and "i < nat (rb_cap b) - 1" using i' by simp_all
      ultimately show ?thesis using full
        by (simp add: nth_append nth_tl rb_list_def)
    qed
  qed
  with full bounds rb_add_full [OF inv full] inv' cap show ?thesis
    by (simp add: last_n_snoc_full)
qed

subsection \<open>The order of iteration\<close>

lemma iter_indices_up:
  "0 \<le> i \<Longrightarrow> i \<le> n \<Longrightarrow> iter_indices n i 1 = map (\<lambda>k. i + int k) [0..<nat (n - i)]"
proof (induction n i "1::int" rule: iter_indices.induct)
  case (1 n i)
  show ?case
  proof (cases "i < n")
    case True
    then have "nat (n - i) = Suc (nat (n - (i + 1)))" by simp
    with 1 True show ?thesis
      by (simp add: iter_indices.simps [of n i] upt_conv_Cons map_Suc_upt [symmetric] del: upt_Suc)
  next
    case False
    then show ?thesis by (simp add: iter_indices.simps [of n i])
  qed
qed

lemma iter_indices_down:
  "-1 \<le> i \<Longrightarrow> i < n \<Longrightarrow> iter_indices n i (-1) = map int (rev [0..<nat (i + 1)])"
proof (induction n i "-1::int" rule: iter_indices.induct)
  case (1 n i)
  show ?case
  proof (cases "0 \<le> i")
    case True
    then have "nat (i + 1) = Suc (nat i)" by simp
    with 1 True show ?thesis by (simp add: iter_indices.simps [of n i])
  next
    case False
    then show ?thesis by (simp add: iter_indices.simps [of n i])
  qed
qed

text \<open>\<open>Iterator (pos, 1)\<close> yields the elements from \<open>pos\<close> on, \<open>Iterator (pos, -1)\<close> those from
  \<open>pos\<close> back to the oldest.\<close>

lemma rb_iterator_forward:
  assumes inv: "rb_inv b" and "0 \<le> pos" and "pos \<le> rb_size b"
  shows "rb_iterator b pos 1 = Inr (drop (nat pos) (rb_list b))"
proof -
  have "rb_iterator b pos 1 = traverse (rb_get b) (iter_indices (rb_size b) pos 1)"
    by (simp add: rb_iterator_def rb_get_def [abs_def])
  also have "\<dots> = Inr (map (\<lambda>i. rb_list b ! nat i) (iter_indices (rb_size b) pos 1))"
    using assms by (intro traverse_Inr) (auto simp: iter_indices_up rb_get_list)
  also have "map (\<lambda>i. rb_list b ! nat i) (iter_indices (rb_size b) pos 1) = drop (nat pos) (rb_list b)"
    using assms by (intro nth_equalityI) (auto simp: iter_indices_up nat_add_distrib)
  finally show ?thesis .
qed

lemma rb_iterator_backward:
  assumes inv: "rb_inv b" and "-1 \<le> pos" and "pos < rb_size b"
  shows "rb_iterator b pos (-1) = Inr (rev (take (nat (pos + 1)) (rb_list b)))"
proof -
  have "rb_iterator b pos (-1) = traverse (rb_get b) (iter_indices (rb_size b) pos (-1))"
    by (simp add: rb_iterator_def rb_get_def [abs_def])
  also have "\<dots> = Inr (map (\<lambda>i. rb_list b ! nat i) (iter_indices (rb_size b) pos (-1)))"
    using assms by (intro traverse_Inr) (auto simp: iter_indices_down rb_get_list)
  also have "map (\<lambda>i. rb_list b ! nat i) (iter_indices (rb_size b) pos (-1))
      = rev (map ((!) (rb_list b)) [0..<nat (pos + 1)])"
    using assms by (simp add: iter_indices_down rev_map)
  also have "map ((!) (rb_list b)) [0..<nat (pos + 1)] = take (nat (pos + 1)) (rb_list b)"
    using assms by (intro nth_equalityI) auto
  finally show ?thesis .
qed

declare length_rb_list [simp del]

subsection \<open>The contract of a bounded log\<close>

locale bounded_log =
  fixes add :: "'b \<Rightarrow> 'a \<Rightarrow> 'b panicking"
    and get :: "'b \<Rightarrow> int \<Rightarrow> 'a panicking"
    and len :: "'b \<Rightarrow> int"
    and cap :: "'b \<Rightarrow> int"
    and contents :: "'b \<Rightarrow> 'a list"
    and inv :: "'b \<Rightarrow> bool"
  assumes add_keeps_last: "inv b \<Longrightarrow> \<exists>b'. add b x = Inr b' \<and> inv b' \<and> cap b' = cap b
            \<and> contents b' = last_n (nat (cap b)) (contents b @ [x])"
    and len_contents: "inv b \<Longrightarrow> len b = int (length (contents b))"
    and len_le_cap: "inv b \<Longrightarrow> len b \<le> cap b"
    and get_contents: "inv b \<Longrightarrow> 0 \<le> i \<Longrightarrow> i < len b \<Longrightarrow> get b i = Inr (contents b ! nat i)"
begin

lemma contents_bound: "inv b \<Longrightarrow> length (contents b) \<le> nat (cap b)"
  using len_contents [of b] len_le_cap [of b] by simp

lemma add_all_keeps_last:
  "inv b \<Longrightarrow> \<exists>b'. fold_res add b xs = Inr b' \<and> inv b' \<and> cap b' = cap b
     \<and> contents b' = last_n (nat (cap b)) (contents b @ xs)"
proof (induction xs arbitrary: b)
  case Nil
  then show ?case by (simp add: contents_bound)
next
  case (Cons x xs)
  obtain b1 where b1: "add b x = Inr b1" "inv b1" "cap b1 = cap b"
    "contents b1 = last_n (nat (cap b)) (contents b @ [x])"
    using add_keeps_last [OF Cons.prems] by blast
  from Cons.IH [OF b1(2)] b1 show ?case by auto
qed

lemma newest_is_last:
  assumes "inv b" and "0 < cap b" and "add b x = Inr b'"
  shows "inv b' \<and> 0 < len b' \<and> get b' (len b' - 1) = Inr x"
proof -
  obtain c where c: "add b x = Inr c" "inv c" "contents c = last_n (nat (cap b)) (contents b @ [x])"
    using add_keeps_last [OF assms(1)] by blast
  with assms(3) have b': "inv b'" "contents b' = last_n (nat (cap b)) (contents b @ [x])" by simp_all
  have ne: "contents b' \<noteq> []" and last: "last (contents b') = x"
    using assms(2) by (simp_all add: b'(2) last_n_def last_drop)
  from ne have pos: "0 < len b'" using len_contents [OF b'(1)] by simp
  have "nat (len b' - 1) = length (contents b') - 1"
    using len_contents [OF b'(1)] by simp
  then show ?thesis
    using get_contents [OF b'(1), of "len b' - 1"] pos last ne b'(1) by (simp add: last_conv_nth)
qed

end

interpretation ring: bounded_log rb_add rb_get rb_size rb_cap rb_list rb_inv
proof
  show "rb_inv b \<Longrightarrow> \<exists>b'. rb_add b x = Inr b' \<and> rb_inv b' \<and> rb_cap b' = rb_cap b
      \<and> rb_list b' = last_n (nat (rb_cap b)) (rb_list b @ [x])" for b :: "'a ringbuf" and x
    by (rule rb_add_ok)
qed (simp_all add: rb_invD rb_get_list length_rb_list)

subsection \<open>Properties\<close>

text \<open>C22: a buffer made with a positive capacity never panics, whatever is added to it: it holds
  exactly the last \<open>capacity\<close> elements added, oldest first, and \<open>Values\<close> returns them.\<close>

theorem ring_buffer_history:
  assumes "0 < capacity"
  shows "\<exists>b0 b. new_ring_buf zero capacity = Inr b0 \<and> fold_res rb_add b0 xs = Inr b
           \<and> rb_values b = Inr (last_n (nat capacity) xs)
           \<and> rb_size b = min capacity (int (length xs))"
proof -
  obtain b0 where b0: "new_ring_buf zero capacity = Inr b0" "rb_inv b0" "rb_list b0 = []"
    "rb_cap b0 = capacity"
    using new_ring_buf_inv [OF assms] by metis
  obtain b where b: "fold_res rb_add b0 xs = Inr b" "rb_inv b"
    "rb_list b = last_n (nat capacity) xs"
    using ring.add_all_keeps_last [OF b0(2), of xs] b0 by auto
  have "rb_size b = min capacity (int (length xs))"
    using ring.len_contents [OF b(2)] b(3) assms by simp
  with b0 b show ?thesis by (simp add: rb_values_list)
qed

theorem ring_buffer_history_witness:
  "0 < (2::int) \<and> (\<exists>b0 b. new_ring_buf 0 2 = Inr b0 \<and> fold_res rb_add b0 [7, 8, 9 :: nat] = Inr b
     \<and> rb_values b = Inr [8, 9] \<and> rb_size b = 2)"
  using ring_buffer_history [of 2 "0::nat" "[7, 8, 9]"]
  by (simp add: last_n_def del: fold_res.simps)

text \<open>\<open>Slice (from, count)\<close> is the stretch of \<open>count\<close> elements from position \<open>from\<close> while
  that stretch lies inside the buffer, and empty for an empty or out-of-range request. A request
  that runs past the newest element of a full buffer is not cut there: it goes on with the
  oldest elements, because \<open>count\<close> is clamped to the size and not to what follows \<open>from\<close>.\<close>

theorem ring_buffer_slice:
  assumes inv: "rb_inv b"
  shows "(rb_size b = 0 \<or> from < 0 \<or> cnt \<le> 0 \<or> rb_size b \<le> from \<longrightarrow> rb_slice b from cnt = Inr [])
     \<and> (0 \<le> from \<and> 0 < cnt \<and> from + cnt \<le> rb_size b \<longrightarrow>
          rb_slice b from cnt = Inr (take (nat cnt) (drop (nat from) (rb_list b))))
     \<and> (0 \<le> from \<and> from < rb_size b \<and> rb_size b < from + cnt \<and> cnt \<le> rb_size b \<and> rb_size b = rb_cap b \<longrightarrow>
          rb_slice b from cnt = Inr (drop (nat from) (rb_list b)
                                    @ take (nat (from + cnt - rb_size b)) (rb_list b)))"
  using rb_slice_within [OF inv] rb_slice_wraps [OF inv] by (auto simp: rb_slice_def)

theorem ring_buffer_slice_witness:
  "let b = \<lparr>rb_start = 1, rb_end = 0, rb_size = 3, rb_buf = [9, 7, 8 :: nat]\<rparr> in
   rb_inv b \<and> rb_list b = [7, 8, 9] \<and> rb_slice b 0 2 = Inr [7, 8] \<and> rb_slice b 3 1 = Inr []
   \<and> rb_slice b 1 3 = Inr [8, 9, 7]"
proof -
  let ?b = "\<lparr>rb_start = 1, rb_end = 0, rb_size = 3, rb_buf = [9, 7, 8 :: nat]\<rparr>"
  have inv: "rb_inv ?b" by (simp add: rb_inv_def rb_cap_def)
  have list: "rb_list ?b = [7, 8, 9]"
    by (simp add: rb_list_def rb_cap_def upt_rec numeral_eq_Suc)
  show ?thesis
    using inv list ring_buffer_slice [OF inv, of 0 2] ring_buffer_slice [OF inv, of 3 1]
      ring_buffer_slice [OF inv, of 1 3]
    by (simp add: rb_cap_def)
qed

text \<open>a history of size zero is not an empty history: the buffer is made, and the first
  element added to it panics with a division by zero.\<close>

theorem ring_buffer_zero_capacity:
  "\<exists>b. new_ring_buf zero 0 = Inr b \<and> rb_values b = Inr [] \<and> rb_add b x = Inl DivideByZero"
  by (simp add: new_ring_buf_def rb_values_def rb_slice_def rb_add_def rb_cap_def)

end
