(* ===== verification/Strconv.thy ===== *)
theory Strconv
  imports GoStd
begin

text \<open>
  Package \<open>strconv\<close> as the sources use it: \<open>ParseUint\<close> with its two errors and its early return
  on overflow, \<open>Atoi\<close> (which returns a value beside its error, and the callers that drop the
  error use that value), \<open>Itoa\<close>, and \<open>fmt\<close>'s verb \<open>%016x\<close>. The round trips at the end are
  what the address and cursor texts rest on.
\<close>

datatype num_error = ErrSyntax | ErrRange

definition digit_value :: "char \<Rightarrow> nat option" where
  "digit_value c =
     (let n = (of_char c :: nat) in
      if 48 \<le> n \<and> n \<le> 57 then Some (n - 48)
      else if 97 \<le> n \<and> n \<le> 122 then Some (n - 87)
      else if 65 \<le> n \<and> n \<le> 90 then Some (n - 55)
      else None)"

text \<open>The loop of \<open>ParseUint (s, base, 64)\<close>: it stops at the first bad byte or at the first overflow.\<close>

fun parse_digits :: "nat \<Rightarrow> string \<Rightarrow> nat \<Rightarrow> num_error + nat" where
  "parse_digits base [] n = Inr n"
| "parse_digits base (c # s) n =
     (case digit_value c of
        None \<Rightarrow> Inl ErrSyntax
      | Some d \<Rightarrow>
          if base \<le> d then Inl ErrSyntax
          else if 2 ^ 64 \<le> n * base + d then Inl ErrRange
          else parse_digits base s (n * base + d))"

definition parse_uint :: "nat \<Rightarrow> string \<Rightarrow> num_error + nat" where
  "parse_uint base s = (if s = [] then Inl ErrSyntax else parse_digits base s 0)"

text \<open>\<open>Atoi\<close> returns the pair of a value and an error; on \<open>ErrRange\<close> the value is saturated.\<close>

definition atoi :: "string \<Rightarrow> int \<times> num_error option" where
  "atoi s =
     (if s = [] then (0, Some ErrSyntax)
      else
        let neg = (hd s = CHR ''-'');
            body = (if hd s = CHR ''+'' \<or> hd s = CHR ''-'' then tl s else s)
        in case parse_uint 10 body of
             Inl ErrSyntax \<Rightarrow> (0, Some ErrSyntax)
           | Inl ErrRange \<Rightarrow> (if neg then min_int else max_int, Some ErrRange)
           | Inr n \<Rightarrow>
               if \<not> neg \<and> 2 ^ 63 \<le> n then (max_int, Some ErrRange)
               else if neg \<and> 2 ^ 63 < n then (min_int, Some ErrRange)
               else (if neg then - int n else int n, None))"

definition digit_char :: "nat \<Rightarrow> char" where
  "digit_char d = char_of (if d < 10 then 48 + d else 87 + d)"

text \<open>The digits of a number in a base of at most 36, most significant first, at least one.\<close>

fun format_uint :: "nat \<Rightarrow> nat \<Rightarrow> string" where
  "format_uint base n =
     (if n < base \<or> base < 2 then [digit_char n]
      else format_uint base (n div base) @ [digit_char (n mod base)])"

declare format_uint.simps [simp del]

definition itoa :: "nat \<Rightarrow> string" where
  "itoa n = format_uint 10 n"

definition format_016x :: "nat \<Rightarrow> string" where
  "format_016x n = (let h = format_uint 16 n in replicate (16 - length h) (CHR ''0'') @ h)"

lemma of_char_digit_char:
  "d < 36 \<Longrightarrow> (of_char (digit_char d) :: nat) = (if d < 10 then 48 + d else 87 + d)"
  by (simp add: digit_char_def of_char_of)

lemma digit_value_digit_char [simp]: "d < 36 \<Longrightarrow> digit_value (digit_char d) = Some d"
  by (simp add: digit_value_def of_char_digit_char)

lemma digit_value_zero [simp]: "digit_value CHR ''0'' = Some 0"
  by (simp add: digit_value_def)

lemma parse_digits_append:
  "parse_digits base (s @ t) n =
     (case parse_digits base s n of Inl e \<Rightarrow> Inl e | Inr m \<Rightarrow> parse_digits base t m)"
  by (induction s arbitrary: n) (auto split: option.splits)

lemma parse_digits_zeros: "2 \<le> base \<Longrightarrow> parse_digits base (replicate k CHR ''0'' @ s) 0 = parse_digits base s 0"
  by (induction k) auto

lemma parse_format_uint:
  assumes "2 \<le> base" and "base \<le> 36" and "n < 2 ^ 64"
  shows "parse_digits base (format_uint base n) 0 = Inr n"
  using assms
proof (induction base n rule: format_uint.induct)
  case (1 base n)
  show ?case
  proof (cases "n < base")
    case True
    with 1 show ?thesis by (simp add: format_uint.simps [of base n])
  next
    case False
    have less: "n div base < 2 ^ 64" using "1.prems" by (meson div_le_dividend le_less_trans)
    have IH: "parse_digits base (format_uint base (n div base)) 0 = Inr (n div base)"
      using 1 False less by simp
    have dig: "n mod base < base" using "1.prems" by simp
    with "1.prems" have "n mod base < 36" by linarith
    with IH False dig "1.prems" show ?thesis
      by (simp add: format_uint.simps [of base n] parse_digits_append not_le)
  qed
qed

lemma format_uint_not_Nil [simp]: "format_uint base n \<noteq> []"
  by (simp add: format_uint.simps)

lemma format_uint_chars:
  assumes "c \<in> set (format_uint base n)" and "2 \<le> base"
  shows "\<exists>d < base. c = digit_char d"
  using assms
proof (induction base n rule: format_uint.induct)
  case (1 base n)
  show ?case
  proof (cases "n < base")
    case True
    with 1 show ?thesis by (auto simp: format_uint.simps [of base n])
  next
    case False
    from "1.prems" have "\<exists>d < base. digit_char (n mod base) = digit_char d"
      by (intro exI [of _ "n mod base"]) simp
    with 1 False show ?thesis by (auto simp: format_uint.simps [of base n])
  qed
qed

lemma format_uint_length:
  assumes "2 \<le> base" and "n < base ^ k" and "0 < k"
  shows "length (format_uint base n) \<le> k"
  using assms
proof (induction base n arbitrary: k rule: format_uint.induct)
  case (1 base n)
  show ?case
  proof (cases "n < base")
    case True
    with 1 show ?thesis by (simp add: format_uint.simps [of base n])
  next
    case False
    with "1.prems" obtain j where k: "k = Suc j" and j: "0 < j"
      by (cases k; cases "k = 1") auto
    have "n div base < base ^ j"
      using "1.prems" by (simp add: k less_mult_imp_div_less mult.commute)
    with 1 False j have "length (format_uint base (n div base)) \<le> j" by simp
    with False "1.prems" show ?thesis by (simp add: format_uint.simps [of base n] k)
  qed
qed

lemma parse_uint_itoa: "n < 2 ^ 64 \<Longrightarrow> parse_uint 10 (itoa n) = Inr n"
  by (simp add: parse_uint_def itoa_def parse_format_uint)

lemma itoa_chars: "c \<in> set (itoa n) \<Longrightarrow> \<exists>d < 10. c = digit_char d"
  unfolding itoa_def by (rule format_uint_chars) simp_all

lemma digit_char_range:
  "d < 10 \<Longrightarrow> 48 \<le> (of_char (digit_char d) :: nat) \<and> (of_char (digit_char d) :: nat) \<le> 57"
  by (simp add: of_char_digit_char)

lemma itoa_no_char: "(of_char c :: nat) < 48 \<or> 57 < (of_char c :: nat) \<Longrightarrow> c \<notin> set (itoa n)"
  using itoa_chars [of c n] digit_char_range by fastforce

lemma atoi_itoa:
  assumes "n < 2 ^ 63"
  shows "atoi (itoa n) = (int n, None)"
proof -
  have plus: "CHR ''+'' \<notin> set (itoa n)" and minus: "CHR ''-'' \<notin> set (itoa n)"
    by (rule itoa_no_char; simp)+
  have ne: "itoa n \<noteq> []" by (simp add: itoa_def)
  then have "hd (itoa n) \<in> set (itoa n)" by simp
  with plus minus have "hd (itoa n) \<noteq> CHR ''+''" "hd (itoa n) \<noteq> CHR ''-''" by metis+
  with ne assms show ?thesis by (simp add: atoi_def parse_uint_itoa)
qed

lemma format_016x_length: "n < 2 ^ 64 \<Longrightarrow> length (format_016x n) = 16"
  using format_uint_length [of 16 n 16] by (simp add: format_016x_def Let_def)

lemma parse_format_016x: "n < 2 ^ 64 \<Longrightarrow> parse_uint 16 (format_016x n) = Inr n"
  by (simp add: parse_uint_def format_016x_def Let_def parse_digits_zeros parse_format_uint)

lemma atoi_bounds: "min_int \<le> fst (atoi s) \<and> fst (atoi s) \<le> max_int"
  by (auto simp: atoi_def Let_def min_int_def max_int_def
      split: sum.splits num_error.splits)

end
