(* ===== verification/Stream.thy ===== *)
theory Stream
  imports RingBuf Strconv
begin

text \<open>
  \<open>internal/stream\<close>: cursors (\<open>cursor.go\<close>) and the buffered history stream (\<open>buffered.go\<close>) that
  keeps the last entries in a ring buffer, stamps each with a cursor made of the clock and a
  counter, tells its listeners, and answers paged queries forward and backward from a cursor.
\<close>

unbundle bit_operations_syntax

subsection \<open>Cursors\<close>

type_synonym cursor = u64

definition cursor_string :: "cursor \<Rightarrow> string" where
  "cursor_string c = format_016x (unat c)"

definition parse_cursor :: "string \<Rightarrow> cursor \<times> num_error option" where
  "parse_cursor s =
     (case parse_uint 16 s of
        Inl e \<Rightarrow> (0, Some e)
      | Inr n \<Rightarrow> (of_nat n, None))"

definition cursor_unmarshal :: "cursor \<Rightarrow> string \<Rightarrow> cursor \<times> num_error option" where
  "cursor_unmarshal c b =
     (let (cur, err) = parse_cursor b in if err = None then (cur, err) else (c, err))"

text \<open>The cursor of an entry: \<open>(uint64 (UnixMilli ()) << 32) | uint64 (index)\<close>. The index is an
  \<open>int32\<close>, which the conversion sign-extends.\<close>

definition make_cursor :: "int \<Rightarrow> 32 word \<Rightarrow> cursor" where
  "make_cursor millis index = push_bit 32 (of_int millis) OR of_int (sint index)"

subsection \<open>The stream\<close>

record 'a stream_entry =
  se_cursor :: cursor
  se_val :: 'a

record ('a, 'l) buffered =
  bs_buf :: "'a stream_entry ringbuf"
  bs_index :: "32 word"
  bs_listeners :: "(u16, 'l) gomap"
  bs_next_listener :: u16

definition new_buffered_stream :: "'a \<Rightarrow> int \<Rightarrow> ('a, 'l) buffered panicking" where
  "new_buffered_stream zero buffer_size =
     (case new_ring_buf \<lparr>se_cursor = 0, se_val = zero\<rparr> buffer_size of
        Inl p \<Rightarrow> Inl p
      | Inr b \<Rightarrow> Inr \<lparr>bs_buf = b, bs_index = 0, bs_listeners = [], bs_next_listener = 0\<rparr>)"

text \<open>
  \<open>Append\<close>: \<open>set_cursor\<close> is the value's \<open>SetCursor\<close> method (the identity for a type without one).
  The result is the new stream and the calls made to the listeners, in the order of the range.
\<close>

definition stream_append ::
  "(cursor \<Rightarrow> 'a \<Rightarrow> 'a) \<Rightarrow> (u16 \<times> 'l) order \<Rightarrow> int \<Rightarrow> ('a, 'l) buffered \<Rightarrow> 'a \<Rightarrow>
   (('a, 'l) buffered \<times> ('l \<times> cursor \<times> 'a) list) panicking" where
  "stream_append set_cursor ord millis s value =
     (let c = make_cursor millis (bs_index s);
          s1 = s\<lparr>bs_index := bs_index s + 1\<rparr>;
          v = set_cursor c value
      in case rb_add (bs_buf s1) \<lparr>se_cursor = c, se_val = v\<rparr> of
           Inl p \<Rightarrow> Inl p
         | Inr b \<Rightarrow> Inr (s1\<lparr>bs_buf := b\<rparr>, map (\<lambda>(k, l). (l, c, v)) (ord (bs_listeners s1))))"

definition stream_listen :: "('a, 'l) buffered \<Rightarrow> 'l \<Rightarrow> ('a, 'l) buffered \<times> u16" where
  "stream_listen s l =
     (let k = bs_next_listener s in
      (s\<lparr>bs_next_listener := k + 1, bs_listeners := gm_set (bs_listeners s) k l\<rparr>, k))"

text \<open>The function \<open>stop\<close> that \<open>Listen\<close> returns for the key \<open>k\<close>.\<close>

definition stream_stop :: "('a, 'l) buffered \<Rightarrow> u16 \<Rightarrow> ('a, 'l) buffered" where
  "stream_stop s k = s\<lparr>bs_listeners := gm_delete (bs_listeners s) k\<rparr>"

subsection \<open>Queries\<close>

text \<open>\<open>sort.Find (n, cmp)\<close>: its binary search; \<open>cmp\<close> may panic as the buffer read inside it may.\<close>

function find_loop :: "(int \<Rightarrow> int panicking) \<Rightarrow> int \<Rightarrow> int \<Rightarrow> int panicking" where
  "find_loop cmp i j =
     (if i < j then
        let h = (i + j) div 2 in
        case cmp h of
          Inl p \<Rightarrow> Inl p
        | Inr c \<Rightarrow> if 0 < c then find_loop cmp (h + 1) j else find_loop cmp i h
      else Inr i)"
  by pat_completeness auto
termination
  by (relation "measure (\<lambda>(cmp, i, j). nat (j - i))") auto

declare find_loop.simps [simp del]

definition sort_find :: "int \<Rightarrow> (int \<Rightarrow> int panicking) \<Rightarrow> (int \<times> bool) panicking" where
  "sort_find n cmp =
     (case find_loop cmp 0 n of
        Inl p \<Rightarrow> Inl p
      | Inr i \<Rightarrow>
          if i < n then (case cmp i of Inl p \<Rightarrow> Inl p | Inr c \<Rightarrow> Inr (i, c = 0))
          else Inr (i, False))"

definition lookup_pos :: "('a, 'l) buffered \<Rightarrow> cursor \<Rightarrow> (int \<times> bool) panicking" where
  "lookup_pos s c =
     sort_find (rb_size (bs_buf s))
       (\<lambda>i. case rb_get (bs_buf s) i of Inl p \<Rightarrow> Inl p | Inr e \<Rightarrow> Inr (cmp_compare c (se_cursor e)))"

record 'a query_result =
  qr_items :: "'a list"
  qr_first :: cursor
  qr_last :: cursor
  qr_has_more :: bool

definition qr_reverse :: "'a query_result \<Rightarrow> 'a query_result" where
  "qr_reverse r = r\<lparr>qr_items := rev (qr_items r), qr_first := qr_last r, qr_last := qr_first r\<rparr>"

definition passes :: "('a \<Rightarrow> bool) option \<Rightarrow> 'a \<Rightarrow> bool" where
  "passes predicate v = (case predicate of None \<Rightarrow> True | Some p \<Rightarrow> p v)"

text \<open>
  The loop over the iterator. \<open>make ([]T, 0, count)\<close> panics when \<open>count\<close> exceeds the largest
  capacity the runtime can allocate for the element type, here \<open>max_cap\<close>.
\<close>

fun query_loop ::
  "int \<Rightarrow> ('a \<Rightarrow> bool) option \<Rightarrow> int \<Rightarrow> 'a stream_entry list \<Rightarrow> 'a query_result \<Rightarrow> 'a query_result panicking"
where
  "query_loop max_cap predicate cnt [] res = Inr res"
| "query_loop max_cap predicate cnt (it # its) res =
     (if \<not> passes predicate (se_val it) then query_loop max_cap predicate cnt its res
      else if cnt \<le> int (length (qr_items res)) then Inr (res\<lparr>qr_has_more := True\<rparr>)
      else if qr_items res = [] \<and> max_cap < cnt then Inl MakeSliceCap
      else
        let items = qr_items res @ [se_val it];
            first = (if length items = 1 then se_cursor it else qr_first res)
        in query_loop max_cap predicate cnt its
             (res\<lparr>qr_items := items, qr_first := first, qr_last := se_cursor it\<rparr>))"

definition stream_query0 ::
  "int \<Rightarrow> bool \<Rightarrow> ('a, 'l) buffered \<Rightarrow> cursor \<Rightarrow> int \<Rightarrow> ('a \<Rightarrow> bool) option \<Rightarrow> 'a query_result panicking"
where
  "stream_query0 max_cap forward s c cnt predicate =
     (case lookup_pos s c of
        Inl p \<Rightarrow> Inl p
      | Inr (pos0, found) \<Rightarrow>
          let pos = (if \<not> forward then pos0 - 1 else if found then pos0 + 1 else pos0);
              res = \<lparr>qr_items = [], qr_first = c, qr_last = c, qr_has_more = False\<rparr>
          in if pos < 0 \<or> rb_size (bs_buf s) \<le> pos then Inr res
             else (case rb_iterator (bs_buf s) pos (if forward then 1 else -1) of
                     Inl p \<Rightarrow> Inl p
                   | Inr its \<Rightarrow> query_loop max_cap predicate cnt its res))"

definition stream_query where
  "stream_query max_cap s c cnt predicate = stream_query0 max_cap True s c cnt predicate"

definition stream_query_backward where
  "stream_query_backward max_cap s c cnt predicate = stream_query0 max_cap False s c cnt predicate"

subsection \<open>Binary search\<close>

lemma find_loop_partition:
  assumes "i \<le> k" and "k \<le> j"
    and "\<And>h. i \<le> h \<Longrightarrow> h < j \<Longrightarrow> cmp h = Inr (f h)"
    and "\<And>h. i \<le> h \<Longrightarrow> h < k \<Longrightarrow> 0 < f h" and "\<And>h. k \<le> h \<Longrightarrow> h < j \<Longrightarrow> f h \<le> 0"
  shows "find_loop cmp i j = Inr k"
  using assms
proof (induction cmp i j rule: find_loop.induct)
  case (1 cmp i j)
  show ?case
  proof (cases "i < j")
    case True
    let ?h = "(i + j) div 2"
    have h: "i \<le> ?h" "?h < j" using True by auto
    then have cmp: "cmp ?h = Inr (f ?h)" by (rule "1.prems"(3))
    show ?thesis
    proof (cases "0 < f ?h")
      case up: True
      then have "?h < k" using "1.prems"(5) [of ?h] h by force
      then have "find_loop cmp (?h + 1) j = Inr k"
        using "1.IH"(1) [OF True refl cmp up] "1.prems" h by auto
      with True cmp up show ?thesis by (simp add: find_loop.simps [of cmp i j] Let_def)
    next
      case down: False
      then have "k \<le> ?h" using "1.prems"(4) [of ?h] h by force
      then have "find_loop cmp i ?h = Inr k"
        using "1.IH"(2) [OF True refl cmp down] "1.prems" h by auto
      with True cmp down show ?thesis by (simp add: find_loop.simps [of cmp i j] Let_def)
    qed
  next
    case False
    with "1.prems"(1,2) show ?thesis by (simp add: find_loop.simps [of cmp i j])
  qed
qed

abbreviation stream_entries :: "('a, 'l) buffered \<Rightarrow> 'a stream_entry list" where
  "stream_entries s \<equiv> rb_list (bs_buf s)"

definition entries_sorted :: "'a stream_entry list \<Rightarrow> bool" where
  "entries_sorted es \<longleftrightarrow> sorted_wrt (<) (map se_cursor es)"

definition stream_inv :: "('a, 'l) buffered \<Rightarrow> bool" where
  "stream_inv s \<longleftrightarrow> rb_inv (bs_buf s) \<and> entries_sorted (stream_entries s)"

definition count_below :: "cursor \<Rightarrow> 'a stream_entry list \<Rightarrow> nat" where
  "count_below c es = length (takeWhile (\<lambda>e. se_cursor e < c) es)"

lemma entries_sorted_Cons [simp]:
  "entries_sorted (e # es) \<longleftrightarrow> (\<forall>x \<in> set es. se_cursor e < se_cursor x) \<and> entries_sorted es"
  by (simp add: entries_sorted_def)

lemma entries_sorted_take:
  "entries_sorted es \<Longrightarrow> take (count_below c es) es = filter (\<lambda>e. se_cursor e < c) es"
proof (induction es)
  case (Cons e es)
  show ?case
  proof (cases "se_cursor e < c")
    case True
    with Cons show ?thesis by (simp add: count_below_def)
  next
    case False
    with Cons.prems have "\<forall>x \<in> set es. \<not> se_cursor x < c" by fastforce
    with False show ?thesis by (simp add: count_below_def)
  qed
qed (simp add: count_below_def)

lemma entries_sorted_drop:
  "entries_sorted es \<Longrightarrow> drop (count_below c es) es = filter (\<lambda>e. c \<le> se_cursor e) es"
proof (induction es)
  case (Cons e es)
  show ?case
  proof (cases "se_cursor e < c")
    case True
    with Cons show ?thesis by (simp add: count_below_def not_le)
  next
    case False
    with Cons.prems have "\<forall>x \<in> set es. c \<le> se_cursor x" by fastforce
    with False show ?thesis by (simp add: count_below_def)
  qed
qed (simp add: count_below_def)

lemma drop_after_cursor:
  "entries_sorted es \<Longrightarrow>
   drop (if count_below c es < length es \<and> se_cursor (es ! count_below c es) = c
         then count_below c es + 1 else count_below c es) es = filter (\<lambda>e. c < se_cursor e) es"
proof (induction es)
  case (Cons e es)
  consider "se_cursor e < c" | "se_cursor e = c" | "c < se_cursor e" by (meson linorder_less_linear)
  then show ?case
  proof cases
    case 1
    with Cons show ?thesis by (auto simp: count_below_def)
  next
    case 2
    with Cons.prems show ?thesis by (auto simp: count_below_def)
  next
    case 3
    with Cons.prems have "\<forall>x \<in> set es. c < se_cursor x" by fastforce
    with 3 show ?thesis by (auto simp: count_below_def dest: less_asym)
  qed
qed (simp add: count_below_def)

lemma count_below_le: "count_below c es \<le> length es"
  by (simp add: count_below_def length_takeWhile_le)

lemma count_below_nth:
  assumes "entries_sorted es" and "i < length es"
  shows "se_cursor (es ! i) < c \<longleftrightarrow> i < count_below c es"
proof
  assume "i < count_below c es"
  then show "se_cursor (es ! i) < c"
    unfolding count_below_def by (metis nth_length_takeWhile nth_mem set_takeWhileD takeWhile_nth)
next
  assume less: "se_cursor (es ! i) < c"
  show "i < count_below c es"
  proof (rule ccontr)
    assume "\<not> i < count_below c es"
    then have "es ! i \<in> set (drop (count_below c es) es)"
      using assms(2) by (auto simp: in_set_conv_nth intro!: exI [of _ "i - count_below c es"])
    then have "c \<le> se_cursor (es ! i)" by (simp add: entries_sorted_drop [OF assms(1)])
    with less show False by (rule leD [THEN notE, rotated])
  qed
qed

lemma lookup_pos_sorted:
  assumes "stream_inv s"
  shows "lookup_pos s c = Inr (int (count_below c (stream_entries s)),
           count_below c (stream_entries s) < length (stream_entries s)
           \<and> se_cursor (stream_entries s ! count_below c (stream_entries s)) = c)"
proof -
  let ?es = "stream_entries s"
  let ?k = "count_below c ?es"
  let ?n = "rb_size (bs_buf s)"
  let ?f = "\<lambda>h. cmp_compare c (se_cursor (?es ! nat h))"
  let ?cmp = "\<lambda>i. case rb_get (bs_buf s) i of Inl p \<Rightarrow> Inl p | Inr e \<Rightarrow> Inr (cmp_compare c (se_cursor e))"
  have inv: "rb_inv (bs_buf s)" and sorted: "entries_sorted ?es"
    using assms by (auto simp: stream_inv_def)
  have size: "?n = int (length ?es)" using ring.len_contents [OF inv] .
  have k: "int ?k \<le> ?n" using count_below_le [of c ?es] by (simp add: size)
  have cmp: "?cmp h = Inr (?f h)" if "0 \<le> h" "h < ?n" for h
    using rb_get_list [OF inv that] by simp
  have low: "0 < ?f h" if "0 \<le> h" "h < int ?k" for h
    using count_below_nth [OF sorted, of "nat h" c] k that size by simp
  have high: "?f h \<le> 0" if "int ?k \<le> h" "h < ?n" for h
  proof -
    have "nat h < length ?es" and "\<not> nat h < ?k" using that size by linarith+
    then have "\<not> se_cursor (?es ! nat h) < c" using count_below_nth [OF sorted] by blast
    then show ?thesis by (simp add: not_less)
  qed
  have "find_loop ?cmp 0 ?n = Inr (int ?k)"
  proof (rule find_loop_partition [where f = ?f])
    show "0 \<le> int ?k" by simp
    show "int ?k \<le> ?n" by (rule k)
  qed (fact cmp low high)+
  moreover have "?cmp (int ?k) = Inr (cmp_compare c (se_cursor (?es ! ?k)))" if "int ?k < ?n"
    using cmp [of "int ?k"] that by simp
  ultimately show ?thesis by (auto simp: lookup_pos_def sort_find_def size)
qed

subsection \<open>What a query returns\<close>

text \<open>
  A page of a list \<open>es\<close> of matching entries: the first \<open>count\<close> values, the cursors of the first
  and the last of them (the cursor of the query when there is none), and whether more follow.
\<close>

definition page_of :: "cursor \<Rightarrow> int \<Rightarrow> 'a stream_entry list \<Rightarrow> 'a query_result" where
  "page_of c cnt es =
     (let page = take (nat cnt) es in
      \<lparr>qr_items = map se_val page,
       qr_first = (if page = [] then c else se_cursor (hd page)),
       qr_last = (if page = [] then c else se_cursor (last page)),
       qr_has_more = (nat cnt < length es)\<rparr>)"

abbreviation matching :: "('a \<Rightarrow> bool) option \<Rightarrow> 'a stream_entry list \<Rightarrow> 'a stream_entry list" where
  "matching predicate es \<equiv> filter (\<lambda>e. passes predicate (se_val e)) es"

lemma query_loop_started:
  assumes "qr_items res \<noteq> []" and "int (length (qr_items res)) \<le> cnt"
  shows "query_loop max_cap predicate cnt its res =
     (let page = take (nat cnt - length (qr_items res)) (matching predicate its) in
      Inr (res\<lparr>qr_items := qr_items res @ map se_val page,
               qr_last := (if page = [] then qr_last res else se_cursor (last page)),
               qr_has_more := (qr_has_more res \<or> nat cnt - length (qr_items res) < length (matching predicate its))\<rparr>))"
  using assms
proof (induction its arbitrary: res)
  case (Cons it its)
  show ?case
  proof (cases "passes predicate (se_val it)")
    case False
    with Cons show ?thesis by simp
  next
    case True
    show ?thesis
    proof (cases "cnt \<le> int (length (qr_items res))")
      case full: True
      with True Cons.prems show ?thesis by simp
    next
      case False
      let ?res = "res\<lparr>qr_items := qr_items res @ [se_val it], qr_last := se_cursor it\<rparr>"
      have step: "query_loop max_cap predicate cnt (it # its) res = query_loop max_cap predicate cnt its ?res"
        using True False Cons.prems by (simp add: Let_def)
      have left: "nat cnt - length (qr_items res) = Suc (nat cnt - length (qr_items ?res))"
        using False by simp
      have "int (length (qr_items ?res)) \<le> cnt" using False by simp
      with Cons.IH [of ?res] True Cons.prems(1) show ?thesis
        unfolding step by (simp add: left Let_def)
    qed
  qed
qed simp

lemma query_loop_page:
  assumes "cnt \<le> max_cap"
  shows "query_loop max_cap predicate cnt its \<lparr>qr_items = [], qr_first = c, qr_last = c, qr_has_more = False\<rparr>
     = Inr (page_of c cnt (matching predicate its))"
proof (induction its)
  case (Cons it its)
  show ?case
  proof (cases "passes predicate (se_val it)")
    case False
    with Cons show ?thesis by simp
  next
    case True
    show ?thesis
    proof (cases "cnt \<le> 0")
      case False
      then obtain n where n: "nat cnt = Suc n" by (metis not0_implies_Suc nat_0_iff)
      from False have "1 \<le> cnt" by simp
      with True False assms n show ?thesis
        by (simp add: query_loop_started page_of_def Let_def)
    qed (use True in \<open>simp add: page_of_def\<close>)
  qed
qed (simp add: page_of_def)

lemma stream_query0_at:
  assumes "lookup_pos s c = Inr (pos0, found)"
    and pos: "(if \<not> forward then pos0 - 1 else if found then pos0 + 1 else pos0) = pos"
    and "0 \<le> pos" and "pos < rb_size (bs_buf s)" and "cnt \<le> max_cap"
    and "rb_iterator (bs_buf s) pos (if forward then 1 else -1) = Inr its"
  shows "stream_query0 max_cap forward s c cnt predicate = Inr (page_of c cnt (matching predicate its))"
  unfolding stream_query0_def assms(1) using assms(3-)
  by (simp only: sum.case prod.case Let_def pos) (simp add: query_loop_page)

lemma stream_query0_outside:
  assumes "lookup_pos s c = Inr (pos0, found)"
    and pos: "(if \<not> forward then pos0 - 1 else if found then pos0 + 1 else pos0) = pos"
    and "pos < 0 \<or> rb_size (bs_buf s) \<le> pos"
  shows "stream_query0 max_cap forward s c cnt predicate = Inr (page_of c cnt [])"
  unfolding stream_query0_def assms(1) using assms(3)
  by (simp only: sum.case prod.case Let_def pos) (simp add: page_of_def)

lemma query_forward_page:
  assumes inv: "stream_inv s" and cap: "cnt \<le> max_cap"
  shows "stream_query max_cap s c cnt predicate
     = Inr (page_of c cnt (matching predicate (filter (\<lambda>e. c < se_cursor e) (stream_entries s))))"
proof -
  let ?es = "stream_entries s"
  let ?k = "count_below c ?es"
  have rb: "rb_inv (bs_buf s)" and sorted: "entries_sorted ?es"
    using inv by (auto simp: stream_inv_def)
  have size: "rb_size (bs_buf s) = int (length ?es)" using ring.len_contents [OF rb] .
  define found where "found \<longleftrightarrow> ?k < length ?es \<and> se_cursor (?es ! ?k) = c"
  define pos where "pos = (if found then ?k + 1 else ?k)"
  have lookup: "lookup_pos s c = Inr (int ?k, found)"
    using lookup_pos_sorted [OF inv] by (simp add: found_def)
  have pos: "(if \<not> True then int ?k - 1 else if found then int ?k + 1 else int ?k) = int pos"
    by (simp add: pos_def)
  have rest: "drop pos ?es = filter (\<lambda>e. c < se_cursor e) ?es"
    unfolding pos_def found_def by (rule drop_after_cursor [OF sorted])
  show ?thesis
  proof (cases "pos < length ?es")
    case True
    then have "rb_iterator (bs_buf s) (int pos) 1 = Inr (drop pos ?es)"
      using rb_iterator_forward [OF rb, of "int pos"] size by simp
    then show ?thesis unfolding stream_query_def rest [symmetric]
      by (intro stream_query0_at [OF lookup pos]) (use True size cap in simp_all)
  next
    case False
    then have "filter (\<lambda>e. c < se_cursor e) ?es = []" by (simp add: rest [symmetric])
    then show ?thesis unfolding stream_query_def
      using stream_query0_outside [OF lookup pos, of max_cap cnt predicate] False size by simp
  qed
qed

lemma query_backward_page:
  assumes inv: "stream_inv s" and cap: "cnt \<le> max_cap"
  shows "stream_query_backward max_cap s c cnt predicate
     = Inr (page_of c cnt (matching predicate (rev (filter (\<lambda>e. se_cursor e < c) (stream_entries s)))))"
proof -
  let ?es = "stream_entries s"
  let ?k = "count_below c ?es"
  have rb: "rb_inv (bs_buf s)" and sorted: "entries_sorted ?es"
    using inv by (auto simp: stream_inv_def)
  have size: "rb_size (bs_buf s) = int (length ?es)" using ring.len_contents [OF rb] .
  obtain found where lookup: "lookup_pos s c = Inr (int ?k, found)"
    using lookup_pos_sorted [OF inv] by blast
  have pos: "(if \<not> False then int ?k - 1 else if found then int ?k + 1 else int ?k) = int ?k - 1"
    by simp
  have below: "take ?k ?es = filter (\<lambda>e. se_cursor e < c) ?es"
    by (rule entries_sorted_take [OF sorted])
  have k: "?k \<le> length ?es" by (rule count_below_le)
  show ?thesis
  proof (cases "?k = 0")
    case False
    have "rb_iterator (bs_buf s) (int ?k - 1) (-1) = Inr (rev (take ?k ?es))"
      using rb_iterator_backward [OF rb, of "int ?k - 1"] k size by simp
    then show ?thesis unfolding stream_query_backward_def below [symmetric]
      by (intro stream_query0_at [OF lookup pos]) (use False k size cap in simp_all)
  next
    case True
    then have "filter (\<lambda>e. se_cursor e < c) ?es = []" by (simp add: below [symmetric])
    then show ?thesis unfolding stream_query_backward_def
      using stream_query0_outside [OF lookup pos, of max_cap cnt predicate] True by simp
  qed
qed

subsection \<open>The value of a cursor\<close>

lemma sint_as_uint: 
  assumes "0 \<le> sint (i :: 32 word)" shows "sint i = uint i"
proof -
  have "\<not> bit i 31" using assms bit_last_iff [of i] by simp
  then have "take_bit 31 (uint i) = take_bit (Suc 31) (uint i)"
    using take_bit_Suc_from_most [of 31 "uint i"] by (simp add: bit_uint_iff)
  moreover have "sint i = take_bit 31 (uint i)" using \<open>\<not> bit i 31\<close>
    by (simp add: sint_uint signed_take_bit_eq_if_positive bit_uint_iff)
  ultimately show ?thesis using take_bit_int_eq_self [of "uint i" 32] uint_lt2p [of i] by simp
qed

lemma uint_make_cursor:
  assumes "0 \<le> sint i"
  shows "uint (make_cursor ms i) = (ms mod 2 ^ 32) * 2 ^ 32 + sint i"
proof -
  have range: "sint i < 2 ^ 31" using sint_lt [of i] by simp
  have hi: "uint (push_bit 32 (of_int ms) :: 64 word) = push_bit 32 (take_bit 32 ms)"
    by (simp only: unsigned_push_bit_eq uint_word_of_int_eq) (simp add: take_bit_push_bit)
  have lo: "uint (of_int (sint i) :: 64 word) = sint i"
    using assms range by (simp only: uint_word_of_int_eq) (simp add: take_bit_int_eq_self)
  have small: "sint i = take_bit 32 (sint i)"
    using assms range by (simp add: take_bit_int_eq_self)
  have "uint (make_cursor ms i) = push_bit 32 (take_bit 32 ms) OR take_bit 32 (sint i)"
    unfolding small [symmetric] by (simp only: make_cursor_def unsigned_or_eq hi lo)
  also have "\<dots> = push_bit 32 (take_bit 32 ms) + take_bit 32 (sint i)"
    by (intro disjunctive_add_eq_or [symmetric] bit_eqI) (auto simp: bit_simps)
  finally show ?thesis unfolding small [symmetric]
    by (simp only: push_bit_eq_mult take_bit_eq_mod)
qed

subsection \<open>Appending\<close>

definition append_entry ::
  "(cursor \<Rightarrow> 'a \<Rightarrow> 'a) \<Rightarrow> (u16 \<times> 'l) order \<Rightarrow> ('a, 'l) buffered \<Rightarrow> int \<times> 'a \<Rightarrow> ('a, 'l) buffered panicking"
where
  "append_entry sc ord s x = map_sum (\<lambda>p. p) fst (stream_append sc ord (fst x) s (snd x))"

text \<open>The entries a run of appends makes, from index \<open>i\<close> on.\<close>

fun stamped :: "(cursor \<Rightarrow> 'a \<Rightarrow> 'a) \<Rightarrow> 32 word \<Rightarrow> (int \<times> 'a) list \<Rightarrow> 'a stream_entry list" where
  "stamped sc i [] = []"
| "stamped sc i ((ms, v) # xs) =
     \<lparr>se_cursor = make_cursor ms i, se_val = sc (make_cursor ms i) v\<rparr> # stamped sc (i + 1) xs"

lemma stream_append_ok:
  assumes "rb_inv (bs_buf s)"
  shows "\<exists>s'. stream_append sc ord ms s v =
      Inr (s', map (\<lambda>(k, l). (l, make_cursor ms (bs_index s), sc (make_cursor ms (bs_index s)) v)) (ord (bs_listeners s)))
    \<and> rb_inv (bs_buf s') \<and> rb_cap (bs_buf s') = rb_cap (bs_buf s)
    \<and> stream_entries s' = last_n (nat (rb_cap (bs_buf s)))
        (stream_entries s @ [\<lparr>se_cursor = make_cursor ms (bs_index s), se_val = sc (make_cursor ms (bs_index s)) v\<rparr>])
    \<and> bs_index s' = bs_index s + 1 \<and> bs_listeners s' = bs_listeners s
    \<and> bs_next_listener s' = bs_next_listener s"
  using ring.add_keeps_last [OF assms, of "\<lparr>se_cursor = make_cursor ms (bs_index s),
      se_val = sc (make_cursor ms (bs_index s)) v\<rparr>"]
  by (auto simp: stream_append_def Let_def)

lemma append_all_entries:
  assumes "rb_inv (bs_buf s)"
  shows "\<exists>s'. fold_res (append_entry sc ord) s xs = Inr s' \<and> rb_inv (bs_buf s')
     \<and> rb_cap (bs_buf s') = rb_cap (bs_buf s)
     \<and> stream_entries s' = last_n (nat (rb_cap (bs_buf s))) (stream_entries s @ stamped sc (bs_index s) xs)"
  using assms
proof (induction xs arbitrary: s)
  case Nil
  then show ?case by (simp add: ring.contents_bound)
next
  case (Cons x xs)
  obtain ms v where x: "x = (ms, v)" by (cases x)
  obtain s1 calls where s1: "stream_append sc ord ms s v = Inr (s1, calls)" "rb_inv (bs_buf s1)"
    "rb_cap (bs_buf s1) = rb_cap (bs_buf s)" "bs_index s1 = bs_index s + 1"
    "stream_entries s1 = last_n (nat (rb_cap (bs_buf s)))
        (stream_entries s @ [\<lparr>se_cursor = make_cursor ms (bs_index s), se_val = sc (make_cursor ms (bs_index s)) v\<rparr>])"
    using stream_append_ok [OF Cons.prems, of sc ord ms v] by blast
  then have step: "append_entry sc ord s x = Inr s1" by (simp add: append_entry_def x)
  from Cons.IH [OF s1(2)] s1 show ?case by (auto simp: x step [unfolded x])
qed

lemma entries_sorted_last_n: "entries_sorted es \<Longrightarrow> entries_sorted (last_n n es)"
  by (simp add: entries_sorted_def last_n_def drop_map [symmetric] sorted_wrt_drop)

text \<open>Times from one window of \<open>2 ^ 32\<close> milliseconds, in order, give increasing cursors.\<close>

definition same_window :: "int \<Rightarrow> int list \<Rightarrow> bool" where
  "same_window w ts \<longleftrightarrow> sorted ts \<and> (\<forall>t \<in> set ts. t div 2 ^ 32 = w)"

lemma make_cursor_mono:
  assumes "t div 2 ^ 32 = t' div 2 ^ 32" and "t \<le> t'" and "0 \<le> sint i" and "sint i < sint j"
  shows "make_cursor t i < make_cursor t' j"
proof -
  have "t mod 2 ^ 32 \<le> t' mod 2 ^ 32"
    using assms(1,2) by (metis div_mod_decomp_int add_le_cancel_left)
  with assms(3,4) show ?thesis
    by (simp only: word_less_def uint_make_cursor) auto
qed

lemma sint_of_nat_small: "n < 2 ^ 31 \<Longrightarrow> sint (of_nat n :: 32 word) = int n"
  by transfer (simp add: signed_take_bit_int_eq_self)

lemma stamped_sorted:
  assumes "same_window w (map fst xs)" and "n + length xs \<le> 2 ^ 31"
  shows "entries_sorted (stamped sc (of_nat n) xs)
     \<and> (\<forall>e \<in> set (stamped sc (of_nat n) xs). \<forall>t i. t div 2 ^ 32 = w \<longrightarrow> (\<forall>x \<in> set xs. t \<le> fst x) \<longrightarrow>
          0 \<le> sint i \<longrightarrow> sint i < int n \<longrightarrow> make_cursor t i < se_cursor e)"
  using assms
proof (induction xs arbitrary: n)
  case Nil
  then show ?case by (simp add: entries_sorted_def)
next
  case (Cons x xs)
  obtain ms v where x: "x = (ms, v)" by (cases x)
  have win: "same_window w (map fst xs)" "ms div 2 ^ 32 = w" "\<forall>y \<in> set xs. ms \<le> fst y"
    using Cons.prems(1) by (auto simp: same_window_def x)
  have n: "n < 2 ^ 31" using Cons.prems(2) by simp
  have idx: "sint (of_nat n :: 32 word) = int n" using sint_of_nat_small [OF n] .
  have "Suc n + length xs \<le> 2 ^ 31" using Cons.prems(2) by simp
  from Cons.IH [OF win(1) this]
  have sorted: "entries_sorted (stamped sc (of_nat (Suc n)) xs)"
    and later: "\<And>e t i. e \<in> set (stamped sc (of_nat (Suc n)) xs) \<Longrightarrow> t div 2 ^ 32 = w \<Longrightarrow>
      \<forall>y \<in> set xs. t \<le> fst y \<Longrightarrow> 0 \<le> sint i \<Longrightarrow> sint i < int (Suc n) \<Longrightarrow> make_cursor t i < se_cursor e"
    by blast+
  have next_index: "of_nat n + 1 = (of_nat (Suc n) :: 32 word)" by simp
  show ?case
  proof (intro conjI ballI allI impI)
    show "entries_sorted (stamped sc (of_nat n) (x # xs))"
      using sorted later [OF _ win(2,3), of _ "of_nat n"] idx by (simp add: x next_index del: of_nat_Suc)
  next
    fix e t and i :: "32 word"
    assume e: "e \<in> set (stamped sc (of_nat n) (x # xs))" and t: "t div 2 ^ 32 = w"
      "\<forall>y \<in> set (x # xs). t \<le> fst y" and i: "0 \<le> sint i" "sint i < int n"
    show "make_cursor t i < se_cursor e"
    proof (cases "e \<in> set (stamped sc (of_nat (Suc n)) xs)")
      case True
      then show ?thesis using later [of e t i] t i by simp
    next
      case False
      with e have "se_cursor e = make_cursor ms (of_nat n)" by (simp add: x next_index del: of_nat_Suc)
      then show ?thesis using make_cursor_mono [of t ms i "of_nat n"] t i win(2) idx by (simp add: x)
    qed
  qed
qed

subsection \<open>Properties\<close>

text \<open>the text of a cursor (16 hexadecimal digits) parses back to the cursor.\<close>

theorem cursor_text_roundtrip:
  "parse_cursor (cursor_string c) = (c, None) \<and> cursor_unmarshal d (cursor_string c) = (c, None)
     \<and> length (cursor_string c) = 16"
proof -
  have "unat c < 2 ^ 64" using unsigned_less [of c] by simp
  then show ?thesis
    using parse_format_016x [of "unat c"] format_016x_length [of "unat c"]
    by (simp add: parse_cursor_def cursor_string_def cursor_unmarshal_def)
qed

text \<open>C23: values appended to a new stream with clock readings in order inside one window of
  \<open>2 ^ 32\<close> milliseconds, at most \<open>2 ^ 31\<close> of them, never panic; the stream then holds exactly the
  last \<open>capacity\<close> of them, oldest first, each stamped with its cursor, and the cursors strictly
  increase.\<close>

theorem stream_keeps_history:
  assumes "0 < capacity" and "same_window w (map fst xs)" and "length xs \<le> 2 ^ 31"
  shows "\<exists>s0 s. new_buffered_stream zero capacity = Inr s0 \<and> fold_res (append_entry sc ord) s0 xs = Inr s
           \<and> stream_inv s \<and> stream_entries s = last_n (nat capacity) (stamped sc 0 xs)"
proof -
  obtain b0 where b0: "new_ring_buf \<lparr>se_cursor = 0, se_val = zero\<rparr> capacity = Inr b0" "rb_inv b0"
    "rb_list b0 = []" "rb_cap b0 = capacity"
    using new_ring_buf_inv [OF assms(1)] by metis
  let ?s0 = "\<lparr>bs_buf = b0, bs_index = 0, bs_listeners = [], bs_next_listener = 0\<rparr>"
  obtain s where s: "fold_res (append_entry sc ord) ?s0 xs = Inr s" "rb_inv (bs_buf s)"
    "stream_entries s = last_n (nat capacity) (stamped sc 0 xs)"
    using append_all_entries [of ?s0 sc ord xs] b0 by auto
  have "entries_sorted (stamped sc 0 xs)"
    using stamped_sorted [of w xs 0 sc] assms(2,3) by simp
  with s have "stream_inv s" by (simp add: stream_inv_def entries_sorted_last_n)
  with b0 s show ?thesis by (simp add: new_buffered_stream_def)
qed

theorem stream_keeps_history_witness:
  "(0::int) < 2 \<and> same_window 0 (map fst [(5, 10), (5, 11), (9, 12 :: nat)])
     \<and> (\<exists>s0 s. new_buffered_stream 0 2 = Inr s0
          \<and> fold_res (append_entry (\<lambda>c v. v) (\<lambda>ls. ls)) s0 [(5, 10), (5, 11), (9, 12 :: nat)] = Inr s
          \<and> stream_inv s \<and> map se_val (stream_entries s) = [11, 12])"
  using stream_keeps_history [of 2 0 "[(5, 10), (5, 11), (9, 12 :: nat)]" "0::nat" "\<lambda>c v. v" "\<lambda>ls. ls"]
  by (fastforce simp: same_window_def last_n_def simp del: fold_res.simps)

text \<open>C27: the millisecond clock does not fit the 32 bits left for it, so cursors go backward
  every \<open>2 ^ 32\<close> milliseconds (49.7 days): an entry appended one millisecond after another, across
  that boundary, has the smaller cursor, and a forward query from the older entry, as the
  websocket handler makes it, does not see the newer one.\<close>

theorem cursor_order_breaks_at_window_end:
  "make_cursor (2 ^ 32 * k) 1 < make_cursor (2 ^ 32 * k - 1) 0
   \<and> (\<exists>s0 s. new_buffered_stream zero 2 = Inr s0
        \<and> fold_res (append_entry (\<lambda>c v. v) ord) s0 [(2 ^ 32 * k - 1, v), (2 ^ 32 * k, v')] = Inr s
        \<and> stream_query max_cap s (make_cursor (2 ^ 32 * k - 1) 0) cnt None
            = Inr (page_of (make_cursor (2 ^ 32 * k - 1) 0) cnt []))"
proof -
  let ?c = "make_cursor (2 ^ 32 * k - 1) 0" and ?d = "make_cursor (2 ^ 32 * k) 1"
  have "(2 ^ 32 * k - 1) mod 2 ^ 32 = (2 ^ 32 - 1 :: int)"
    by (simp add: mod_diff_left_eq [symmetric] zmod_minus1)
  then have less: "?d < ?c" by (simp add: word_less_def uint_make_cursor)
  define b where "b = \<lparr>rb_start = 0, rb_end = 1, rb_size = 2,
     rb_buf = [\<lparr>se_cursor = ?c, se_val = v\<rparr>, \<lparr>se_cursor = ?d, se_val = v'\<rparr>]\<rparr>"
  define s where "s = \<lparr>bs_buf = b, bs_index = 2, bs_listeners = ([] :: (u16 \<times> 'b) list), bs_next_listener = 0\<rparr>"
  have run: "\<exists>s0. new_buffered_stream zero 2 = Inr s0
     \<and> fold_res (append_entry (\<lambda>c v. v) ord) s0 [(2 ^ 32 * k - 1, v), (2 ^ 32 * k, v')] = Inr s"
    by (simp add: new_buffered_stream_def new_ring_buf_def append_entry_def stream_append_def Let_def
        rb_add_def rb_cap_def numeral_2_eq_2 s_def b_def)
  have "lookup_pos s ?c = Inr (2, False)"
    using less by (simp add: lookup_pos_def sort_find_def find_loop.simps rb_get_def rb_at_def rb_cap_def s_def b_def)
  then have "stream_query max_cap s ?c cnt None = Inr (page_of ?c cnt [])"
    unfolding stream_query_def
    by (rule stream_query0_outside [where pos = 2]) (simp_all add: s_def b_def)
  with less run show ?thesis by blast
qed

text \<open>the 32-bit index also runs out: from the \<open>2 ^ 31\<close>-th append on it is negative, its
  sign extension fills the upper half of the cursor, and the clock no longer counts.\<close>

theorem cursor_index_overflow:
  "make_cursor ms (2 ^ 31) = 0xFFFFFFFF80000000 \<and> make_cursor ms (2 ^ 31) = make_cursor ms' (2 ^ 31)"
proof -
  have high: "(of_int (sint (2 ^ 31 :: 32 word)) :: 64 word) = NOT (mask 31)"
    by (simp add: not_eq_complement mask_eq_exp_minus_1)
  have "make_cursor ms (2 ^ 31) = NOT (mask 31)" for ms
    unfolding make_cursor_def high by (rule bit_word_eqI) (auto simp: bit_simps)
  moreover have "NOT (mask 31) = (0xFFFFFFFF80000000 :: 64 word)"
    by (simp add: not_eq_complement mask_eq_exp_minus_1)
  ultimately have "make_cursor ms (2 ^ 31) = 0xFFFFFFFF80000000" for ms by simp
  then show ?thesis by simp
qed

text \<open>C17: a forward query from a cursor returns the first \<open>count\<close> matching values after it in
  order of time, the cursors of the first and last of them, and whether more match; it never
  panics as long as the runtime can allocate \<open>count\<close> elements.\<close>

theorem query_forward:
  assumes "stream_inv s" and "cnt \<le> max_cap"
  shows "stream_query max_cap s c cnt predicate
     = Inr (page_of c cnt (matching predicate (filter (\<lambda>e. c < se_cursor e) (stream_entries s))))"
  using assms by (rule query_forward_page)

text \<open>C18: a backward query returns the last \<open>count\<close> matching values before the cursor, the
  newest of them first.\<close>

theorem query_backward:
  assumes "stream_inv s" and "cnt \<le> max_cap"
  shows "stream_query_backward max_cap s c cnt predicate
     = Inr (page_of c cnt (matching predicate (rev (filter (\<lambda>e. se_cursor e < c) (stream_entries s)))))"
  using assms by (rule query_backward_page)

definition sample_stream :: "(nat, nat) buffered" where
  "sample_stream = \<lparr>bs_buf = \<lparr>rb_start = 1, rb_end = 0, rb_size = 3,
       rb_buf = [\<lparr>se_cursor = 30, se_val = 3\<rparr>, \<lparr>se_cursor = 10, se_val = 1\<rparr>, \<lparr>se_cursor = 20, se_val = 2\<rparr>]\<rparr>,
     bs_index = 3, bs_listeners = [], bs_next_listener = 0\<rparr>"

lemma sample_stream_inv: "stream_inv sample_stream"
  and sample_stream_entries: "stream_entries sample_stream =
    [\<lparr>se_cursor = 10, se_val = 1\<rparr>, \<lparr>se_cursor = 20, se_val = 2\<rparr>, \<lparr>se_cursor = 30, se_val = 3\<rparr>]"
proof -
  show es: "stream_entries sample_stream =
    [\<lparr>se_cursor = 10, se_val = 1\<rparr>, \<lparr>se_cursor = 20, se_val = 2\<rparr>, \<lparr>se_cursor = 30, se_val = 3\<rparr>]"
    by (simp add: sample_stream_def rb_list_def rb_cap_def upt_rec numeral_eq_Suc)
  have "rb_inv (bs_buf sample_stream)" by (simp add: sample_stream_def rb_inv_def rb_cap_def)
  then show "stream_inv sample_stream" by (simp add: stream_inv_def es entries_sorted_def)
qed

theorem query_forward_witness:
  "stream_query 100 sample_stream 10 1 None
     = Inr \<lparr>qr_items = [2], qr_first = 20, qr_last = 20, qr_has_more = True\<rparr>"
  using query_forward [OF sample_stream_inv, of 1 100 10 None]
  by (simp add: sample_stream_entries page_of_def passes_def)

theorem query_backward_witness:
  "stream_query_backward 100 sample_stream 30 5 (Some even)
     = Inr \<lparr>qr_items = [2], qr_first = 20, qr_last = 20, qr_has_more = False\<rparr>"
  using query_backward [OF sample_stream_inv, of 5 100 30 "Some even"]
  by (simp add: sample_stream_entries page_of_def passes_def)

text \<open>Reading a stream page by page: each next page starts after the last cursor of the one before,
  as the links \<open>NextPageURL\<close> of the list handler do. \<open>fuel\<close> bounds the number of pages.\<close>

fun read_pages ::
  "nat \<Rightarrow> int \<Rightarrow> ('a, 'l) buffered \<Rightarrow> cursor \<Rightarrow> int \<Rightarrow> ('a \<Rightarrow> bool) option \<Rightarrow> 'a list panicking"
where
  "read_pages 0 max_cap s c cnt predicate = Inr []"
| "read_pages (Suc fuel) max_cap s c cnt predicate =
     (case stream_query max_cap s c cnt predicate of
        Inl p \<Rightarrow> Inl p
      | Inr r \<Rightarrow>
          if qr_has_more r then
            (case read_pages fuel max_cap s (qr_last r) cnt predicate of
               Inl p \<Rightarrow> Inl p
             | Inr vs \<Rightarrow> Inr (qr_items r @ vs))
          else Inr (qr_items r))"

lemma entries_sorted_filter: "entries_sorted es \<Longrightarrow> entries_sorted (filter P es)"
  by (induction es) auto

lemma entries_sorted_after_take:
  "entries_sorted es \<Longrightarrow> 0 < n \<Longrightarrow> n \<le> length es \<Longrightarrow>
   filter (\<lambda>e. se_cursor (last (take n es)) < se_cursor e) es = drop n es"
proof (induction es arbitrary: n)
  case (Cons e es)
  then obtain m where m: "n = Suc m" by (cases n) auto
  show ?case
  proof (cases "m = 0")
    case True
    with Cons.prems show ?thesis by (simp add: m)
  next
    case False
    then have "es \<noteq> []" and last: "last (take n (e # es)) = last (take m es)"
      using Cons.prems by (auto simp: m)
    then have "last (take m es) \<in> set es"
      using False by (metis in_set_takeD last_in_set take_eq_Nil)
    with Cons.prems have "\<not> se_cursor (last (take m es)) < se_cursor e" by (auto dest: less_asym)
    with False Cons show ?thesis by (simp add: last m)
  qed
qed simp

lemma page_of_sel [simp]:
  "qr_items (page_of c cnt es) = map se_val (take (nat cnt) es)"
  "take (nat cnt) es \<noteq> [] \<Longrightarrow> qr_last (page_of c cnt es) = se_cursor (last (take (nat cnt) es))"
  "qr_has_more (page_of c cnt es) \<longleftrightarrow> nat cnt < length es"
  by (simp_all add: page_of_def Let_def)

lemma read_pages_all:
  assumes inv: "stream_inv s" and cnt: "0 < cnt" "cnt \<le> max_cap"
    and "length (matching predicate (filter (\<lambda>e. c < se_cursor e) (stream_entries s))) < fuel"
  shows "read_pages fuel max_cap s c cnt predicate
     = Inr (map se_val (matching predicate (filter (\<lambda>e. c < se_cursor e) (stream_entries s))))"
  using assms(4)
proof (induction fuel arbitrary: c)
  case (Suc fuel)
  let ?F = "matching predicate (filter (\<lambda>e. c < se_cursor e) (stream_entries s))"
  have page: "stream_query max_cap s c cnt predicate = Inr (page_of c cnt ?F)"
    by (rule query_forward_page [OF inv cnt(2)])
  show ?case
  proof (cases "nat cnt < length ?F")
    case False
    then show ?thesis by (simp add: page del: filter_filter)
  next
    case True
    let ?d = "se_cursor (last (take (nat cnt) ?F))"
    have ne: "take (nat cnt) ?F \<noteq> []" using True cnt(1) by auto
    have "last (take (nat cnt) ?F) \<in> set ?F" using ne by (meson in_set_takeD last_in_set)
    then have "c < ?d" by simp
    then have "matching predicate (filter (\<lambda>e. ?d < se_cursor e) (stream_entries s))
        = filter (\<lambda>e. ?d < se_cursor e) ?F"
      by (auto simp: filter_filter intro!: filter_cong dest: less_trans)
    also have "\<dots> = drop (nat cnt) ?F"
      using inv True cnt(1)
      by (intro entries_sorted_after_take entries_sorted_filter) (auto simp: stream_inv_def)
    finally have rest: "matching predicate (filter (\<lambda>e. ?d < se_cursor e) (stream_entries s)) = drop (nat cnt) ?F" .
    have "length (drop (nat cnt) ?F) < fuel" using Suc.prems True cnt(1) by simp
    with Suc.IH [of ?d] rest
    have "read_pages fuel max_cap s ?d cnt predicate = Inr (map se_val (drop (nat cnt) ?F))" by simp
    with True ne show ?thesis
      by (simp add: page map_append [symmetric] del: filter_filter map_append)
  qed
qed simp

text \<open>following the pages forward visits every matching value after the cursor exactly once,
  in order, for every page size; one page per matching value, and one more, are enough.\<close>

theorem pagination_complete:
  assumes "stream_inv s" and "0 < cnt" and "cnt \<le> max_cap" and "length (stream_entries s) < fuel"
  shows "read_pages fuel max_cap s c cnt predicate
     = Inr (map se_val (matching predicate (filter (\<lambda>e. c < se_cursor e) (stream_entries s))))"
proof -
  have "length (matching predicate (filter (\<lambda>e. c < se_cursor e) (stream_entries s))) \<le> length (stream_entries s)"
    by (meson length_filter_le le_trans)
  from le_less_trans [OF this assms(4)] show ?thesis by (rule read_pages_all [OF assms(1-3)])
qed

theorem pagination_complete_witness:
  "read_pages 4 100 sample_stream 0 1 None = Inr [1, 2, 3]"
  using pagination_complete [OF sample_stream_inv, of 1 100 4 0 None]
  by (simp add: sample_stream_entries passes_def)

text \<open>an append tells every registered listener once, with the entry's cursor and its stamped
  value; \<open>Listen\<close> with a free key adds one listener and \<open>stop\<close> removes exactly that one.\<close>

theorem listeners_notified:
  assumes "rb_inv (bs_buf s)" and "is_order ord" and "gm_get (bs_listeners s) (bs_next_listener s) = None"
  shows "(\<exists>s' calls. stream_append sc ord ms s v = Inr (s', calls)
           \<and> mset calls = mset (map (\<lambda>(k, l). (l, make_cursor ms (bs_index s), sc (make_cursor ms (bs_index s)) v))
                            (bs_listeners s)))
     \<and> gm_get (bs_listeners (fst (stream_listen s l))) k =
         (if k = snd (stream_listen s l) then Some l else gm_get (bs_listeners s) k)
     \<and> gm_get (bs_listeners (stream_stop (fst (stream_listen s l)) (snd (stream_listen s l)))) k
         = gm_get (bs_listeners s) k"
proof -
  have "mset (map f (ord ls)) = mset (map f ls)" for f :: "u16 \<times> 'b \<Rightarrow> 'b \<times> 64 word \<times> 'a" and ls
    using assms(2) by (simp add: is_order_def)
  with stream_append_ok [OF assms(1), of sc ord ms v] assms(3) show ?thesis
    by (auto simp: stream_listen_def stream_stop_def Let_def simp del: mset_map)
qed

theorem listeners_notified_witness:
  "\<exists>s' calls. stream_append (\<lambda>c v. v) rev 7 (sample_stream\<lparr>bs_listeners := [(5, 1), (6, 2)]\<rparr>) 4 = Inr (s', calls)
     \<and> mset calls = {# (1, make_cursor 7 3, 4), (2, make_cursor 7 3, 4) #}"
proof -
  let ?s = "sample_stream\<lparr>bs_listeners := [(5, 1), (6, 2)]\<rparr>"
  have "rb_inv (bs_buf ?s)" using sample_stream_inv by (simp add: stream_inv_def)
  from listeners_notified [OF this is_order_rev, of "\<lambda>c v. v" 7 4] show ?thesis
    by (simp add: sample_stream_def)
qed

text \<open>the listener keys are 16 bits wide and are not checked for use: after 65536
  registrations the key of a listener that is still there is handed out again, and the new
  registration silently replaces it.\<close>

theorem listener_key_reused:
  "let s1 = fst (stream_listen s l);
       s2 = ((\<lambda>s. fst (stream_listen s m)) ^^ 65535) s1
   in snd (stream_listen s2 l') = snd (stream_listen s l)
      \<and> gm_get (bs_listeners (fst (stream_listen s2 l'))) (snd (stream_listen s l)) = Some l'"
proof -
  have next_listener: "bs_next_listener (((\<lambda>s. fst (stream_listen s m)) ^^ n) t) = bs_next_listener t + of_nat n" for n t
    by (induction n) (simp_all add: stream_listen_def Let_def algebra_simps)
  have "(of_nat 65536 :: 16 word) = 0" by simp
  then have "bs_next_listener (((\<lambda>s. fst (stream_listen s m)) ^^ 65535) (fst (stream_listen s l))) = bs_next_listener s"
    unfolding next_listener by (simp add: stream_listen_def Let_def)
  then show ?thesis by (simp add: stream_listen_def Let_def)
qed

end
