(* ===== verification/Logging.thy ===== *)
theory Logging
  imports Stream
begin

text \<open>
  \<open>internal/log\<close> and \<open>internal/setup/logger.go\<close>: the log handlers that add a prefix, record entries into a
  stream and fan out, the entry made of a record, and the loggers built from them. The library's \<open>slog.Handler\<close>
  at the bottom is a parameter. The lemmas compute what a logger of the server does with a record and with
  attributes.
\<close>

subsection \<open>Records and entries\<close>

text \<open>An attribute value as the handlers see it: the text \<open>fmt.Sprint\<close> gives, or a group with the text its
  \<open>String\<close> method gives and its attributes.\<close>

datatype log_value =
    LText string
  | LGroup string "(string \<times> log_value) list"

type_synonym log_attr = "string \<times> log_value"

fun value_string :: "log_value \<Rightarrow> string" where
  "value_string (LText s) = s"
| "value_string (LGroup s as) = s"

record log_record =
  lr_time :: instant
  lr_level :: int
  lr_message :: string
  lr_attrs :: "log_attr list"

record log_entry =
  le_cursor :: cursor
  le_time :: instant
  le_level :: string
  le_msg :: string
  le_attrs :: "(string, string) gomap option"

text \<open>\<open>slog.Level.String\<close>.\<close>

definition level_offset :: "string \<Rightarrow> int \<Rightarrow> string" where
  "level_offset base val =
     (if val = 0 then base else base @ (if val < 0 then ''-'' else ''+'') @ itoa (nat \<bar>val\<bar>))"

definition level_string :: "int \<Rightarrow> string" where
  "level_string l =
     (if l < 0 then level_offset ''DEBUG'' (l + 4)
      else if l < 4 then level_offset ''INFO'' l
      else if l < 8 then level_offset ''WARN'' (l - 4)
      else level_offset ''ERROR'' (l - 8))"

fun add_attr :: "(string, string) gomap \<Rightarrow> log_attr \<Rightarrow> (string, string) gomap"
  and add_attrs :: "(string, string) gomap \<Rightarrow> log_attr list \<Rightarrow> (string, string) gomap" where
  "add_attr m (k, LText s) = gm_set m k s"
| "add_attr m (k, LGroup s as) = add_attrs m as"
| "add_attrs m [] = m"
| "add_attrs m (a # as) = add_attrs (add_attr m a) as"

definition new_entry :: "log_record \<Rightarrow> log_entry" where
  "new_entry rec =
     \<lparr>le_cursor = 0, le_time = lr_time rec, le_level = level_string (lr_level rec), le_msg = lr_message rec,
      le_attrs = (if 0 < length (lr_attrs rec) then Some (fold (\<lambda>a m. add_attr m a) (lr_attrs rec) []) else None)\<rparr>"

definition entry_set_cursor :: "cursor \<Rightarrow> log_entry \<Rightarrow> log_entry" where
  "entry_set_cursor c e = e\<lparr>le_cursor := c\<rparr>"

subsection \<open>Handlers\<close>

text \<open>
  The interface \<open>slog.Handler\<close>, which the handler of the library provides (\<open>'b\<close> its states, \<open>'w\<close> what it
  writes to), and the handlers of this package around it. The recorders of one program share one
  stream, which is part of the state.
\<close>

record ('b, 'w) slog_base =
  sb_enabled :: "'b \<Rightarrow> int \<Rightarrow> bool"
  sb_handle :: "'b \<Rightarrow> log_record \<Rightarrow> 'w \<Rightarrow> string option \<times> 'w"
  sb_with_attrs :: "'b \<Rightarrow> log_attr list \<Rightarrow> 'b"
  sb_with_group :: "'b \<Rightarrow> string \<Rightarrow> 'b"

datatype 'b handler =
    Base 'b
  | PrefixHandler "'b handler" string
  | Recorder "'b handler"
  | TeeHandler "'b handler list"

type_synonym 'w log_state = "(log_entry, string) buffered \<times> 'w"

definition prefix_key :: string where "prefix_key = ''_prefix_''"

fun handler_enabled :: "('b, 'w) slog_base \<Rightarrow> 'b handler \<Rightarrow> int \<Rightarrow> bool"
  and any_enabled :: "('b, 'w) slog_base \<Rightarrow> 'b handler list \<Rightarrow> int \<Rightarrow> bool" where
  "handler_enabled ops (Base b) level = sb_enabled ops b level"
| "handler_enabled ops (PrefixHandler h p) level = handler_enabled ops h level"
| "handler_enabled ops (Recorder h) level = handler_enabled ops h level"
| "handler_enabled ops (TeeHandler hs) level = any_enabled ops hs level"
| "any_enabled ops [] level = False"
| "any_enabled ops (h # hs) level = (if handler_enabled ops h level then True else any_enabled ops hs level)"

text \<open>\<open>errors.Join\<close> of the errors that occurred.\<close>

definition errors_join :: "string list \<Rightarrow> string option" where
  "errors_join errs = (if errs = [] then None else Some (join_with [CHR 0x0A] errs))"

text \<open>What a recorder does before it hands the record on; \<open>millis\<close> is the clock \<open>Append\<close> reads.\<close>

definition record_entry :: "int \<Rightarrow> log_record \<Rightarrow> (log_entry, string) buffered \<Rightarrow> (log_entry, string) buffered panicking" where
  "record_entry millis rec st =
     (case stream_append entry_set_cursor (\<lambda>ls. ls) millis st (new_entry rec) of
        Inl panic \<Rightarrow> Inl panic
      | Inr (st', calls) \<Rightarrow> Inr st')"

definition prefix_message :: "string \<Rightarrow> log_record \<Rightarrow> log_record" where
  "prefix_message p rec = (if p \<noteq> [] then rec\<lparr>lr_message := p @ '': '' @ lr_message rec\<rparr> else rec)"

fun handle :: "('b, 'w) slog_base \<Rightarrow> int \<Rightarrow> 'b handler \<Rightarrow> log_record \<Rightarrow> 'w log_state \<Rightarrow> (string option \<times> 'w log_state) panicking"
  and handle_all :: "('b, 'w) slog_base \<Rightarrow> int \<Rightarrow> 'b handler list \<Rightarrow> log_record \<Rightarrow> string list \<Rightarrow> 'w log_state
                       \<Rightarrow> (string list \<times> 'w log_state) panicking" where
  "handle ops millis (Base b) rec (st, w) = (let (err, w') = sb_handle ops b rec w in Inr (err, (st, w')))"
| "handle ops millis (PrefixHandler h p) rec s =
     handle ops millis h (prefix_message p rec) s"
| "handle ops millis (Recorder h) rec (st, w) =
     (case record_entry millis rec st of
        Inl panic \<Rightarrow> Inl panic
      | Inr st' \<Rightarrow> handle ops millis h rec (st', w))"
| "handle ops millis (TeeHandler hs) rec s =
     (case handle_all ops millis hs rec [] s of
        Inl panic \<Rightarrow> Inl panic
      | Inr (errs, s') \<Rightarrow> Inr (errors_join errs, s'))"
| "handle_all ops millis [] rec errs s = Inr (errs, s)"
| "handle_all ops millis (h # hs) rec errs s =
     (case handle ops millis h rec s of
        Inl panic \<Rightarrow> Inl panic
      | Inr (err, s') \<Rightarrow> handle_all ops millis hs rec (case err of None \<Rightarrow> errs | Some e \<Rightarrow> errs @ [e]) s')"

fun with_attrs :: "('b, 'w) slog_base \<Rightarrow> log_attr list \<Rightarrow> 'b handler \<Rightarrow> 'b handler" where
  "with_attrs ops attrs (Base b) = Base (sb_with_attrs ops b attrs)"
| "with_attrs ops attrs (PrefixHandler h p) =
     (if length attrs = 1 \<and> fst (attrs ! 0) = prefix_key then
        let prefix = value_string (snd (attrs ! 0));
            prefix = (if p \<noteq> [] then p @ ''.'' @ prefix else prefix)
        in PrefixHandler h prefix
      else PrefixHandler h p)"
| "with_attrs ops attrs (Recorder h) = Recorder (with_attrs ops attrs h)"
| "with_attrs ops attrs (TeeHandler hs) = TeeHandler (map (with_attrs ops attrs) hs)"

fun with_group :: "('b, 'w) slog_base \<Rightarrow> string \<Rightarrow> 'b handler \<Rightarrow> 'b handler" where
  "with_group ops name (Base b) = Base (sb_with_group ops b name)"
| "with_group ops name (PrefixHandler h p) = PrefixHandler (with_group ops name h) p"
| "with_group ops name (Recorder h) = Recorder (with_group ops name h)"
| "with_group ops name (TeeHandler hs) = TeeHandler (map (with_group ops name) hs)"

subsection \<open>Loggers\<close>

text \<open>A logger is its handler. \<open>Logger.With\<close> without arguments is the logger itself; \<open>Logger.Info\<close> and the
  others ask \<open>Enabled\<close> first and drop the error of \<open>Handle\<close>.\<close>

definition logger_with :: "('b, 'w) slog_base \<Rightarrow> log_attr list \<Rightarrow> 'b handler \<Rightarrow> 'b handler" where
  "logger_with ops attrs h = (if attrs = [] then h else with_attrs ops attrs h)"

definition with_prefix :: "('b, 'w) slog_base \<Rightarrow> string \<Rightarrow> 'b handler \<Rightarrow> 'b handler" where
  "with_prefix ops prefix h = logger_with ops [(prefix_key, LText prefix)] h"

definition new_prefix_handler :: "'b handler \<Rightarrow> 'b handler" where
  "new_prefix_handler h = PrefixHandler h []"

text \<open>\<open>setup.Logger\<close>; \<open>text_handler\<close> is the library's text handler with the level chosen.\<close>

definition setup_logger :: "(int \<Rightarrow> 'b) \<Rightarrow> bool \<Rightarrow> ('b handler \<Rightarrow> 'b handler) option \<Rightarrow> 'b handler" where
  "setup_logger text_handler debug wrap_handler =
     (let log_level = (if debug then - 4 else 0);
          h = new_prefix_handler (Base (text_handler log_level))
      in case wrap_handler of None \<Rightarrow> h | Some wrap \<Rightarrow> wrap h)"

definition logger_log :: "('b, 'w) slog_base \<Rightarrow> int \<Rightarrow> 'b handler \<Rightarrow> log_record \<Rightarrow> 'w log_state \<Rightarrow> 'w log_state panicking" where
  "logger_log ops millis h rec s =
     (if handler_enabled ops h (lr_level rec)
      then (case handle ops millis h rec s of Inl panic \<Rightarrow> Inl panic | Inr (err, s') \<Rightarrow> Inr s')
      else Inr s)"

text \<open>\<open>log.Profile\<close>: a line before and, from the function it returns, one after the work.\<close>

definition profile_start :: "('b, 'w) slog_base \<Rightarrow> int \<Rightarrow> 'b handler \<Rightarrow> instant \<Rightarrow> string \<Rightarrow> log_attr list \<Rightarrow> 'w log_state \<Rightarrow> 'w log_state panicking" where
  "profile_start ops millis h now msg args s =
     logger_log ops millis h \<lparr>lr_time = now, lr_level = 0, lr_message = msg, lr_attrs = args\<rparr> s"

text \<open>\<open>secs\<close> is what \<open>fmt\<close> prints for the seconds since the start.\<close>

definition profile_end :: "('b, 'w) slog_base \<Rightarrow> int \<Rightarrow> 'b handler \<Rightarrow> instant \<Rightarrow> string \<Rightarrow> string \<Rightarrow> log_attr list \<Rightarrow> 'w log_state \<Rightarrow> 'w log_state panicking" where
  "profile_end ops millis h now secs msg args s =
     logger_log ops millis h
       \<lparr>lr_time = now, lr_level = - 4, lr_message = msg @ '' completed in '' @ secs @ ''s'', lr_attrs = args\<rparr> s"

text \<open>The logger of the DNS server: \<open>setupLogger\<close> of \<open>cmd/main.go\<close> records what it handles.\<close>

definition server_logger :: "(int \<Rightarrow> 'b) \<Rightarrow> bool \<Rightarrow> 'b handler" where
  "server_logger text_handler debug = setup_logger text_handler debug (Some Recorder)"

definition zero_entry :: log_entry where
  "zero_entry = \<lparr>le_cursor = 0, le_time = 0, le_level = [], le_msg = [], le_attrs = None\<rparr>"

definition new_recorder_stream :: "int \<Rightarrow> (log_entry, string) buffered panicking" where
  "new_recorder_stream buffer_size = new_buffered_stream zero_entry buffer_size"

text \<open>The logger and the stream it records into; a history size below zero panics in the stream.\<close>

definition setup_server_logger ::
  "(int \<Rightarrow> 'b) \<Rightarrow> bool \<Rightarrow> int \<Rightarrow> ('b handler \<times> (log_entry, string) buffered) panicking" where
  "setup_server_logger text_handler debug history_size =
     (case new_recorder_stream history_size of
        Inl panic \<Rightarrow> Inl panic
      | Inr st \<Rightarrow> Inr (server_logger text_handler debug, st))"

subsection \<open>Attributes of an entry\<close>

text \<open>The attributes at the leaves of the groups, in order.\<close>

fun attr_leaves :: "log_attr \<Rightarrow> (string \<times> string) list"
  and attrs_leaves :: "log_attr list \<Rightarrow> (string \<times> string) list" where
  "attr_leaves (k, LText s) = [(k, s)]"
| "attr_leaves (k, LGroup s as) = attrs_leaves as"
| "attrs_leaves [] = []"
| "attrs_leaves (a # as) = attr_leaves a @ attrs_leaves as"

lemma add_attr_leaves:
  "add_attr m a = fold (\<lambda>(k, v) m. gm_set m k v) (attr_leaves a) m"
  "add_attrs m as = fold (\<lambda>(k, v) m. gm_set m k v) (attrs_leaves as) m"
  by (induction m a and m as rule: add_attr_add_attrs.induct) simp_all

lemma fold_add_attr: "fold (\<lambda>a m. add_attr m a) as m = fold (\<lambda>(k, v) m. gm_set m k v) (attrs_leaves as) m"
  by (induction as arbitrary: m) (simp_all add: add_attr_leaves)

lemma fold_gm_set: "gm_get (fold (\<lambda>(k, v) m. gm_set m k v) kvs m) k
    = (case map_of (rev kvs) k of Some v \<Rightarrow> Some v | None \<Rightarrow> gm_get m k)"
  by (induction kvs arbitrary: m) (auto simp: map_add_def split: option.split)

lemma new_entry_attrs:
  "new_entry rec = \<lparr>le_cursor = 0, le_time = lr_time rec, le_level = level_string (lr_level rec), le_msg = lr_message rec,
     le_attrs = le_attrs (new_entry rec)\<rparr>"
  "lr_attrs rec = [] \<Longrightarrow> le_attrs (new_entry rec) = None"
  "lr_attrs rec \<noteq> [] \<Longrightarrow> \<exists>m. le_attrs (new_entry rec) = Some m
      \<and> (\<forall>k. gm_get m k = map_of (rev (attrs_leaves (lr_attrs rec))) k)"
  by (simp_all add: new_entry_def fold_add_attr fold_gm_set option.case_eq_if)

subsection \<open>The server's loggers\<close>

definition prefixed :: "('b, 'w) slog_base \<Rightarrow> string list \<Rightarrow> 'b handler \<Rightarrow> 'b handler" where
  "prefixed ops ps h = fold (with_prefix ops) ps h"

definition prefix_text :: "string \<Rightarrow> string list \<Rightarrow> string" where
  "prefix_text p ps = join_with ''.'' (if p = [] then ps else p # ps)"

lemma prefixed_server:
  "\<forall>p \<in> set ps. p \<noteq> [] \<Longrightarrow> prefixed ops ps (Recorder (PrefixHandler (Base b) q)) = Recorder (PrefixHandler (Base b) (prefix_text q ps))"
proof (induction ps arbitrary: q)
  case Nil
  then show ?case by (simp add: prefixed_def prefix_text_def)
next
  case (Cons p ps)
  have "prefix_text (if q \<noteq> [] then q @ ''.'' @ p else p) ps = prefix_text q (p # ps)"
    using Cons.prems by (cases ps) (simp_all add: prefix_text_def)
  with Cons.IH [of "if q \<noteq> [] then q @ ''.'' @ p else p"] Cons.prems show ?case
    by (simp add: prefixed_def with_prefix_def logger_with_def Let_def)
qed

lemma server_logger_eq: "server_logger text_handler debug = Recorder (PrefixHandler (Base (text_handler (if debug then - 4 else 0))) [])"
  by (simp add: server_logger_def setup_logger_def new_prefix_handler_def Let_def)

subsection \<open>Properties\<close>

text \<open>A logger of the server, with any prefixes, that is enabled for a record's level appends exactly one
  entry to the stream of logs, with the bare message and the level's name, and hands the record to
  the library's handler with the prefixes, joined by dots, before its message; otherwise it does nothing. The
  attributes of the entry are those at the leaves of the record's groups; of equal keys the last wins.\<close>

theorem server_logger_logs:
  assumes "\<forall>p \<in> set ps. p \<noteq> []"
  shows "logger_log ops millis (prefixed ops ps (server_logger text_handler debug)) rec (st, w) =
    (let b = text_handler (if debug then - 4 else 0);
         msg = (if ps = [] then lr_message rec else join_with ''.'' ps @ '': '' @ lr_message rec)
     in if sb_enabled ops b (lr_level rec)
        then map_sum (\<lambda>p. p) (\<lambda>(st', calls). (st', snd (sb_handle ops b (rec\<lparr>lr_message := msg\<rparr>) w)))
               (stream_append entry_set_cursor (\<lambda>ls. ls) millis st (new_entry rec))
        else Inr (st, w))
    \<and> (case le_attrs (new_entry rec) of
         None \<Rightarrow> lr_attrs rec = []
       | Some m \<Rightarrow> lr_attrs rec \<noteq> [] \<and> (\<forall>k. gm_get m k = map_of (rev (attrs_leaves (lr_attrs rec))) k))"
proof
  have h: "prefixed ops ps (server_logger text_handler debug)
      = Recorder (PrefixHandler (Base (text_handler (if debug then - 4 else 0))) (join_with ''.'' ps))"
    using prefixed_server [OF assms, of ops "text_handler (if debug then - 4 else 0)" "[]"]
    by (simp add: server_logger_eq prefix_text_def)
  have ne: "join_with ''.'' ps = [] \<longleftrightarrow> ps = []"
    using assms by (cases ps; cases "tl ps") auto
  show "logger_log ops millis (prefixed ops ps (server_logger text_handler debug)) rec (st, w) =
    (let b = text_handler (if debug then - 4 else 0);
         msg = (if ps = [] then lr_message rec else join_with ''.'' ps @ '': '' @ lr_message rec)
     in if sb_enabled ops b (lr_level rec)
        then map_sum (\<lambda>p. p) (\<lambda>(st', calls). (st', snd (sb_handle ops b (rec\<lparr>lr_message := msg\<rparr>) w)))
               (stream_append entry_set_cursor (\<lambda>ls. ls) millis st (new_entry rec))
        else Inr (st, w))"
    unfolding h by (simp add: logger_log_def record_entry_def prefix_message_def ne Let_def split: sum.split prod.split)
  show "case le_attrs (new_entry rec) of None \<Rightarrow> lr_attrs rec = []
       | Some m \<Rightarrow> lr_attrs rec \<noteq> [] \<and> (\<forall>k. gm_get m k = map_of (rev (attrs_leaves (lr_attrs rec))) k)"
    using new_entry_attrs(2,3) [of rec] by (cases "lr_attrs rec = []") auto
qed

text \<open>\<open>Logger.With\<close> has no effect on a logger of the server but for a prefix: the attributes it is
  given, such as the file name of \<open>initDNSStore\<close>, appear neither in the text output nor in the stream of logs.\<close>

theorem logger_with_drops_attrs:
  assumes "\<forall>p \<in> set ps. p \<noteq> []" and "case attrs of [a] \<Rightarrow> fst a \<noteq> prefix_key | _ \<Rightarrow> True"
  shows "logger_with ops attrs (prefixed ops ps (server_logger text_handler debug)) = prefixed ops ps (server_logger text_handler debug)"
  unfolding server_logger_eq prefixed_server [OF assms(1)]
  using assms(2) by (cases attrs rule: remdups_adj.cases) (simp_all add: logger_with_def)

text \<open>A library handler that keeps the attributes it is given and writes them with each record.\<close>

definition sample_base :: "((int \<times> log_attr list), (log_attr list \<times> log_record) list) slog_base" where
  "sample_base = \<lparr>sb_enabled = (\<lambda>(min_level, attrs) level. min_level \<le> level),
     sb_handle = (\<lambda>(min_level, attrs) rec out. (None, out @ [(attrs, rec)])),
     sb_with_attrs = (\<lambda>(min_level, attrs) as. (min_level, attrs @ as)), sb_with_group = (\<lambda>b name. b)\<rparr>"

definition sample_log_record :: log_record where
  "sample_log_record = \<lparr>lr_time = 5, lr_level = 0, lr_message = ''saving ...'', lr_attrs = []\<rparr>"

theorem server_logger_logs_witness:
  "\<exists>s0 st'. new_buffered_stream (new_entry sample_log_record) 3 = Inr (s0 :: (log_entry, string) buffered)
     \<and> logger_log sample_base 7 (prefixed sample_base [''http'', ''ws''] (server_logger (\<lambda>l. (l, [])) False)) sample_log_record (s0, [])
         = Inr (st', [([], sample_log_record\<lparr>lr_message := ''http.ws: saving ...''\<rparr>)])"
proof -
  obtain s0 :: "(log_entry, string) buffered" where s0: "new_buffered_stream (new_entry sample_log_record) 3 = Inr s0"
    by (simp add: new_buffered_stream_def new_ring_buf_def)
  obtain st' calls where a: "stream_append entry_set_cursor (\<lambda>ls. ls) 7 s0 (new_entry sample_log_record) = Inr (st', calls)"
    using s0 by (auto simp: new_buffered_stream_def new_ring_buf_def stream_append_def rb_add_def rb_cap_def Let_def)
  have ne: "\<forall>p \<in> set [''http'', ''ws'']. p \<noteq> []" by simp
  note l = conjunct1 [OF server_logger_logs [OF ne, where ops = sample_base and millis = 7 and text_handler = "\<lambda>l. (l, [])"
      and debug = False and rec = sample_log_record and st = s0 and w = "[]"]]
  have "logger_log sample_base 7 (prefixed sample_base [''http'', ''ws''] (server_logger (\<lambda>l. (l, [])) False)) sample_log_record (s0, [])
         = Inr (st', [([], sample_log_record\<lparr>lr_message := ''http.ws: saving ...''\<rparr>)])"
    unfolding l using a by (simp add: sample_base_def sample_log_record_def Let_def)
  with s0 show ?thesis by blast
qed

theorem logger_with_drops_attrs_witness:
  "logger_with sample_base [(''file'', LText ''dump.json'')] (prefixed sample_base [''dns_store''] (server_logger (\<lambda>l. (l, [])) False))
     = prefixed sample_base [''dns_store''] (server_logger (\<lambda>l. (l, [])) False)"
  by (rule logger_with_drops_attrs) (simp_all add: prefix_key_def)

end
