(* ===== verification/NetIP.thy ===== *)
theory NetIP
  imports Strconv
begin

text \<open>
  Package \<open>net\<close> of Go's standard library as \<open>types.go\<close> calls it: \<open>net.ParseIP\<close> (that is,
  \<open>netip.ParseAddr\<close> without a zone), \<open>IP.To4\<close> and \<open>IP.String\<close> of a four-byte address. An
  \<open>net.IP\<close> is a list of bytes, nil the empty list.
\<close>

type_synonym net_ip = "u8 list"

definition ip_to4 :: "net_ip \<Rightarrow> net_ip" where
  "ip_to4 ip =
     (if length ip = 4 then ip
      else if length ip = 16 \<and> take 12 ip = replicate 10 0 @ [255, 255] then drop 12 ip
      else [])"

subsection \<open>Dotted decimal\<close>

text \<open>
  The loop of \<open>parseIPv4Fields\<close>: \<open>sep\<close> says that no digit of the current field was read yet,
  \<open>fs\<close> holds the fields that are complete.
\<close>

fun ipv4_fields :: "string \<Rightarrow> bool \<Rightarrow> nat \<Rightarrow> nat \<Rightarrow> nat list \<Rightarrow> nat list option" where
  "ipv4_fields [] sep val digs fs = (if length fs < 3 then None else Some (fs @ [val]))"
| "ipv4_fields (c # s) sep val digs fs =
     (case digit_value c of
        None \<Rightarrow>
          if c = CHR ''.'' then
            if sep \<or> s = [] then None
            else if length fs = 3 then None
            else ipv4_fields s True 0 0 (fs @ [val])
          else None
      | Some d \<Rightarrow>
          if 10 \<le> d then None
          else if digs = 1 \<and> val = 0 then None
          else if 255 < val * 10 + d then None
          else ipv4_fields s False (val * 10 + d) (digs + 1) fs)"

definition parse_ipv4_fields :: "string \<Rightarrow> u8 list option" where
  "parse_ipv4_fields s = map_option (map of_nat) (ipv4_fields s True 0 0 [])"

subsection \<open>IPv6 texts\<close>

fun hex_run :: "string \<Rightarrow> nat \<Rightarrow> nat \<Rightarrow> (nat \<times> nat \<times> string) option" where
  "hex_run [] off acc = Some (off, acc, [])"
| "hex_run (c # s) off acc =
     (case digit_value c of
        Some d \<Rightarrow>
          if d < 16 then if 3 < off then None else hex_run s (off + 1) (acc * 16 + d)
          else Some (off, acc, c # s)
      | None \<Rightarrow> Some (off, acc, c # s))"

text \<open>The loop of \<open>parseIPv6\<close> over at most eight groups: the text left, the bytes so far and the
  place of the ellipsis.\<close>

fun ipv6_groups :: "nat \<Rightarrow> string \<Rightarrow> u8 list \<Rightarrow> nat option \<Rightarrow> (string \<times> u8 list \<times> nat option) option" where
  "ipv6_groups 0 s ip ell = Some (s, ip, ell)"
| "ipv6_groups (Suc n) s ip ell =
     (case hex_run s 0 0 of
        None \<Rightarrow> None
      | Some (off, acc, rest) \<Rightarrow>
          if off = 0 then None
          else if rest \<noteq> [] \<and> hd rest = CHR ''.'' then
            if ell = None \<and> length ip \<noteq> 12 then None
            else if 16 < length ip + 4 then None
            else (case parse_ipv4_fields s of None \<Rightarrow> None | Some fs \<Rightarrow> Some ([], ip @ fs, ell))
          else
            let ip' = ip @ [of_nat (acc div 256), of_nat acc] in
            if rest = [] then Some ([], ip', ell)
            else if hd rest \<noteq> CHR '':'' \<or> length rest = 1 then None
            else if hd (tl rest) = CHR '':'' then
              if ell \<noteq> None then None
              else if tl (tl rest) = [] then Some ([], ip', Some (length ip'))
              else ipv6_groups n (tl (tl rest)) ip' (Some (length ip'))
            else ipv6_groups n (tl rest) ip' ell)"

definition parse_ipv6 :: "string \<Rightarrow> net_ip" where
  "parse_ipv6 s =
     (let lead = has_prefix s ''::'';
          s1 = (if lead then drop 2 s else s)
      in if lead \<and> s1 = [] then replicate 16 0
         else (case ipv6_groups 8 s1 [] (if lead then Some 0 else None) of
                 None \<Rightarrow> []
               | Some (rest, ip, ell) \<Rightarrow>
                   if rest \<noteq> [] then []
                   else if length ip < 16 then
                     (case ell of None \<Rightarrow> []
                      | Some e \<Rightarrow> take e ip @ replicate (16 - length ip) 0 @ drop e ip)
                   else if ell \<noteq> None then [] else ip))"

text \<open>A text with a zone (\<open>%\<close>) is never a \<open>net.IP\<close>. The first dot or colon decides the family.\<close>

fun first_ip_sep :: "string \<Rightarrow> char option" where
  "first_ip_sep [] = None"
| "first_ip_sep (c # s) = (if c \<in> {CHR ''.'', CHR '':'', CHR ''%''} then Some c else first_ip_sep s)"

definition parse_ip :: "string \<Rightarrow> net_ip" where
  "parse_ip s =
     (if first_ip_sep s = Some CHR ''.'' then
        (case parse_ipv4_fields s of None \<Rightarrow> [] | Some fs \<Rightarrow> replicate 10 0 @ [255, 255] @ fs)
      else if first_ip_sep s = Some CHR '':'' then
        (if CHR ''%'' \<in> set s then [] else parse_ipv6 s)
      else [])"

definition dotted :: "u8 \<Rightarrow> u8 \<Rightarrow> u8 \<Rightarrow> u8 \<Rightarrow> string" where
  "dotted a b c d = join_with ''.'' [itoa (unat a), itoa (unat b), itoa (unat c), itoa (unat d)]"

subsection \<open>Reading back a dotted address\<close>

lemma digit_value_dot [simp]: "digit_value CHR ''.'' = None"
  by (simp add: digit_value_def)

lemma format_uint_small: "n < 10 \<Longrightarrow> format_uint 10 n = [digit_char n]"
  by (simp add: format_uint.simps)

lemma format_uint_step: "10 \<le> n \<Longrightarrow> format_uint 10 n = format_uint 10 (n div 10) @ [digit_char (n mod 10)]"
  by (simp add: format_uint.simps [of 10 n])

lemma itoa_1: "n < 10 \<Longrightarrow> itoa n = [digit_char n]"
  by (simp add: itoa_def format_uint_small)

lemma itoa_2: "10 \<le> n \<Longrightarrow> n < 100 \<Longrightarrow> itoa n = [digit_char (n div 10), digit_char (n mod 10)]"
  by (simp add: itoa_def format_uint_small format_uint_step)

lemma itoa_3:
  assumes "100 \<le> n" and "n < 1000"
  shows "itoa n = [digit_char (n div 100), digit_char (n div 10 mod 10), digit_char (n mod 10)]"
proof -
  have "10 \<le> n div 10" "n div 10 div 10 < 10" "n div 10 div 10 = n div 100" using assms by auto
  with assms show ?thesis by (simp add: itoa_def format_uint_small format_uint_step)
qed

lemma not_10_le_mod [simp]: "\<not> 10 \<le> n mod (10::nat)"
  by (simp add: not_le)

lemma ipv4_fields_byte:
  assumes "n < 256"
  shows "ipv4_fields (itoa n @ s) sep 0 0 fs = ipv4_fields s False n (length (itoa n)) fs"
proof -
  consider "n < 10" | "10 \<le> n" "n < 100" | "100 \<le> n" by linarith
  then show ?thesis
  proof cases
    case 1
    then show ?thesis by (simp add: itoa_1)
  next
    case 2
    then have "n div 10 * 10 + n mod 10 = n" "0 < n div 10" "n div 10 < 10" by auto
    with 2 assms show ?thesis by (simp add: itoa_2)
  next
    case 3
    have "n div 100 * 10 + n div 10 mod 10 = n div 10" "n div 10 * 10 + n mod 10 = n"
      using div_mult_mod_eq [of "n div 10" 10] by (simp_all add: div_mult2_eq [symmetric])
    moreover have "0 < n div 100" "n div 100 < 10" "n div 10 \<le> 255" using 3 assms by auto
    ultimately show ?thesis using 3 assms by (simp add: itoa_3)
  qed
qed

lemma ipv4_fields_dotted:
  "ipv4_fields (dotted a b c d) True 0 0 [] = Some [unat a, unat b, unat c, unat d]"
proof -
  have byte: "unat w < 256" for w :: u8 using unsigned_less [of w] by simp
  have ne: "itoa n @ s \<noteq> []" "itoa n \<noteq> []" for n s by (simp_all add: itoa_def)
  have "ipv4_fields (itoa (unat d)) True 0 0 fs = ipv4_fields [] False (unat d) (length (itoa (unat d))) fs" for fs
    using ipv4_fields_byte [OF byte, of d "[]"] by simp
  then show ?thesis by (simp add: dotted_def ipv4_fields_byte byte ne)
qed

lemma parse_ipv4_fields_dotted: "parse_ipv4_fields (dotted a b c d) = Some [a, b, c, d]"
  by (simp add: parse_ipv4_fields_def ipv4_fields_dotted)

lemma first_ip_sep_append:
  "\<forall>x \<in> set s. x \<notin> {CHR ''.'', CHR '':'', CHR ''%''} \<Longrightarrow> first_ip_sep (s @ t) = first_ip_sep t"
  by (induction s) auto

lemma itoa_not_sep: "x \<in> set (itoa n) \<Longrightarrow> x \<notin> {CHR ''.'', CHR '':'', CHR ''%'', CHR ''/'', CHR '' '', CHR ''-'', CHR ''+''}"
  using itoa_no_char [of x n] by auto

lemma parse_ip_dotted: "parse_ip (dotted a b c d) = replicate 10 0 @ [255, 255, a, b, c, d]"
proof -
  have "first_ip_sep (dotted a b c d) = Some CHR ''.''"
    using itoa_not_sep by (simp add: dotted_def first_ip_sep_append)
  then show ?thesis by (simp add: parse_ip_def parse_ipv4_fields_dotted)
qed

lemma dotted_no_slash: "CHR ''/'' \<notin> set (dotted a b c d)"
  using itoa_not_sep [of "CHR ''/''"] by (auto simp: dotted_def)

lemma ip_to4_mapped [simp]: "ip_to4 (replicate 10 0 @ [255, 255, a, b, c, d]) = [a, b, c, d]"
  by (simp add: ip_to4_def numeral_eq_Suc)

end
