(* ===== verification/IPv4.thy ===== *)
theory IPv4
  imports NetIP "HOL-Library.List_Lexorder"
begin

text \<open>
  \<open>dns-server/internal/types.go\<close>: the five-byte address with prefix, its text form and its
  order, DNS records and their expiry, the entries of the two query histories, and routes.
\<close>

subsection \<open>Addresses\<close>

datatype ipv4 = IPv4 (ip_b0: u8) (ip_b1: u8) (ip_b2: u8) (ip_b3: u8) (ip_prefix: u8)

definition ip_bytes :: "ipv4 \<Rightarrow> u8 list" where
  "ip_bytes ip = [ip_b0 ip, ip_b1 ip, ip_b2 ip, ip_b3 ip, ip_prefix ip]"

lemma ip_bytes_inject: "ip_bytes a = ip_bytes b \<longleftrightarrow> a = b"
  by (cases a; cases b) (simp add: ip_bytes_def)

text \<open>The order \<open>bytes.Compare\<close> puts on the five bytes.\<close>

instantiation ipv4 :: linorder
begin

definition less_eq_ipv4 :: "ipv4 \<Rightarrow> ipv4 \<Rightarrow> bool" where
  "a \<le> b \<longleftrightarrow> ip_bytes a \<le> ip_bytes b"

definition less_ipv4 :: "ipv4 \<Rightarrow> ipv4 \<Rightarrow> bool" where
  "a < b \<longleftrightarrow> ip_bytes a < ip_bytes b"

instance
  by standard (auto simp: less_eq_ipv4_def less_ipv4_def ip_bytes_inject order.strict_iff_not)

end

definition new_ipv4_prefix :: "net_ip \<Rightarrow> int \<Rightarrow> ipv4 panicking" where
  "new_ipv4_prefix ip prefix =
     (case ip_to4 ip of
        [a, b, c, d] \<Rightarrow>
          if prefix < 0 \<or> 32 < prefix then Inl InvalidPrefix
          else Inr (IPv4 a b c d (of_int prefix))
      | _ \<Rightarrow> Inl InvalidIPv4Address)"

definition new_ipv4 :: "net_ip \<Rightarrow> ipv4 panicking" where
  "new_ipv4 ip = new_ipv4_prefix (ip_to4 ip) 32"

text \<open>\<open>ParseIPv4\<close> returns an error only for a prefix that is not a number; \<open>newIPv4\<close> panics on the rest.\<close>

definition parse_ipv4 :: "string \<Rightarrow> (num_error + ipv4) panicking" where
  "parse_ipv4 s =
     (case index_byte s CHR ''/'' of
        None \<Rightarrow> map_sum (\<lambda>p. p) Inr (new_ipv4_prefix (parse_ip s) 32)
      | Some p \<Rightarrow>
          let ip = parse_ip (take p s) in
          (case atoi (drop (p + 1) s) of
             (_, Some err) \<Rightarrow> Inr (Inl err)
           | (n, None) \<Rightarrow> map_sum (\<lambda>p. p) Inr (new_ipv4_prefix ip n)))"

definition has_ip_prefix :: "ipv4 \<Rightarrow> bool" where
  "has_ip_prefix ip \<longleftrightarrow> ip_prefix ip < 32"

definition prefix_of :: "ipv4 \<Rightarrow> int" where
  "prefix_of ip = uint (ip_prefix ip)"

definition ipv4_string :: "ipv4 \<Rightarrow> string" where
  "ipv4_string ip =
     (let addr = dotted (ip_b0 ip) (ip_b1 ip) (ip_b2 ip) (ip_b3 ip) in
      if ip_prefix ip = 32 then addr else addr @ ''/'' @ itoa (unat (ip_prefix ip)))"

definition ipv4_marshal :: "ipv4 \<Rightarrow> string" where
  "ipv4_marshal ip = ipv4_string ip"

text \<open>\<open>UnmarshalText\<close> assigns what \<open>ParseIPv4\<close> returns: the zero address beside an error.\<close>

definition zero_ipv4 :: ipv4 where
  "zero_ipv4 = IPv4 0 0 0 0 0"

definition ipv4_unmarshal :: "string \<Rightarrow> (ipv4 \<times> num_error option) panicking" where
  "ipv4_unmarshal b =
     (case parse_ipv4 b of
        Inl p \<Rightarrow> Inl p
      | Inr (Inl err) \<Rightarrow> Inr (zero_ipv4, Some err)
      | Inr (Inr ip) \<Rightarrow> Inr (ip, None))"

definition ipv4_ok :: "ipv4 \<Rightarrow> bool" where
  "ipv4_ok ip \<longleftrightarrow> ip_prefix ip \<le> 32"

subsection \<open>DNS records\<close>

record dns_record_key =
  rec_ip :: ipv4
  rec_domain :: string

record dns_record = dns_record_key +
  rec_expires :: instant

definition new_dns_record :: "string \<Rightarrow> ipv4 \<Rightarrow> instant \<Rightarrow> dns_record" where
  "new_dns_record domain ip expires = \<lparr>rec_ip = ip, rec_domain = domain, rec_expires = expires\<rparr>"

text \<open>\<open>now\<close> is the reading of \<open>time.Now ()\<close>; \<open>TTL\<close> reads the clock twice.\<close>

definition rec_expired :: "instant \<Rightarrow> dns_record \<Rightarrow> duration \<Rightarrow> bool" where
  "rec_expired now r extra_ttl =
     (if rec_expires r = 0 then False else time_after now (rec_expires r + extra_ttl))"

definition rec_ttl :: "instant \<Rightarrow> instant \<Rightarrow> dns_record \<Rightarrow> duration" where
  "rec_ttl now now2 r =
     (if rec_expired now r 0 then 0 else trunc_dur (time_sub (rec_expires r) now2) second)"

subsection \<open>Query histories and routes\<close>

record dns_query =
  dq_cursor :: u64
  dq_time :: instant
  dq_client_addr :: string
  dq_domain :: string
  dq_ttl :: u32
  dq_ips :: "ipv4 list"
  dq_routed :: "string list"

definition dns_query_set_cursor :: "u64 \<Rightarrow> dns_query \<Rightarrow> dns_query" where
  "dns_query_set_cursor c q = q\<lparr>dq_cursor := c\<rparr>"

record dns_raw_query =
  rq_cursor :: u64
  rq_time :: instant
  rq_client_addr :: string
  rq_response :: bool
  rq_text :: string

definition dns_raw_query_set_cursor :: "u64 \<Rightarrow> dns_raw_query \<Rightarrow> dns_raw_query" where
  "dns_raw_query_set_cursor c q = q\<lparr>rq_cursor := c\<rparr>"

record ip_route =
  rt_table :: int
  rt_iface :: string
  rt_addr :: ipv4

record ip_route_dns = ip_route +
  rt_records :: "dns_record list"

record ip_routing_rule =
  rule_table :: int
  rule_iif :: string
  rule_priority :: int

subsection \<open>Text and bytes of an address\<close>

lemma ip_to4_idem [simp]: "ip_to4 (ip_to4 ip) = ip_to4 ip"
  by (simp add: ip_to4_def)

lemma ip_to4_length: "ip_to4 ip = [] \<or> length (ip_to4 ip) = 4"
  by (simp add: ip_to4_def)

lemma new_ipv4_prefix_ok: "new_ipv4_prefix ip n = Inr r \<Longrightarrow> ipv4_ok r \<and> 0 \<le> n \<and> n \<le> 32 \<and> prefix_of r = n"
proof -
  assume "new_ipv4_prefix ip n = Inr r"
  then obtain a b c d where r: "r = IPv4 a b c d (of_int n)" and n: "0 \<le> n" "n \<le> 32"
    by (auto simp: new_ipv4_prefix_def split: list.splits if_splits)
  have "uint (of_int n :: u8) = n" using n by (simp add: uint_word_of_int_eq take_bit_int_eq_self)
  with r n show ?thesis by (simp add: ipv4_ok_def prefix_of_def word_le_def)
qed

lemma unat_prefix: "ipv4_ok ip \<Longrightarrow> unat (ip_prefix ip) \<le> 32"
  by (simp add: ipv4_ok_def word_le_nat_alt)

lemma new_ipv4_prefix_4:
  "ip_to4 x = [a, b, c, d] \<Longrightarrow> 0 \<le> n \<Longrightarrow> n \<le> 32 \<Longrightarrow> new_ipv4_prefix x n = Inr (IPv4 a b c d (of_int n))"
  by (simp add: new_ipv4_prefix_def)

lemma parse_ipv4_string:
  assumes "ipv4_ok ip"
  shows "parse_ipv4 (ipv4_string ip) = Inr (Inr ip)"
proof -
  obtain a b c d p where ip: "ip = IPv4 a b c d p" by (cases ip)
  have to4: "ip_to4 (parse_ip (dotted a b c d)) = [a, b, c, d]"
    by (simp add: parse_ip_dotted del: replicate.simps)
  show ?thesis
  proof (cases "p = 32")
    case True
    have "index_byte (dotted a b c d) CHR ''/'' = None"
      by (simp add: index_byte_None_iff dotted_no_slash)
    with True show ?thesis
      by (simp add: parse_ipv4_def ipv4_string_def ip new_ipv4_prefix_4 [OF to4])
  next
    case False
    have "uint p \<le> 32" using assms by (simp add: ip ipv4_ok_def word_le_def)
    moreover have "unat p \<le> 32" using unat_prefix [OF assms] by (simp add: ip)
    moreover have "index_byte (dotted a b c d @ CHR ''/'' # itoa (unat p)) CHR ''/'' = Some (length (dotted a b c d))"
      by (rule index_byte_append [OF dotted_no_slash])
    ultimately show ?thesis using False
      by (simp add: parse_ipv4_def ipv4_string_def ip atoi_itoa new_ipv4_prefix_4 [OF to4])
  qed
qed

subsection \<open>Properties\<close>

lemmas parse_ipv4_eval =
  parse_ipv4_def parse_ip_def parse_ipv4_fields_def digit_value_def new_ipv4_prefix_def ip_to4_def
  atoi_def parse_uint_def

text \<open>C25: every address with a prefix of at most 32 is read back from its text exactly, with
  and without the prefix suffix, through \<open>String\<close>, \<open>MarshalText\<close> and \<open>UnmarshalText\<close>.\<close>

theorem ipv4_text_roundtrip:
  assumes "ip_prefix ip \<le> 32"
  shows "parse_ipv4 (ipv4_string ip) = Inr (Inr ip) \<and> ipv4_unmarshal (ipv4_marshal ip) = Inr (ip, None)"
  using parse_ipv4_string [of ip] assms by (simp add: ipv4_ok_def ipv4_unmarshal_def ipv4_marshal_def)

theorem ipv4_text_roundtrip_witness:
  "ip_prefix (IPv4 10 20 0 0 16) \<le> 32 \<and> parse_ipv4 (ipv4_string (IPv4 10 20 0 0 16)) = Inr (Inr (IPv4 10 20 0 0 16))"
  using ipv4_text_roundtrip [of "IPv4 10 20 0 0 16"] by simp

text \<open>C26: whatever \<open>ParseIPv4\<close> returns without an error has a prefix between 0 and 32, and the
  text round trip applies to it: parsing its text gives it back.\<close>

theorem parse_ipv4_normalises:
  assumes "parse_ipv4 s = Inr (Inr ip)"
  shows "ip_prefix ip \<le> 32 \<and> parse_ipv4 (ipv4_string ip) = Inr (Inr ip)"
proof -
  have "\<exists>x n. new_ipv4_prefix x n = Inr ip"
    using assms by (auto simp: parse_ipv4_def Let_def map_sum_def split: option.splits prod.splits sum.splits)
  then have "ipv4_ok ip" using new_ipv4_prefix_ok by blast
  then show ?thesis using parse_ipv4_string by (simp add: ipv4_ok_def)
qed

theorem parse_ipv4_normalises_witness:
  "parse_ipv4 ''10.1.2.3/08'' = Inr (Inr (IPv4 10 1 2 3 8))
   \<and> parse_ipv4 (ipv4_string (IPv4 10 1 2 3 8)) = Inr (Inr (IPv4 10 1 2 3 8))"
proof -
  have p: "parse_ipv4 ''10.1.2.3/08'' = Inr (Inr (IPv4 10 1 2 3 8))"
    by (simp add: parse_ipv4_eval)
  then show ?thesis using parse_ipv4_normalises [OF p] by simp
qed

text \<open>a text that is not an IPv4 address is not an error for \<open>ParseIPv4\<close>: it panics, also on
  \<open>default\<close>, the first word of a default route in the output of \<open>ip route list\<close>, and on a prefix
  above 32.\<close>

theorem parse_ipv4_panics:
  "parse_ipv4 ''default'' = Inl InvalidIPv4Address \<and> parse_ipv4 ''10.0.0.1/33'' = Inl InvalidPrefix
   \<and> parse_ipv4 ''10.0.0.1/x'' = Inr (Inl ErrSyntax)"
  by (simp add: parse_ipv4_eval)

text \<open>a record with a zero expiry time never expires, and yet its \<open>TTL\<close> is not infinite: the
  difference to the clock saturates and is minus 292 years.\<close>

theorem zero_expiry_ttl:
  assumes "rec_expires r = 0" and "2 ^ 63 \<le> now2"
  shows "\<not> rec_expired now r extra_ttl \<and> rec_ttl now now2 r = -9223372036000000000"
proof -
  have "time_sub 0 now2 = min_duration"
    using assms(2) by (simp add: time_sub_def min_duration_def max_duration_def)
  with assms(1) show ?thesis
    by (simp add: rec_ttl_def rec_expired_def trunc_dur_def min_duration_def second_def)
qed

theorem zero_expiry_ttl_witness:
  "rec_ttl (2 ^ 64) (2 ^ 64) (new_dns_record ''a.b'' (IPv4 1 2 3 4 32) 0) = -9223372036000000000"
  using zero_expiry_ttl [of "new_dns_record ''a.b'' (IPv4 1 2 3 4 32) 0" "2 ^ 64" "2 ^ 64" 0]
  by (simp add: new_dns_record_def)

lemma rec_expired_mono: "rec_expired now r x \<Longrightarrow> now \<le> now' \<Longrightarrow> rec_expired now' r x"
  by (auto simp: rec_expired_def time_after_def split: if_splits)

lemma rec_expired_extra: "rec_expired now r x \<Longrightarrow> y \<le> x \<Longrightarrow> rec_expired now r y"
  by (auto simp: rec_expired_def time_after_def split: if_splits)

end
