(* ===== verification/Expiry.thy ===== *)
theory Expiry
  imports Prelude
begin

text \<open>
  The contract of a store whose entries expire: \<open>get\<close> reads an entry, \<open>purge\<close> is the periodic
  clean-up at an instant, and an expired entry stays expired. \<open>choice\<close> stands for what the
  runtime and the caller choose for one clean-up (the orders of its ranges, an extra time to
  live). The DNS store and the DNS cache both provide it.
\<close>

locale expiring_store =
  fixes get :: "'s \<Rightarrow> 'k \<Rightarrow> 'v option"
    and purge :: "'c \<Rightarrow> instant \<Rightarrow> 's \<Rightarrow> 's"
    and expired :: "'c \<Rightarrow> instant \<Rightarrow> 'v \<Rightarrow> bool"
    and choice :: "'c \<Rightarrow> bool"
    and inv :: "'s \<Rightarrow> bool"
  assumes purge_inv: "choice c \<Longrightarrow> inv s \<Longrightarrow> inv (purge c now s)"
    and get_purge: "choice c \<Longrightarrow> inv s \<Longrightarrow> get (purge c now s) k =
          (case get s k of None \<Rightarrow> None | Some v \<Rightarrow> if expired c now v then None else Some v)"
    and expired_mono: "expired c now v \<Longrightarrow> now \<le> now' \<Longrightarrow> expired c now' v"
begin

lemma purge_keeps_live:
  "choice c \<Longrightarrow> inv s \<Longrightarrow> get s k = Some v \<Longrightarrow> \<not> expired c now v \<Longrightarrow> get (purge c now s) k = Some v"
  by (simp add: get_purge)

lemma purge_only_removes:
  "choice c \<Longrightarrow> inv s \<Longrightarrow> get (purge c now s) k = Some v \<Longrightarrow> get s k = Some v \<and> \<not> expired c now v"
  by (simp add: get_purge split: option.splits if_splits)

lemma later_purge_absorbs:
  assumes "choice c" and "inv s" and "now \<le> now'"
  shows "get (purge c now' (purge c now s)) k = get (purge c now' s) k"
  using assms by (auto simp: get_purge purge_inv split: option.splits dest: expired_mono)

lemma purge_twice: "choice c \<Longrightarrow> inv s \<Longrightarrow> get (purge c now (purge c now s)) k = get (purge c now s) k"
  by (rule later_purge_absorbs) simp_all

end

end
