(* ===== verification/DNSStore.thy ===== *)
theory DNSStore
  imports IPv4 Expiry
begin

text \<open>
  \<open>dns-server/internal/dns_store.go\<close>: the store of resolved records with its two indexes, each a
  \<open>MultiMap\<close> (a map of maps that drops an inner map with its last entry). Every exported method
  holds the mutex for its whole body, so each is one atomic step on the record below.
\<close>

subsection \<open>MultiMap\<close>

type_synonym ('a, 'b, 'v) multi_map = "('a, ('b, 'v) gomap) gomap"

definition mm_set :: "('a, 'b, 'v) multi_map \<Rightarrow> 'a \<Rightarrow> 'b \<Rightarrow> 'v \<Rightarrow> ('a, 'b, 'v) multi_map" where
  "mm_set m k1 k2 v =
     (case gm_get m k1 of
        Some m2 \<Rightarrow> gm_set m k1 (gm_set m2 k2 v)
      | None \<Rightarrow> gm_set m k1 [(k2, v)])"

definition mm_remove :: "('a, 'b, 'v) multi_map \<Rightarrow> 'a \<Rightarrow> 'b \<Rightarrow> ('a, 'b, 'v) multi_map" where
  "mm_remove m k1 k2 =
     (case gm_get m k1 of
        Some m2 \<Rightarrow>
          if gm_has m2 k2 then
            if length m2 = 1 then gm_delete m k1 else gm_set m k1 (gm_delete m2 k2)
          else m
      | None \<Rightarrow> m)"

definition mm_get :: "('a, 'b, 'v) multi_map \<Rightarrow> 'a \<Rightarrow> 'b \<Rightarrow> 'v option" where
  "mm_get m k1 k2 = (case gm_get m k1 of None \<Rightarrow> None | Some m2 \<Rightarrow> gm_get m2 k2)"

definition mm_inv :: "('a, 'b, 'v) multi_map \<Rightarrow> bool" where
  "mm_inv m \<longleftrightarrow> gm_ok m \<and> (\<forall>k m2. gm_get m k = Some m2 \<longrightarrow> gm_ok m2 \<and> m2 \<noteq> [])"

subsection \<open>The contract of a two-key map\<close>

locale two_key_map =
  fixes put :: "'m \<Rightarrow> 'a \<Rightarrow> 'b \<Rightarrow> 'v \<Rightarrow> 'm"
    and remove :: "'m \<Rightarrow> 'a \<Rightarrow> 'b \<Rightarrow> 'm"
    and get :: "'m \<Rightarrow> 'a \<Rightarrow> 'b \<Rightarrow> 'v option"
    and inv :: "'m \<Rightarrow> bool"
  assumes put_inv: "inv m \<Longrightarrow> inv (put m a b v)"
    and remove_inv: "inv m \<Longrightarrow> inv (remove m a b)"
    and get_put: "inv m \<Longrightarrow> get (put m a b v) a' b' = (if a' = a \<and> b' = b then Some v else get m a' b')"
    and get_remove: "inv m \<Longrightarrow> get (remove m a b) a' b' = (if a' = a \<and> b' = b then None else get m a' b')"
begin

lemma put_all_inv: "inv m \<Longrightarrow> inv (fold (\<lambda>(a, b, v) m. put m a b v) xs m)"
  by (induction xs arbitrary: m) (auto intro: put_inv)

lemma get_put_twice:
  "inv m \<Longrightarrow> get (put (put m a b v) a b w) a' b' = get (put m a b w) a' b'"
  by (simp add: get_put put_inv)

lemma get_remove_put: "inv m \<Longrightarrow> get m a b = None \<Longrightarrow> get (remove (put m a b v) a b) a' b' = get m a' b'"
  by (auto simp: get_put get_remove put_inv)

end

lemma mm_invD:
  assumes "mm_inv m" and "gm_get m k = Some m2"
  shows "gm_ok m2" "m2 \<noteq> []"
  using assms by (auto simp: mm_inv_def)

lemma mm_set_inv: "mm_inv m \<Longrightarrow> mm_inv (mm_set m k1 k2 v)"
  by (auto simp: mm_inv_def mm_set_def split: option.splits if_splits)

lemma mm_remove_inv:
  assumes "mm_inv m"
  shows "mm_inv (mm_remove m k1 k2)"
proof (cases "gm_get m k1")
  case None
  with assms show ?thesis by (simp add: mm_remove_def)
next
  case (Some m2)
  have m2: "gm_ok m2" "m2 \<noteq> []" using mm_invD [OF assms Some] .
  have "gm_delete m2 k2 \<noteq> []" if "gm_has m2 k2" "length m2 \<noteq> 1"
  proof -
    have "length (gm_delete m2 k2) = length m2 - 1" by (rule gm_delete_length [OF m2(1) that(1)])
    with that(2) m2(2) show ?thesis by (cases m2) auto
  qed
  with assms m2 Some show ?thesis by (auto simp: mm_inv_def mm_remove_def split: if_splits)
qed

lemma mm_get_Some: "mm_get m a b = Some v \<longleftrightarrow> (\<exists>m2. gm_get m a = Some m2 \<and> gm_get m2 b = Some v)"
  by (auto simp: mm_get_def split: option.splits)

lemma mm_get_set: "mm_get (mm_set m k1 k2 v) k1' k2' = (if k1' = k1 \<and> k2' = k2 then Some v else mm_get m k1' k2')"
  by (auto simp: mm_set_def mm_get_def split: option.splits)

lemma mm_get_remove:
  assumes "mm_inv m"
  shows "mm_get (mm_remove m k1 k2) k1' k2' = (if k1' = k1 \<and> k2' = k2 then None else mm_get m k1' k2')"
proof (cases "gm_get m k1")
  case None
  then show ?thesis by (simp add: mm_remove_def mm_get_def)
next
  case (Some m2)
  have m2: "gm_ok m2" using mm_invD [OF assms Some] by simp
  show ?thesis
  proof (cases "gm_has m2 k2 \<and> length m2 = 1")
    case True
    then obtain v where "m2 = [(k2, v)]" using gm_length_1 [OF m2] by blast
    with Some show ?thesis by (simp add: mm_remove_def mm_get_def)
  next
    case False
    with Some show ?thesis by (auto simp: mm_remove_def mm_get_def)
  qed
qed

interpretation mm: two_key_map mm_set mm_remove mm_get mm_inv
  by unfold_locales (simp_all add: mm_set_inv mm_remove_inv mm_get_set mm_get_remove)

lemma mm_inv_Nil [simp, invar_intros]: "mm_inv []"
  by (simp add: mm_inv_def)

lemma mm_get_Nil [simp]: "mm_get [] a b = None"
  by (simp add: mm_get_def)

lemmas mm_rules [simp] = mm.put_inv mm.remove_inv mm.get_put mm.get_remove

subsection \<open>The store\<close>

record dns_store =
  by_domain :: "(string, ipv4, dns_record) multi_map"
  by_ip :: "(ipv4, string, dns_record) multi_map"

definition new_dns_store :: dns_store where
  "new_dns_store = \<lparr>by_domain = [], by_ip = []\<rparr>"

definition store_add :: "dns_store \<Rightarrow> dns_record \<Rightarrow> dns_store" where
  "store_add s r = s\<lparr>by_domain := mm_set (by_domain s) (rec_domain r) (rec_ip r) r,
                     by_ip := mm_set (by_ip s) (rec_ip r) (rec_domain r) r\<rparr>"

definition store_remove :: "dns_store \<Rightarrow> dns_record \<Rightarrow> dns_store" where
  "store_remove s r = s\<lparr>by_domain := mm_remove (by_domain s) (rec_domain r) (rec_ip r),
                        by_ip := mm_remove (by_ip s) (rec_ip r) (rec_domain r)\<rparr>"

definition store_fill :: "dns_store \<Rightarrow> dns_record list \<Rightarrow> dns_store" where
  "store_fill s records = fold (\<lambda>r s. store_add s r) records (s\<lparr>by_domain := [], by_ip := []\<rparr>)"

definition store_lookup_ip :: "(string \<times> dns_record) order \<Rightarrow> dns_store \<Rightarrow> ipv4 \<Rightarrow> dns_record list" where
  "store_lookup_ip ord s ip =
     (let recs = (case gm_get (by_ip s) ip of None \<Rightarrow> [] | Some m \<Rightarrow> m) in map snd (ord recs))"

text \<open>
  \<open>iterate\<close>: the two nested ranges, the outer in the order \<open>fst ord\<close>, each inner one in the
  order \<open>snd ord\<close>. \<open>RemoveExpired\<close> removes only the record it is looking at, which a range over a
  Go map allows, so it visits the records the store had at its start. The clock is read once
  per record: \<open>now r\<close>.
\<close>

type_synonym store_order =
  "(string \<times> (ipv4, dns_record) gomap) order \<times> (ipv4 \<times> dns_record) order"

definition store_iterate :: "store_order \<Rightarrow> dns_store \<Rightarrow> dns_record list" where
  "store_iterate ord s =
     concat (map (\<lambda>(d, records). map snd (snd ord records)) (fst ord (by_domain s)))"

definition store_remove_expired ::
  "store_order \<Rightarrow> (dns_record \<Rightarrow> instant) \<Rightarrow> dns_store \<Rightarrow> duration \<Rightarrow> dns_store"
where
  "store_remove_expired ord now s extra_ttl =
     fold (\<lambda>r s. if rec_expired (now r) r extra_ttl then store_remove s r else s)
       (store_iterate ord s) s"

definition store_records :: "store_order \<Rightarrow> dns_store \<Rightarrow> dns_record list" where
  "store_records ord s = store_iterate ord s"

subsection \<open>Invariant: the two indexes agree\<close>

definition store_get :: "dns_store \<Rightarrow> string \<Rightarrow> ipv4 \<Rightarrow> dns_record option" where
  "store_get s d ip = mm_get (by_domain s) d ip"

definition store_inv :: "dns_store \<Rightarrow> bool" where
  "store_inv s \<longleftrightarrow> mm_inv (by_domain s) \<and> mm_inv (by_ip s)
     \<and> (\<forall>d ip. mm_get (by_ip s) ip d = store_get s d ip)
     \<and> (\<forall>d ip r. store_get s d ip = Some r \<longrightarrow> rec_domain r = d \<and> rec_ip r = ip)"

definition store_order_ok :: "store_order \<Rightarrow> bool" where
  "store_order_ok ord \<longleftrightarrow> is_order (fst ord) \<and> is_order (snd ord)"

lemma store_invD:
  assumes "store_inv s"
  shows "mm_inv (by_domain s)" "mm_inv (by_ip s)" "mm_get (by_ip s) ip d = store_get s d ip"
    "store_get s d ip = Some r \<Longrightarrow> rec_domain r = d \<and> rec_ip r = ip"
  using assms by (auto simp: store_inv_def)

lemma new_store_inv [simp, invar_intros]: "store_inv new_dns_store"
  by (simp add: store_inv_def new_dns_store_def store_get_def)

lemma store_get_add:
  "store_inv s \<Longrightarrow> store_get (store_add s r) d ip =
     (if d = rec_domain r \<and> ip = rec_ip r then Some r else store_get s d ip)"
  by (auto simp: store_get_def store_add_def store_inv_def)

lemma store_get_remove:
  "store_inv s \<Longrightarrow> store_get (store_remove s r) d ip =
     (if d = rec_domain r \<and> ip = rec_ip r then None else store_get s d ip)"
  by (auto simp: store_get_def store_remove_def store_inv_def)

lemma store_add_inv [simp, invar_intros]: "store_inv s \<Longrightarrow> store_inv (store_add s r)"
  by (auto simp: store_inv_def store_get_def store_add_def)

lemma store_remove_inv [simp, invar_intros]: "store_inv s \<Longrightarrow> store_inv (store_remove s r)"
  by (auto simp: store_inv_def store_get_def store_remove_def split: if_splits)

lemma store_cleared: "s\<lparr>by_domain := [], by_ip := []\<rparr> = new_dns_store"
  by (cases s) (simp add: new_dns_store_def)

lemma store_add_all:
  "store_inv s \<Longrightarrow> store_inv (fold (\<lambda>r s. store_add s r) rs s)
     \<and> store_get (fold (\<lambda>r s. store_add s r) rs s) d ip =
         (case map_of (rev (map (\<lambda>r. ((rec_domain r, rec_ip r), r)) rs)) (d, ip) of
            None \<Rightarrow> store_get s d ip | Some r \<Rightarrow> Some r)"
  by (induction rs rule: rev_induct) (auto simp: store_get_add split: option.splits)

lemma store_fill_inv [simp, invar_intros]: "store_inv (store_fill s rs)"
  by (simp add: store_fill_def store_cleared store_add_all)

lemma store_get_new [simp]: "store_get new_dns_store d ip = None"
  by (simp add: store_get_def new_dns_store_def)

lemma store_get_fill:
  "store_get (store_fill s rs) d ip = map_of (rev (map (\<lambda>r. ((rec_domain r, rec_ip r), r)) rs)) (d, ip)"
  by (simp add: store_fill_def store_cleared store_add_all split: option.split)

lemma store_iterate_set:
  assumes inv: "store_inv s" and ord: "store_order_ok ord"
  shows "r \<in> set (store_iterate ord s) \<longleftrightarrow> store_get s (rec_domain r) (rec_ip r) = Some r"
proof -
  have mm: "mm_inv (by_domain s)" and ok: "gm_ok (by_domain s)"
    using inv by (auto simp: store_inv_def mm_inv_def)
  have "r \<in> set (store_iterate ord s) \<longleftrightarrow> (\<exists>d m2 ip. (d, m2) \<in> set (by_domain s) \<and> (ip, r) \<in> set m2)"
    using ord by (auto simp: store_iterate_def store_order_ok_def image_iff Bex_def)
  also have "\<dots> \<longleftrightarrow> (\<exists>d m2 ip. gm_get (by_domain s) d = Some m2 \<and> gm_get m2 ip = Some r)"
    using gm_get_eq_mem [OF ok] gm_get_eq_mem [OF mm_invD(1) [OF mm]] by metis
  also have "\<dots> \<longleftrightarrow> (\<exists>d ip. store_get s d ip = Some r)"
    by (simp only: store_get_def mm_get_Some) blast
  also have "\<dots> \<longleftrightarrow> store_get s (rec_domain r) (rec_ip r) = Some r"
    using store_invD(4) [OF inv] by blast
  finally show ?thesis .
qed

lemma store_lookup_ip_set:
  assumes "store_inv s" and "is_order ord"
  shows "r \<in> set (store_lookup_ip ord s ip) \<longleftrightarrow> store_get s (rec_domain r) ip = Some r"
proof -
  have mm: "mm_inv (by_ip s)" using assms(1) by (simp add: store_inv_def)
  have "r \<in> set (store_lookup_ip ord s ip) \<longleftrightarrow> (\<exists>d. mm_get (by_ip s) ip d = Some r)"
  proof (cases "gm_get (by_ip s) ip")
    case None
    with assms(2) show ?thesis by (simp add: store_lookup_ip_def mm_get_def)
  next
    case (Some m2)
    with assms(2) gm_get_eq_mem [OF mm_invD(1) [OF mm Some]] show ?thesis
      by (auto simp: store_lookup_ip_def mm_get_def image_iff Bex_def)
  qed
  also have "\<dots> \<longleftrightarrow> store_get s (rec_domain r) ip = Some r"
    using store_invD(3,4) [OF assms(1)] by metis
  finally show ?thesis .
qed

lemma store_remove_all:
  "store_inv s \<Longrightarrow>
   store_inv (fold (\<lambda>r s. if P r then store_remove s r else s) rs s)
   \<and> store_get (fold (\<lambda>r s. if P r then store_remove s r else s) rs s) d ip =
       (if \<exists>r \<in> set rs. P r \<and> rec_domain r = d \<and> rec_ip r = ip then None else store_get s d ip)"
  by (induction rs arbitrary: s) (auto simp: store_get_remove)

lemma store_get_remove_expired:
  assumes inv: "store_inv s" and ord: "store_order_ok ord"
  shows "store_inv (store_remove_expired ord now s x)"
    and "store_get (store_remove_expired ord now s x) d ip =
      (case store_get s d ip of None \<Rightarrow> None | Some r \<Rightarrow> if rec_expired (now r) r x then None else Some r)"
proof -
  show "store_inv (store_remove_expired ord now s x)"
    by (simp add: store_remove_expired_def store_remove_all inv)
  have "(\<exists>r \<in> set (store_iterate ord s). rec_expired (now r) r x \<and> rec_domain r = d \<and> rec_ip r = ip)
      \<longleftrightarrow> (\<exists>r. store_get s d ip = Some r \<and> rec_expired (now r) r x)"
    using store_iterate_set [OF inv ord] store_invD(4) [OF inv] by metis
  then show "store_get (store_remove_expired ord now s x) d ip =
      (case store_get s d ip of None \<Rightarrow> None | Some r \<Rightarrow> if rec_expired (now r) r x then None else Some r)"
    by (auto simp: store_remove_expired_def store_remove_all inv split: option.splits)
qed

interpretation store: expiring_store "\<lambda>s (d, ip). store_get s d ip"
  "\<lambda>c now s. store_remove_expired (fst c) (\<lambda>r. now) s (snd c)"
  "\<lambda>c now r. rec_expired now r (snd c)" "\<lambda>c. store_order_ok (fst c)" store_inv
  by unfold_locales (auto simp: store_get_remove_expired split: option.splits intro: rec_expired_mono)

subsection \<open>The abstract store: one map from domain and address to record\<close>

datatype store_op =
    OpAdd dns_record
  | OpRemove dns_record
  | OpFill "dns_record list"
  | OpRemoveExpired store_order "dns_record \<Rightarrow> instant" duration

fun store_step :: "store_op \<Rightarrow> dns_store \<Rightarrow> dns_store" where
  "store_step (OpAdd r) s = store_add s r"
| "store_step (OpRemove r) s = store_remove s r"
| "store_step (OpFill rs) s = store_fill s rs"
| "store_step (OpRemoveExpired ord now x) s = store_remove_expired ord now s x"

type_synonym record_map = "string \<times> ipv4 \<Rightarrow> dns_record option"

fun spec_step :: "store_op \<Rightarrow> record_map \<Rightarrow> record_map" where
  "spec_step (OpAdd r) m = m((rec_domain r, rec_ip r) \<mapsto> r)"
| "spec_step (OpRemove r) m = m((rec_domain r, rec_ip r) := None)"
| "spec_step (OpFill rs) m = fold (\<lambda>r m. m((rec_domain r, rec_ip r) \<mapsto> r)) rs (\<lambda>k. None)"
| "spec_step (OpRemoveExpired ord now x) m =
     (\<lambda>k. case m k of None \<Rightarrow> None | Some r \<Rightarrow> if rec_expired (now r) r x then None else Some r)"

fun store_op_ok :: "store_op \<Rightarrow> bool" where
  "store_op_ok (OpRemoveExpired ord now x) = store_order_ok ord"
| "store_op_ok _ = True"

definition store_abs :: "dns_store \<Rightarrow> record_map" where
  "store_abs s = (\<lambda>(d, ip). store_get s d ip)"

lemma store_abs_add: "store_inv s \<Longrightarrow> store_abs (store_add s r) = (store_abs s)((rec_domain r, rec_ip r) \<mapsto> r)"
  by (auto simp: store_abs_def store_get_add)

lemma store_abs_remove: "store_inv s \<Longrightarrow> store_abs (store_remove s r) = (store_abs s)((rec_domain r, rec_ip r) := None)"
  by (auto simp: store_abs_def store_get_remove)

lemma store_abs_add_all:
  "store_inv s \<Longrightarrow> store_inv (fold (\<lambda>r s. store_add s r) rs s)
     \<and> store_abs (fold (\<lambda>r s. store_add s r) rs s) = fold (\<lambda>r m. m((rec_domain r, rec_ip r) \<mapsto> r)) rs (store_abs s)"
  by (induction rs arbitrary: s) (auto simp: store_abs_add)

lemma store_abs_new [simp]: "store_abs new_dns_store = (\<lambda>k. None)"
  by (auto simp: store_abs_def)

lemma store_step_refines:
  assumes "store_inv s" and "store_op_ok op"
  shows "store_inv (store_step op s) \<and> store_abs (store_step op s) = spec_step op (store_abs s)"
proof (cases op)
  case (OpFill rs)
  with store_abs_add_all [OF new_store_inv, of rs] show ?thesis
    by (simp add: store_fill_def store_cleared)
next
  case (OpRemoveExpired ord now x)
  with assms show ?thesis by (auto simp: store_abs_def store_get_remove_expired)
qed (use assms in \<open>simp_all add: store_abs_add store_abs_remove\<close>)

subsection \<open>Load and Save\<close>

text \<open>
  The JSON codec and the file system are parameters: what \<open>os.Open\<close> finds, and functions
  \<open>decode\<close> and \<open>encode\<close> for the record list. \<open>Load\<close> tests the error of \<open>os.Open\<close> for a missing
  file only; any other one leaves a nil file, on which the decoder fails. \<open>Save\<close> truncates the
  file before it encodes; the result is the new content (\<open>None\<close>: untouched) and the error.
\<close>

datatype open_file = FileMissing | OpenFailed | FileData string

definition store_load :: "(string \<Rightarrow> string + dns_record list) \<Rightarrow> dns_store \<Rightarrow> open_file \<Rightarrow> dns_store \<times> string option" where
  "store_load decode s f =
     (case f of
        FileMissing \<Rightarrow> (s, None)
      | OpenFailed \<Rightarrow> (s, Some ''failed to load DNS records: invalid argument'')
      | FileData content \<Rightarrow>
          (case decode content of
             Inl err \<Rightarrow> (s, Some (''failed to load DNS records: '' @ err))
           | Inr records \<Rightarrow> (store_fill s records, None)))"

definition store_save ::
  "(dns_record list \<Rightarrow> string + string) \<Rightarrow> store_order \<Rightarrow> string option \<Rightarrow> dns_store \<Rightarrow>
   string option \<times> string option"
where
  "store_save encode ord open_err s =
     (case open_err of
        Some err \<Rightarrow> (None, Some (''failed to create dump file: '' @ err))
      | None \<Rightarrow>
          (case encode (store_records ord s) of
             Inl err \<Rightarrow> (Some '''', Some (''failed to save records to dump file: '' @ err))
           | Inr content \<Rightarrow> (Some content, None)))"

lemma store_fill_records:
  assumes inv: "store_inv s" and ord: "store_order_ok ord"
  shows "store_get (store_fill s' (store_records ord s)) d ip = store_get s d ip"
proof (cases "map_of (rev (map (\<lambda>r. ((rec_domain r, rec_ip r), r)) (store_records ord s))) (d, ip)")
  case None
  have "store_get s d ip = None"
  proof (rule ccontr)
    assume "store_get s d ip \<noteq> None"
    then obtain r where r: "store_get s d ip = Some r" by blast
    then have key: "rec_domain r = d" "rec_ip r = ip" using store_invD(4) [OF inv] by auto
    with r have "r \<in> set (store_records ord s)"
      by (simp add: store_records_def store_iterate_set [OF inv ord])
    with None key show False by (force simp: map_of_eq_None_iff image_image)
  qed
  with None show ?thesis by (simp add: store_get_fill)
next
  case (Some r)
  then have "r \<in> set (store_records ord s)" and key: "rec_domain r = d" "rec_ip r = ip"
    by (auto dest: map_of_SomeD)
  then have "store_get s d ip = Some r" by (simp add: store_records_def store_iterate_set [OF inv ord])
  with Some show ?thesis by (simp add: store_get_fill)
qed

subsection \<open>Properties\<close>

text \<open>C15: over any sequence of additions, removals, refills and clean-ups, in any map order, the
  store with its two indexes behaves as one map from (domain, address) to record: both indexes
  hold the same records, and \<open>LookupIP\<close> returns exactly the records of an address.\<close>

theorem store_refines_map:
  assumes "\<forall>op \<in> set ops. store_op_ok op" and "is_order o1"
  shows "store_inv (fold store_step ops new_dns_store)
     \<and> store_abs (fold store_step ops new_dns_store) = fold spec_step ops (\<lambda>k. None)
     \<and> (r \<in> set (store_lookup_ip o1 (fold store_step ops new_dns_store) ip)
          \<longleftrightarrow> fold spec_step ops (\<lambda>k. None) (rec_domain r, ip) = Some r)"
proof -
  have "store_inv s \<Longrightarrow> store_inv (fold store_step ops s)
      \<and> store_abs (fold store_step ops s) = fold spec_step ops (store_abs s)" for s
    using assms(1) by (induction ops arbitrary: s) (auto simp: store_step_refines)
  from this [OF new_store_inv]
  have inv: "store_inv (fold store_step ops new_dns_store)"
    and abs: "store_abs (fold store_step ops new_dns_store) = fold spec_step ops (\<lambda>k. None)" by simp_all
  from abs [symmetric] inv show ?thesis
    using store_lookup_ip_set [OF inv assms(2)] by (simp add: store_abs_def)
qed

definition sample_record :: dns_record where
  "sample_record = new_dns_record ''a.example'' (IPv4 1 2 3 4 32) 100"

theorem store_refines_map_witness:
  "let ops = [OpAdd sample_record, OpRemoveExpired (rev, rev) (\<lambda>r. 150) 60,
              OpRemoveExpired (rev, rev) (\<lambda>r. 170) 60, OpAdd (sample_record\<lparr>rec_expires := 300\<rparr>)] in
   (\<forall>op \<in> set ops. store_op_ok op)
   \<and> sample_record\<lparr>rec_expires := 300\<rparr> \<in> set (store_lookup_ip rev (fold store_step ops new_dns_store) (IPv4 1 2 3 4 32))
   \<and> sample_record \<notin> set (store_lookup_ip rev (fold store_step ops new_dns_store) (IPv4 1 2 3 4 32))"
proof -
  let ?ops = "[OpAdd sample_record, OpRemoveExpired (rev, rev) (\<lambda>r. 150) 60,
              OpRemoveExpired (rev, rev) (\<lambda>r. 170) 60, OpAdd (sample_record\<lparr>rec_expires := 300\<rparr>)]"
  have ok: "\<forall>op \<in> set ?ops. store_op_ok op" by (simp add: store_order_ok_def)
  from store_refines_map [OF ok is_order_rev, of _ "IPv4 1 2 3 4 32"] ok show ?thesis
    by (simp add: sample_record_def new_dns_record_def Let_def rec_expired_def time_after_def del: store_step.simps)
qed

text \<open>a clean-up removes exactly the expired records, a later clean-up makes an earlier one
  superfluous, and a record that is not expired is still found.\<close>

theorem store_cleanup:
  assumes "store_inv s" and "store_order_ok ord" and "now \<le> now'"
  shows "store_get (store_remove_expired ord (\<lambda>r. now) s x) d ip =
      (case store_get s d ip of None \<Rightarrow> None | Some r \<Rightarrow> if rec_expired now r x then None else Some r)
    \<and> store_get (store_remove_expired ord (\<lambda>r. now') (store_remove_expired ord (\<lambda>r. now) s x) x) d ip
      = store_get (store_remove_expired ord (\<lambda>r. now') s x) d ip"
  using store.get_purge [of "(ord, x)" s now "(d, ip)"]
    store.later_purge_absorbs [of "(ord, x)" s now now' "(d, ip)"] assms
  by (simp split: option.split)

theorem store_cleanup_witness:
  "store_get (store_remove_expired (rev, rev) (\<lambda>r. 160) (store_add new_dns_store sample_record) 60)
     ''a.example'' (IPv4 1 2 3 4 32) = Some sample_record"
  using store_cleanup [of "store_add new_dns_store sample_record" "(rev, rev)" 160 160 60
      "''a.example''" "IPv4 1 2 3 4 32"]
  by (simp add: store_get_add store_order_ok_def)
     (simp add: sample_record_def new_dns_record_def rec_expired_def time_after_def)

text \<open>what \<open>Save\<close> writes, \<open>Load\<close> restores: with a codec whose \<open>decode\<close> reads back what \<open>encode\<close>
  wrote, loading a saved file into any store gives a store with the same records and consistent
  indexes; a missing or unreadable file leaves the store as it was.\<close>

theorem store_save_load:
  assumes "store_inv s" and "store_order_ok ord"
    and codec: "\<And>rs content. encode rs = Inr content \<Longrightarrow> decode content = Inr rs"
    and saved: "store_save encode ord None s = (Some content, None)"
  shows "\<exists>s2. store_load decode s' (FileData content) = (s2, None) \<and> store_inv s2 \<and> store_abs s2 = store_abs s
     \<and> fst (store_load decode s' FileMissing) = s' \<and> fst (store_load decode s' OpenFailed) = s'"
proof -
  have "encode (store_records ord s) = Inr content"
    using saved by (auto simp: store_save_def split: sum.splits)
  then have "decode content = Inr (store_records ord s)" by (rule codec)
  then show ?thesis
    using store_fill_records [OF assms(1,2)] by (auto simp: store_load_def store_abs_def fun_eq_iff)
qed

theorem store_save_load_witness:
  "let s = store_add new_dns_store sample_record;
       encode = (\<lambda>rs. if rs = [sample_record] then Inr ''1'' else Inl ''unsupported'');
       decode = (\<lambda>c. if c = ''1'' then Inr [sample_record] else Inl ''bad'') in
   store_save encode (rev, rev) None s = (Some ''1'', None)
   \<and> (\<exists>s2. store_load decode new_dns_store (FileData ''1'') = (s2, None) \<and> store_abs s2 = store_abs s)"
proof -
  let ?s = "store_add new_dns_store sample_record"
  let ?encode = "\<lambda>rs. if rs = [sample_record] then Inr ''1'' else Inl ''unsupported''"
  let ?decode = "\<lambda>c. if c = ''1'' then Inr [sample_record] else Inl ''bad''"
  have saved: "store_save ?encode (rev, rev) None ?s = (Some ''1'', None)"
    by (simp add: store_save_def store_records_def store_iterate_def store_add_def new_dns_store_def mm_set_def)
  have codec: "?decode content = Inr rs" if "?encode rs = Inr content" for rs content
    using that by (auto split: if_splits)
  have "store_inv ?s" "store_order_ok (rev, rev)" by (simp_all add: store_order_ok_def)
  from store_save_load [where decode = ?decode and s' = new_dns_store, OF this codec saved] saved show ?thesis
    unfolding Let_def by blast
qed

end
