(* ===== verification/Config.thy ===== *)
theory Config
  imports IPv4 GoStd "HOL-Library.Sublist"
begin

text \<open>
  \<open>dns-server/internal/config.go\<close>, and the polling of the configuration file in
  \<open>dns-server/cmd/main.go\<close>. The YAML package is a parameter: \<open>decode text cfg\<close> overwrites the fields
  of \<open>cfg\<close> the text sets, or fails. \<open>IPRoutingRule\<close> is a conversion of \<open>RoutingRuleConfig\<close>, field by
  field, so both are the record \<open>ip_routing_rule\<close>; the embedded \<open>RoutingDynamicConfig\<close> is a field.
\<close>

type_synonym hosts = "string list"

record routing_dynamic_config =
  rd_route_timeout :: duration
  rd_hosts :: "(string, hosts) gomap"
  rd_static :: "(string, ipv4 list) gomap"

record routing_config =
  rc_rule :: ip_routing_rule
  rc_dynamic :: routing_dynamic_config

record mdns_config =
  md_domains :: "string list"
  md_addr :: string
  md_query_timeout :: duration

record dump_config =
  dump_file :: string
  dump_interval :: duration

record config =
  cfg_addr :: string
  cfg_http_addr :: string
  cfg_log_history_size :: int
  cfg_dns_query_history_size :: int
  cfg_agent_base_url :: string
  cfg_agent_timeout :: duration
  cfg_dns_provider :: string
  cfg_dns_provider_timeout :: duration
  cfg_dns_ttl_override :: duration
  cfg_reconcile_interval :: duration
  cfg_reconcile_timeout :: duration
  cfg_mdns :: mdns_config
  cfg_dump :: dump_config
  cfg_routing :: routing_config

subsection \<open>Hosts\<close>

fun hosts_lookup_host :: "hosts \<Rightarrow> string \<Rightarrow> bool" where
  "hosts_lookup_host [] host = False"
| "hosts_lookup_host (h # hs) host =
     (if host = h \<or> has_suffix host (CHR ''.'' # h) then True else hosts_lookup_host hs host)"

text \<open>The first interface, in the order of the range, one of whose hosts matches; else the empty name.\<close>

fun lookup_host_loop :: "(string \<times> hosts) list \<Rightarrow> string \<Rightarrow> string" where
  "lookup_host_loop [] host = []"
| "lookup_host_loop ((iface, hs) # rest) host =
     (if hosts_lookup_host hs host then iface else lookup_host_loop rest host)"

definition routing_lookup_host :: "(string \<times> hosts) order \<Rightarrow> routing_config \<Rightarrow> string \<Rightarrow> string" where
  "routing_lookup_host ord c host = lookup_host_loop (ord (rd_hosts (rc_dynamic c))) host"

subsection \<open>Loading\<close>

definition set_defaults :: "config \<Rightarrow> config" where
  "set_defaults c = (if cfg_http_addr c = [] then c\<lparr>cfg_http_addr := cfg_addr c\<rparr> else c)"

definition mdns_normalize :: "mdns_config \<Rightarrow> mdns_config" where
  "mdns_normalize c = c\<lparr>md_domains := map (\<lambda>d. ''.'' @ trim d ''.'' @ ''.'') (md_domains c)\<rparr>"

definition config_init :: "config \<Rightarrow> config" where
  "config_init c = (let c = set_defaults c in c\<lparr>cfg_mdns := mdns_normalize (cfg_mdns c)\<rparr>)"

datatype config_error = FailedToOpen string | FailedToParse string

definition load_config ::
  "(string \<Rightarrow> config \<Rightarrow> string + config) \<Rightarrow> config \<Rightarrow> string + string \<Rightarrow> config_error + config"
where
  "load_config decode default_cfg src =
     (case src of
        Inl err \<Rightarrow> Inl (FailedToOpen err)
      | Inr content \<Rightarrow>
          (case decode content default_cfg of
             Inl err \<Rightarrow> Inl (FailedToParse err)
           | Inr cfg \<Rightarrow> Inr (config_init cfg)))"

text \<open>One tick of \<open>listenConfigUpdate\<close>: \<open>stat\<close> is the file's modification time, if it can be read. It
  returns the time to compare with at the next tick and the configuration to apply, if any.\<close>

definition config_tick ::
  "instant option \<Rightarrow> config_error + config \<Rightarrow> instant \<Rightarrow> instant \<times> config option"
where
  "config_tick stat loaded mod_time =
     (case stat of
        Some t \<Rightarrow>
          if time_after t mod_time then
            (case loaded of
               Inl err \<Rightarrow> (mod_time, None)
             | Inr cfg \<Rightarrow> (t, Some cfg))
          else (mod_time, None)
      | None \<Rightarrow> (mod_time, None))"

subsection \<open>Host patterns\<close>

definition subdomain_of :: "string \<Rightarrow> string \<Rightarrow> bool" where
  "subdomain_of host h \<longleftrightarrow> host = h \<or> (\<exists>p. host = p @ CHR ''.'' # h)"

lemma hosts_lookup_host_iff: "hosts_lookup_host hs host \<longleftrightarrow> (\<exists>h \<in> set hs. subdomain_of host h)"
  by (induction hs) (auto simp: subdomain_of_def has_suffix_iff)

lemma subdomain_of_trans: "subdomain_of a b \<Longrightarrow> subdomain_of b c \<Longrightarrow> subdomain_of a c"
  by (auto simp: subdomain_of_def)

lemma lookup_host_loop_cases:
  "(\<exists>(iface, hs) \<in> set kvs. hosts_lookup_host hs host \<and> lookup_host_loop kvs host = iface)
   \<or> (\<forall>(iface, hs) \<in> set kvs. \<not> hosts_lookup_host hs host) \<and> lookup_host_loop kvs host = []"
  by (induction kvs host rule: lookup_host_loop.induct) auto

lemma routing_lookup_host_cases:
  assumes "is_order ord"
  shows "(\<exists>(iface, hs) \<in> set (rd_hosts (rc_dynamic c)). hosts_lookup_host hs host \<and> routing_lookup_host ord c host = iface)
   \<or> (\<forall>(iface, hs) \<in> set (rd_hosts (rc_dynamic c)). \<not> hosts_lookup_host hs host) \<and> routing_lookup_host ord c host = []"
  using lookup_host_loop_cases [of "ord (rd_hosts (rc_dynamic c))" host] assms
  by (simp add: routing_lookup_host_def)

text \<open>Names of interfaces are not empty and no host has two interfaces.\<close>

definition hosts_unambiguous :: "routing_config \<Rightarrow> bool" where
  "hosts_unambiguous c \<longleftrightarrow>
     (\<forall>(i, hs) \<in> set (rd_hosts (rc_dynamic c)). \<forall>(j, gs) \<in> set (rd_hosts (rc_dynamic c)).
        i \<noteq> [] \<and> (\<forall>h \<in> set hs. \<forall>g \<in> set gs. subdomain_of h g \<longrightarrow> i = j))"

lemma subdomain_of_suffix: "subdomain_of host h \<longleftrightarrow> suffix (CHR ''.'' # h) (CHR ''.'' # host)"
  by (auto simp: subdomain_of_def suffix_def Cons_eq_append_conv)

lemma subdomain_of_linear: "subdomain_of host h \<Longrightarrow> subdomain_of host g \<Longrightarrow> subdomain_of h g \<or> subdomain_of g h"
  unfolding subdomain_of_suffix using suffix_same_cases by blast

lemma hosts_unambiguousD:
  assumes "hosts_unambiguous c"
    and "(i, hs) \<in> set (rd_hosts (rc_dynamic c))" and "(j, gs) \<in> set (rd_hosts (rc_dynamic c))"
  shows "i \<noteq> []" and "h \<in> set hs \<Longrightarrow> g \<in> set gs \<Longrightarrow> subdomain_of h g \<Longrightarrow> i = j"
  using bspec [OF bspec [OF assms(1) [unfolded hosts_unambiguous_def] assms(2), unfolded prod.case] assms(3)]
  by auto

lemma routing_lookup_host_unique:
  assumes "is_order ord" and "hosts_unambiguous c"
    and "(iface, hs) \<in> set (rd_hosts (rc_dynamic c))" and "hosts_lookup_host hs host"
  shows "routing_lookup_host ord c host = iface"
proof -
  from routing_lookup_host_cases [OF assms(1), of c host] assms(3,4)
  obtain j gs where j: "(j, gs) \<in> set (rd_hosts (rc_dynamic c))" "hosts_lookup_host gs host"
      "routing_lookup_host ord c host = j" by auto
  from assms(4) j(2) obtain h g where h: "h \<in> set hs" "subdomain_of host h" and g: "g \<in> set gs" "subdomain_of host g"
    by (auto simp: hosts_lookup_host_iff)
  from subdomain_of_linear [OF h(2) g(2)] have "iface = j"
    using hosts_unambiguousD(2) [OF assms(2,3) j(1) h(1) g(1)]
      hosts_unambiguousD(2) [OF assms(2) j(1) assms(3) g(1) h(1)] by blast
  with j(3) show ?thesis by simp
qed

subsection \<open>Properties\<close>

text \<open>C24: a host is routed to an interface exactly when it is, or is a subdomain of, one of the
  interface's hosts: when no host is listed under two interfaces, the answer does not depend on
  the order of the map, a subdomain goes where its parent goes, and a host outside every list has
  no interface.\<close>

theorem lookup_host_by_suffix:
  assumes "is_order ord" and "hosts_unambiguous c"
  shows "(\<forall>(iface, hs) \<in> set (rd_hosts (rc_dynamic c)).
            (\<exists>h \<in> set hs. subdomain_of host h) \<longrightarrow> routing_lookup_host ord c host = iface)
     \<and> (routing_lookup_host ord c host \<noteq> [] \<longrightarrow> subdomain_of sub host
          \<longrightarrow> routing_lookup_host ord c sub = routing_lookup_host ord c host)
     \<and> (routing_lookup_host ord c host = []
          \<longleftrightarrow> (\<forall>(iface, hs) \<in> set (rd_hosts (rc_dynamic c)). \<forall>h \<in> set hs. \<not> subdomain_of host h))"
proof (intro conjI impI)
  show "\<forall>(iface, hs) \<in> set (rd_hosts (rc_dynamic c)).
      (\<exists>h \<in> set hs. subdomain_of host h) \<longrightarrow> routing_lookup_host ord c host = iface"
    using routing_lookup_host_unique [OF assms] by (auto simp: hosts_lookup_host_iff)
next
  assume ne: "routing_lookup_host ord c host \<noteq> []" and sub: "subdomain_of sub host"
  with routing_lookup_host_cases [OF assms(1), of c host]
  obtain iface hs where hs: "(iface, hs) \<in> set (rd_hosts (rc_dynamic c))" "hosts_lookup_host hs host"
      "routing_lookup_host ord c host = iface" by auto
  with sub have "hosts_lookup_host hs sub" by (auto simp: hosts_lookup_host_iff intro: subdomain_of_trans)
  with hs show "routing_lookup_host ord c sub = routing_lookup_host ord c host"
    by (simp add: routing_lookup_host_unique [OF assms])
next
  show "routing_lookup_host ord c host = []
      \<longleftrightarrow> (\<forall>(iface, hs) \<in> set (rd_hosts (rc_dynamic c)). \<forall>h \<in> set hs. \<not> subdomain_of host h)"
    using routing_lookup_host_cases [OF assms(1), of c host] hosts_unambiguousD(1) [OF assms(2)]
    by (fastforce simp: hosts_lookup_host_iff)
qed

definition sample_rule :: ip_routing_rule where
  "sample_rule = \<lparr>rule_table = 1000, rule_iif = ''br0'', rule_priority = 2000\<rparr>"

definition sample_routing :: routing_config where
  "sample_routing = \<lparr>rc_rule = sample_rule,
     rc_dynamic = \<lparr>rd_route_timeout = 60 * second,
                   rd_hosts = [(''tun0'', [''a.example'']), (''tun1'', [''b.example''])],
                   rd_static = [(''tun0'', [IPv4 10 0 0 0 8])]\<rparr>\<rparr>"

lemma sample_hosts_unambiguous: "hosts_unambiguous sample_routing"
  by (auto simp: hosts_unambiguous_def sample_routing_def subdomain_of_def Cons_eq_append_conv)

theorem lookup_host_by_suffix_witness:
  "routing_lookup_host rev sample_routing ''www.a.example'' = ''tun0''
   \<and> routing_lookup_host rev sample_routing ''xa.example'' = []"
proof -
  have "subdomain_of ''www.a.example'' ''a.example''" by (auto simp: subdomain_of_def)
  moreover have "\<not> subdomain_of ''xa.example'' ''a.example''" "\<not> subdomain_of ''xa.example'' ''b.example''"
    by (auto simp: subdomain_of_def Cons_eq_append_conv)
  ultimately show ?thesis
    using lookup_host_by_suffix [OF is_order_rev sample_hosts_unambiguous, of "''www.a.example''"]
      lookup_host_by_suffix [OF is_order_rev sample_hosts_unambiguous, of "''xa.example''"]
    by (simp add: sample_routing_def)
qed

subsection \<open>Normalisation\<close>

lemma trim_right_prefix: "\<exists>t. s = trim_right s cutset @ t"
  unfolding trim_right_def
  by (rule exI [of _ "rev (takeWhile (\<lambda>c. c \<in> set cutset) (rev s))"]) (simp flip: rev_append)

lemma trim_hd: "trim s cutset \<noteq> [] \<Longrightarrow> hd (trim s cutset) \<notin> set cutset"
proof -
  assume ne: "trim s cutset \<noteq> []"
  obtain t where t: "trim_left s cutset = trim s cutset @ t"
    using trim_right_prefix [of "trim_left s cutset" cutset] by (auto simp: trim_def)
  with ne have ne': "dropWhile (\<lambda>c. c \<in> set cutset) s \<noteq> []" by (auto simp: trim_left_def)
  from t ne have "hd (trim s cutset) = hd (dropWhile (\<lambda>c. c \<in> set cutset) s)"
    by (simp flip: trim_left_def)
  with hd_dropWhile [OF ne'] show ?thesis by simp
qed

lemma trim_last: "trim s cutset \<noteq> [] \<Longrightarrow> last (trim s cutset) \<notin> set cutset"
  unfolding trim_def by (rule trim_right_last)

lemma trim_dots: "trim (''.'' @ trim d ''.'' @ ''.'') ''.'' = trim d ''.''"
proof (cases "trim d ''.'' = []")
  case True
  show ?thesis unfolding True by (simp add: trim_def trim_left_def trim_right_def)
next
  case False
  with trim_hd [OF False] have "trim_left (''.'' @ trim d ''.'' @ ''.'') ''.'' = trim d ''.'' @ ''.''"
    by (cases "trim d ''.''") (auto simp: trim_left_def)
  moreover have "trim_right (trim d ''.'' @ ''.'') ''.'' = trim_right (trim d ''.'') ''.''"
    by (rule trim_right_append) simp
  ultimately show ?thesis by (simp add: trim_def trim_right_idem)
qed

lemma mdns_normalize_idem: "mdns_normalize (mdns_normalize c) = mdns_normalize c"
  using trim_dots by (simp add: mdns_normalize_def)

text \<open>a loaded configuration always has an HTTP address when it has a DNS address, and its mDNS
  domains are all written \<open>.name.\<close> with single dots at both ends; initialising it again changes
  nothing, and a file that cannot be opened or parsed gives an error and no configuration.\<close>

theorem load_config_normalised:
  "(case load_config decode default_cfg src of
      Inl err \<Rightarrow> (\<exists>e. src = Inl e) \<or> (\<exists>content e. src = Inr content \<and> decode content default_cfg = Inl e)
    | Inr c \<Rightarrow> config_init c = c
        \<and> (cfg_http_addr c = [] \<longrightarrow> cfg_addr c = [])
        \<and> (\<forall>d \<in> set (md_domains (cfg_mdns c)). \<exists>name. d = ''.'' @ name @ ''.''
              \<and> (name = [] \<or> hd name \<noteq> CHR ''.'' \<and> last name \<noteq> CHR ''.'')))"
proof (cases "load_config decode default_cfg src")
  case (Inl err)
  then show ?thesis by (auto simp: load_config_def split: sum.splits)
next
  case (Inr c)
  then obtain c0 where c: "c = config_init c0" by (auto simp: load_config_def split: sum.splits)
  have "config_init c = c" by (simp add: c config_init_def Let_def set_defaults_def mdns_normalize_idem)
  moreover have "cfg_http_addr c = [] \<longrightarrow> cfg_addr c = []"
    by (simp add: c config_init_def Let_def set_defaults_def)
  moreover have "\<exists>name. d = ''.'' @ name @ ''.'' \<and> (name = [] \<or> hd name \<noteq> CHR ''.'' \<and> last name \<noteq> CHR ''.'')"
    if "d \<in> set (md_domains (cfg_mdns c))" for d
    using that trim_hd [of _ "''.''"] trim_last [of _ "''.''"]
    by (fastforce simp: c config_init_def Let_def mdns_normalize_def set_defaults_def)
  ultimately show ?thesis by (simp add: Inr)
qed

definition sample_config :: config where
  "sample_config = \<lparr>cfg_addr = '':53'', cfg_http_addr = [], cfg_log_history_size = 1000,
     cfg_dns_query_history_size = 1000, cfg_agent_base_url = [], cfg_agent_timeout = second,
     cfg_dns_provider = ''8.8.8.8:53'', cfg_dns_provider_timeout = second, cfg_dns_ttl_override = 0,
     cfg_reconcile_interval = 60 * second, cfg_reconcile_timeout = second,
     cfg_mdns = \<lparr>md_domains = [''..local''], md_addr = [], md_query_timeout = second\<rparr>,
     cfg_dump = \<lparr>dump_file = [], dump_interval = second\<rparr>, cfg_routing = sample_routing\<rparr>"

theorem load_config_normalised_witness:
  "\<exists>c. load_config (\<lambda>text c. Inr c) sample_config (Inr []) = Inr c \<and> config_init c = c
      \<and> md_domains (cfg_mdns c) = [''.local.''] \<and> cfg_http_addr c = '':53''"
proof -
  let ?c = "config_init sample_config"
  have c: "load_config (\<lambda>text c. Inr c) sample_config (Inr []) = Inr ?c" by (simp add: load_config_def)
  have "config_init ?c = ?c"
    using load_config_normalised [where decode = "\<lambda>text c. Inr c" and default_cfg = sample_config and src = "Inr []"] by (simp add: c)
  with c show ?thesis
    by (intro exI [of _ ?c]) (simp add: config_init_def set_defaults_def mdns_normalize_def sample_config_def
      trim_def trim_left_def trim_right_def Let_def)
qed

end
