(* ===== verification/Agent.thy ===== *)
theory Agent
  imports NetIP
begin

text \<open>
  \<open>agent/internal/service.go\<close>: the agent on the router, which answers the five calls of
  \<open>agent/rpc/v1/agent.proto\<close> by running the \<open>ip\<close> command. The command is a parameter
  \<open>ip args w\<close>: it gives the standard output and an error, if any, and the next state of the
  router. \<open>network_client\<close> is the interface the DNS server calls (\<open>agent/client.go\<close>); the
  locale \<open>network_service\<close> is what its client relies on, whatever the \<open>ip\<close> command prints.
\<close>

subsection \<open>Messages\<close>

record proto_rule =
  pr_table :: u32
  pr_iif :: string
  pr_priority :: u32

record proto_route =
  pt_table :: u32
  pt_iface :: string
  pt_address :: string

record ('w, 'e) network_client =
  nc_has_rule :: "proto_rule \<Rightarrow> 'w \<Rightarrow> ('e + bool) \<times> 'w"
  nc_add_rule :: "proto_rule \<Rightarrow> 'w \<Rightarrow> ('e + unit) \<times> 'w"
  nc_list_routes :: "u32 \<Rightarrow> 'w \<Rightarrow> ('e + proto_route list) \<times> 'w"
  nc_add_route :: "proto_route \<Rightarrow> 'w \<Rightarrow> ('e + unit) \<times> 'w"
  nc_delete_route :: "proto_route \<Rightarrow> 'w \<Rightarrow> ('e + unit) \<times> 'w"

subsection \<open>Running a command\<close>

datatype cmd_error = ExitError int string | RunError string

type_synonym 'w ip_cmd = "string list \<Rightarrow> 'w \<Rightarrow> (string \<times> cmd_error option) \<times> 'w"

record cmd_run_result =
  cr_output :: string
  cr_err_output :: string
  cr_exit_code :: int

definition run_cmd :: "'w ip_cmd \<Rightarrow> string list \<Rightarrow> 'w \<Rightarrow> (cmd_run_result \<times> cmd_error option) \<times> 'w" where
  "run_cmd ip args w =
     (let ((output, err), w') = ip args w;
          res = \<lparr>cr_output = output, cr_err_output = [], cr_exit_code = 0\<rparr>;
          res = (case err of
                   Some (ExitError code stderr) \<Rightarrow> res\<lparr>cr_exit_code := code, cr_err_output := stderr\<rparr>
                 | _ \<Rightarrow> res)
      in ((res, err), w'))"

text \<open>
  An internal Connect error carries the exit code and the error output as a detail, unless the
  detail cannot be built (\<open>detail_ok\<close> is the package's test: the text must be valid UTF-8).
\<close>

datatype rpc_error = PlainError cmd_error | ConnectInternal cmd_error "(32 word \<times> string) option"

definition wrap_error :: "(32 word \<times> string \<Rightarrow> bool) \<Rightarrow> cmd_error \<Rightarrow> cmd_run_result \<Rightarrow> rpc_error" where
  "wrap_error detail_ok err r =
     (if cr_err_output r = [] \<and> cr_exit_code r = 0 then PlainError err
      else
        let err_info = (of_int (cr_exit_code r), cr_err_output r) in
        ConnectInternal err (if detail_ok err_info then Some err_info else None))"

definition newline :: char where "newline = CHR 0x0A"

definition parse_output_lines :: "string \<Rightarrow> string list" where
  "parse_output_lines output =
     filter (\<lambda>s. s \<noteq> []) (map trim_space (split_on newline output))"

subsection \<open>The five calls\<close>

definition rule_text :: "proto_rule \<Rightarrow> string" where
  "rule_text rule = ''from all iif '' @ pr_iif rule @ '' lookup '' @ itoa (unat (pr_table rule))"

fun has_rule_loop :: "string \<Rightarrow> string list \<Rightarrow> bool" where
  "has_rule_loop rdef [] = False"
| "has_rule_loop rdef (line # rest) =
     (let ss = split_on CHR '':'' line in
      if length ss = 2 \<and> trim_space (ss ! 1) = rdef then True else has_rule_loop rdef rest)"

definition agent_has_rule where
  "agent_has_rule ip detail_ok rule w =
     (let ((res, err), w') = run_cmd ip [''ip'', ''rule'', ''list''] w in
      case err of
        Some e \<Rightarrow> (Inl (wrap_error detail_ok e res), w')
      | None \<Rightarrow> (Inr (has_rule_loop (rule_text rule) (parse_output_lines (cr_output res))), w'))"

definition agent_add_rule where
  "agent_add_rule ip detail_ok rule w =
     (let ((res, err), w') =
          run_cmd ip [''ip'', ''rule'', ''add'', ''iif'', pr_iif rule, ''table'', itoa (unat (pr_table rule)),
            ''priority'', itoa (unat (pr_priority rule))] w in
      case err of
        Some e \<Rightarrow> (Inl (wrap_error detail_ok e res), w')
      | None \<Rightarrow> (Inr (), w'))"

fun list_routes_loop :: "u32 \<Rightarrow> string list \<Rightarrow> proto_route list" where
  "list_routes_loop table [] = []"
| "list_routes_loop table (line # rest) =
     (let ss = split_on CHR '' '' line in
      if length ss = 5 then
        \<lparr>pt_table = table, pt_iface = ss ! 2, pt_address = ss ! 0\<rparr> # list_routes_loop table rest
      else list_routes_loop table rest)"

definition agent_list_routes where
  "agent_list_routes ip detail_ok table w =
     (let ((res, err), w') = run_cmd ip [''ip'', ''route'', ''list'', ''table'', itoa (unat (table :: u32))] w in
      case err of
        Some e \<Rightarrow> (Inl (wrap_error detail_ok e res), w')
      | None \<Rightarrow> (Inr (list_routes_loop table (parse_output_lines (cr_output res))), w'))"

definition agent_add_route where
  "agent_add_route ip detail_ok route w =
     (let ((res, err), w') =
          run_cmd ip [''ip'', ''route'', ''add'', ''table'', itoa (unat (pt_table route)), pt_address route,
            ''dev'', pt_iface route] w in
      case err of
        Some e \<Rightarrow> (Inl (wrap_error detail_ok e res), w')
      | None \<Rightarrow> (Inr (), w'))"

definition agent_delete_route where
  "agent_delete_route ip detail_ok route w =
     (let ((res, err), w') =
          run_cmd ip [''ip'', ''route'', ''del'', ''table'', itoa (unat (pt_table route)), pt_address route,
            ''dev'', pt_iface route] w in
      case err of
        Some e \<Rightarrow> (Inl (wrap_error detail_ok e res), w')
      | None \<Rightarrow> (Inr (), w'))"

text \<open>The client of an agent, with nothing lost between the two.\<close>

definition agent_client :: "'w ip_cmd \<Rightarrow> (32 word \<times> string \<Rightarrow> bool) \<Rightarrow> ('w, rpc_error) network_client" where
  "agent_client ip detail_ok =
     \<lparr>nc_has_rule = agent_has_rule ip detail_ok,
      nc_add_rule = agent_add_rule ip detail_ok,
      nc_list_routes = agent_list_routes ip detail_ok,
      nc_add_route = agent_add_route ip detail_ok,
      nc_delete_route = agent_delete_route ip detail_ok\<rparr>"

subsection \<open>What a client of the interface relies on\<close>

locale network_service =
  fixes nc :: "('w, 'e) network_client"
  assumes listed_table: "nc_list_routes nc table w = (Inr rs, w') \<Longrightarrow> r \<in> set rs \<Longrightarrow> pt_table r = table"
begin

lemma listed_eq_route:
  "nc_list_routes nc table w = (Inr rs, w') \<Longrightarrow> r \<in> set rs
     \<Longrightarrow> r = \<lparr>pt_table = table, pt_iface = pt_iface r, pt_address = pt_address r\<rparr>"
  by (rule proto_route.equality) (simp_all add: listed_table)

lemma listed_distinct_by_text:
  "nc_list_routes nc table w = (Inr rs, w') \<Longrightarrow> r \<in> set rs \<Longrightarrow> r' \<in> set rs
     \<Longrightarrow> pt_iface r = pt_iface r' \<Longrightarrow> pt_address r = pt_address r' \<Longrightarrow> r = r'"
  by (rule proto_route.equality) (simp_all add: listed_table)

end

lemma list_routes_loop_table: "r \<in> set (list_routes_loop table lines) \<Longrightarrow> pt_table r = table"
  by (induction table lines rule: list_routes_loop.induct) (auto simp: Let_def split: if_splits)

interpretation agent: network_service "agent_client ip detail_ok" for ip detail_ok
  by unfold_locales
    (auto simp: agent_client_def agent_list_routes_def Let_def split: prod.splits option.splits
      intro: list_routes_loop_table)

subsection \<open>The text the command prints\<close>

definition word_ok :: "string \<Rightarrow> bool" where
  "word_ok w \<longleftrightarrow> w \<noteq> [] \<and> (\<forall>c \<in> set w. \<not> is_space c)"

datatype route_line =
    RouteLine string string string
  | OtherLine string

text \<open>\<open>RouteLine a i pad\<close> is the line of a directly connected route, as the comment in the source
  shows it, with the blanks \<open>pad\<close> some versions of the command end it with.\<close>

fun line_text :: "route_line \<Rightarrow> string" where
  "line_text (RouteLine a i pad) = a @ '' dev '' @ i @ '' scope link'' @ pad"
| "line_text (OtherLine l) = l"

fun line_ok :: "route_line \<Rightarrow> bool" where
  "line_ok (RouteLine a i pad) = (word_ok a \<and> word_ok i \<and> (\<forall>c \<in> set pad. c = CHR '' ''))"
| "line_ok (OtherLine l) = (newline \<notin> set l \<and> length (split_on CHR '' '' (trim_space l)) \<noteq> 5)"

definition print_lines :: "string list \<Rightarrow> string" where
  "print_lines ls = concat (map (\<lambda>l. l @ [newline]) ls)"

lemma is_space_newline [simp]: "is_space newline"
  by (simp add: is_space_def newline_def)

lemma is_space_blank [simp]: "is_space CHR '' ''"
  by (simp add: is_space_def)

lemma split_print_lines:
  "\<forall>l \<in> set ls. newline \<notin> set l \<Longrightarrow> split_on newline (print_lines ls) = ls @ [[]]"
  by (induction ls) (auto simp: print_lines_def split_on_append)

lemma trim_space_pad:
  assumes "s \<noteq> []" and "\<not> is_space (hd s)" and "\<not> is_space (last s)" and "\<forall>c \<in> set pad. is_space c"
  shows "trim_space (s @ pad) = s"
proof -
  have "dropWhile is_space (s @ pad) = s @ pad" using assms(1,2) by (cases s) auto
  moreover have "dropWhile is_space (rev pad @ rev s) = dropWhile is_space (rev s)"
    using assms(4) by (intro dropWhile_append2) simp
  ultimately show ?thesis
    using assms(1,3) by (simp add: trim_space_def dropWhile_no_hd hd_rev)
qed

lemma parse_print_lines:
  assumes "\<forall>l \<in> set ls. newline \<notin> set l"
  shows "parse_output_lines (print_lines ls) = filter (\<lambda>s. s \<noteq> []) (map trim_space ls)"
  by (simp add: parse_output_lines_def split_print_lines [OF assms] trim_space_def)

lemma word_ok_no_blank: "word_ok w \<Longrightarrow> CHR '' '' \<notin> set w \<and> newline \<notin> set w"
  using is_space_blank is_space_newline by (auto simp: word_ok_def)

lemma route_line_trim:
  assumes "word_ok a" and "\<forall>c \<in> set pad. c = CHR '' ''"
  shows "trim_space (line_text (RouteLine a i pad)) = a @ '' dev '' @ i @ '' scope link''"
proof -
  have "trim_space ((a @ '' dev '' @ i @ '' scope link'') @ pad) = a @ '' dev '' @ i @ '' scope link''"
    by (rule trim_space_pad) (use assms in \<open>auto simp: word_ok_def is_space_def\<close>)
  then show ?thesis by simp
qed

lemma route_line_fields:
  assumes "word_ok a" and "word_ok i"
  shows "split_on CHR '' '' (a @ '' dev '' @ i @ '' scope link'') = [a, ''dev'', i, ''scope'', ''link'']"
proof -
  have "a @ '' dev '' @ i @ '' scope link'' = join_with '' '' [a, ''dev'', i, ''scope'', ''link'']" by simp
  then show ?thesis
    using split_on_join [of "[a, ''dev'', i, ''scope'', ''link'']" "CHR '' ''"]
      word_ok_no_blank [OF assms(1)] word_ok_no_blank [OF assms(2)] by simp
qed

fun line_routes :: "u32 \<Rightarrow> route_line \<Rightarrow> proto_route list" where
  "line_routes table (RouteLine a i pad) = [\<lparr>pt_table = table, pt_iface = i, pt_address = a\<rparr>]"
| "line_routes table (OtherLine l) = []"

lemma list_routes_loop_five:
  "split_on CHR '' '' line = [a, b, i, c, d] \<Longrightarrow>
   list_routes_loop table (line # rest) = \<lparr>pt_table = table, pt_iface = i, pt_address = a\<rparr> # list_routes_loop table rest"
  by simp

lemma newline_not: "newline \<noteq> CHR '' ''" "newline \<notin> set '' dev ''" "newline \<notin> set '' scope link''"
  by (simp_all add: newline_def)

lemma list_routes_printed:
  assumes "\<forall>l \<in> set ls. line_ok l"
  shows "list_routes_loop table (parse_output_lines (print_lines (map line_text ls)))
     = concat (map (line_routes table) ls)"
proof -
  have nl: "newline \<notin> set (line_text l)" if "line_ok l" for l
    using that newline_not by (cases l) (auto dest: word_ok_no_blank)
  have "list_routes_loop table (filter (\<lambda>s. s \<noteq> []) (map trim_space (map line_text ls)))
      = concat (map (line_routes table) ls)"
    using assms
  proof (induction ls)
    case (Cons l ls)
    have IH: "list_routes_loop table (filter (\<lambda>s. s \<noteq> []) (map trim_space (map line_text ls)))
        = concat (map (line_routes table) ls)" using Cons by simp
    show ?case
    proof (cases l)
      case (RouteLine a i pad)
      with Cons.prems have ok: "word_ok a" "word_ok i" "\<forall>c \<in> set pad. c = CHR '' ''" by simp_all
      have ne: "a @ '' dev '' @ i @ '' scope link'' \<noteq> []" by simp
      show ?thesis
        unfolding RouteLine list.map route_line_trim [OF ok(1,3)] filter.simps if_P [OF ne]
          list_routes_loop_five [OF route_line_fields [OF ok(1,2)]]
        using IH by simp
    next
      case (OtherLine t)
      with Cons.prems have "length (split_on CHR '' '' (trim_space t)) \<noteq> 5" by simp
      with IH show ?thesis unfolding OtherLine by (simp add: Let_def)
    qed
  qed simp
  then show ?thesis using assms nl by (subst parse_print_lines) auto
qed

text \<open>A line of \<open>ip rule list\<close>: a rule for an interface (priority, interface, table and the blanks
  at its end), or any other line, such as \<open>0: from all lookup local\<close>.\<close>

datatype rule_line =
    RuleLine nat string string string
  | OtherRule string

definition tab :: char where "tab = CHR 0x09"

fun rule_line_text :: "rule_line \<Rightarrow> string" where
  "rule_line_text (RuleLine p i t pad) = itoa p @ '':'' @ [tab] @ ''from all iif '' @ i @ '' lookup '' @ t @ pad"
| "rule_line_text (OtherRule l) = l"

fun rule_line_ok :: "rule_line \<Rightarrow> bool" where
  "rule_line_ok (RuleLine p i t pad) \<longleftrightarrow> word_ok i \<and> word_ok t \<and> CHR '':'' \<notin> set i \<and> CHR '':'' \<notin> set t
     \<and> (\<forall>c \<in> set pad. c = CHR '' '')"
| "rule_line_ok (OtherRule l) \<longleftrightarrow> newline \<notin> set l
     \<and> (\<forall>field \<in> set (split_on CHR '':'' (trim_space l)). \<not> has_prefix (trim_space field) ''from all iif '')"

lemma trim_space_left: "\<forall>c \<in> set pre. is_space c \<Longrightarrow> trim_space (pre @ s) = trim_space s"
  by (simp add: trim_space_def dropWhile_append2)

lemma digit_char_not_space: "d < 10 \<Longrightarrow> \<not> is_space (digit_char d)"
  using digit_char_range [of d] by (auto simp: is_space_def)

lemma word_ok_itoa: "word_ok (itoa n)"
  using itoa_chars [of _ n] digit_char_not_space by (auto simp: word_ok_def itoa_def)

lemma word_ok_ends: "word_ok w \<Longrightarrow> \<not> is_space (hd (w @ s)) \<and> \<not> is_space (last (s @ w)) \<and> w \<noteq> []"
  by (auto simp: word_ok_def)

lemma rule_body_inject:
  assumes "word_ok i" and "word_ok t" and "word_ok i'" and "word_ok t'"
  shows "''from all iif '' @ i @ '' lookup '' @ t = ''from all iif '' @ i' @ '' lookup '' @ t' \<longleftrightarrow> i = i' \<and> t = t'"
proof -
  have split: "split_on CHR '' '' (i @ '' lookup '' @ t) = [i, ''lookup'', t]"
    if "word_ok i" "word_ok t" for i t
  proof -
    have "i @ '' lookup '' @ t = join_with '' '' [i, ''lookup'', t]" by simp
    then show ?thesis using split_on_join [of "[i, ''lookup'', t]" "CHR '' ''"] that word_ok_no_blank by simp
  qed
  show ?thesis
  proof
    assume "''from all iif '' @ i @ '' lookup '' @ t = ''from all iif '' @ i' @ '' lookup '' @ t'"
    then have "split_on CHR '' '' (i @ '' lookup '' @ t) = split_on CHR '' '' (i' @ '' lookup '' @ t')" by simp
    then show "i = i' \<and> t = t'" unfolding split [OF assms(1,2)] split [OF assms(3,4)] by simp
  qed simp
qed

lemma rule_line_fields:
  assumes "rule_line_ok (RuleLine p i t pad)"
  shows "\<exists>a b. split_on CHR '':'' (trim_space (rule_line_text (RuleLine p i t pad))) = [a, b]
     \<and> trim_space b = ''from all iif '' @ i @ '' lookup '' @ t"
proof -
  let ?body = "''from all iif '' @ i @ '' lookup '' @ t"
  from assms have i: "word_ok i" and t: "word_ok t" and colon: "CHR '':'' \<notin> set i" "CHR '':'' \<notin> set t"
    and blanks: "\<forall>c \<in> set pad. c = CHR '' ''" unfolding rule_line_ok.simps by iprover+
  from blanks have pad: "\<forall>c \<in> set pad. is_space c" using is_space_blank by metis
  have last: "\<not> is_space (last ?body)" "?body \<noteq> []" "\<not> is_space (hd ?body)"
    using word_ok_ends [OF t, of "''from all iif '' @ i @ '' lookup ''"] by (simp_all only: append_assoc) (simp_all add: is_space_def)
  have "trim_space ((itoa p @ '':'' @ [tab] @ ?body) @ pad) = itoa p @ '':'' @ [tab] @ ?body"
  proof (rule trim_space_pad [OF _ _ _ pad])
    show "\<not> is_space (hd (itoa p @ '':'' @ [tab] @ ?body))"
      using word_ok_ends [OF word_ok_itoa, of p] by blast
    show "\<not> is_space (last (itoa p @ '':'' @ [tab] @ ?body))"
      using word_ok_ends [OF t, of "itoa p @ '':'' @ [tab] @ ''from all iif '' @ i @ '' lookup ''"]
      by (simp only: append_assoc not_False_eq_True)
  qed simp
  then have trim: "trim_space (rule_line_text (RuleLine p i t pad)) = itoa p @ CHR '':'' # ([tab] @ ?body)"
    by simp
  have c1: "CHR '':'' \<notin> set (itoa p)" using itoa_not_sep by blast
  have c2: "CHR '':'' \<notin> set ([tab] @ ?body)" using colon by (simp add: tab_def)
  have "split_on CHR '':'' (itoa p @ CHR '':'' # ([tab] @ ?body)) = [itoa p, [tab] @ ?body]"
    unfolding split_on_append [OF c1] split_on_no_sep [OF c2] by (rule refl)
  moreover have "trim_space ([tab] @ ?body) = ?body"
    using trim_space_left [of "[tab]" ?body] trim_space_pad [OF last(2,3,1), of "[]"]
    by (simp add: tab_def is_space_def)
  ultimately show ?thesis unfolding trim by blast
qed

lemma rule_line_no_newline:
  assumes "rule_line_ok l"
  shows "newline \<notin> set (rule_line_text l)"
proof (cases l)
  case (RuleLine p i t pad)
  from assms have w: "word_ok i" "word_ok t" and pad: "\<forall>c \<in> set pad. c = CHR '' ''"
    unfolding RuleLine rule_line_ok.simps by iprover+
  have "newline \<notin> set pad" using pad newline_not(1) by metis
  moreover have "newline \<notin> set (itoa p)" using word_ok_no_blank [OF word_ok_itoa] by blast
  ultimately show ?thesis
    using word_ok_no_blank [OF w(1)] word_ok_no_blank [OF w(2)]
    by (simp add: RuleLine tab_def) (simp add: newline_def)
qed (use assms in simp)

lemma other_rule_skipped:
  assumes "rule_line_ok (OtherRule l)"
  shows "has_rule_loop (rule_text rule) (trim_space l # rest) = has_rule_loop (rule_text rule) rest"
proof -
  let ?ss = "split_on CHR '':'' (trim_space l)"
  have rule: "has_prefix (rule_text rule) ''from all iif ''" by (simp add: rule_text_def has_prefix_def)
  have "trim_space (?ss ! 1) \<noteq> rule_text rule" if len: "length ?ss = 2"
  proof -
    from len have "?ss ! 1 \<in> set ?ss" by simp
    with assms have "\<not> has_prefix (trim_space (?ss ! 1)) ''from all iif ''" unfolding rule_line_ok.simps by blast
    with rule show ?thesis by metis
  qed
  then show ?thesis by (auto simp: Let_def)
qed

lemma has_rule_printed:
  assumes "\<forall>l \<in> set ls. rule_line_ok l" and "word_ok (pr_iif rule)"
  shows "has_rule_loop (rule_text rule) (parse_output_lines (print_lines (map rule_line_text ls)))
     \<longleftrightarrow> (\<exists>p pad. RuleLine p (pr_iif rule) (itoa (unat (pr_table rule))) pad \<in> set ls)"
proof -
  let ?t = "itoa (unat (pr_table rule))"
  have "has_rule_loop (rule_text rule) (filter (\<lambda>s. s \<noteq> []) (map trim_space (map rule_line_text ls)))
      \<longleftrightarrow> (\<exists>p pad. RuleLine p (pr_iif rule) ?t pad \<in> set ls)"
    using assms(1)
  proof (induction ls)
    case (Cons l ls)
    from Cons.IH Cons.prems have IH: "has_rule_loop (rule_text rule) (filter (\<lambda>s. s \<noteq> []) (map trim_space (map rule_line_text ls)))
      \<longleftrightarrow> (\<exists>p pad. RuleLine p (pr_iif rule) ?t pad \<in> set ls)" by simp
    show ?case
    proof (cases l)
      case (RuleLine p i t pad)
      from Cons.prems have ok: "rule_line_ok (RuleLine p i t pad)" by (simp add: RuleLine)
      then have w: "word_ok i" "word_ok t" by auto
      from rule_line_fields [OF ok] obtain a b
        where ab: "split_on CHR '':'' (trim_space (rule_line_text l)) = [a, b]"
          "trim_space b = ''from all iif '' @ i @ '' lookup '' @ t" unfolding RuleLine by blast
      have eq: "trim_space b = rule_text rule \<longleftrightarrow> i = pr_iif rule \<and> t = ?t"
        unfolding ab(2) rule_text_def by (rule rule_body_inject [OF w assms(2) word_ok_itoa])
      from ab(1) have ne: "trim_space (rule_line_text l) \<noteq> []" by auto
      have step: "has_rule_loop (rule_text rule) (trim_space (rule_line_text l) # rest)
          \<longleftrightarrow> (i = pr_iif rule \<and> t = ?t) \<or> has_rule_loop (rule_text rule) rest" for rest
        by (auto simp: Let_def ab(1) eq)
      from ne step IH show ?thesis by (auto simp: RuleLine)
    next
      case (OtherRule t)
      with Cons.prems other_rule_skipped IH show ?thesis by simp
    qed
  qed simp
  then show ?thesis using assms(1) rule_line_no_newline by (subst parse_print_lines) auto
qed

subsection \<open>Properties\<close>

text \<open>\<open>ListRoutes\<close> returns the directly connected routes the command prints, in order, with their
  address, interface and the requested table; other lines (any number of fields but five) are
  skipped. A failing command gives an error, with its exit code and error output as detail.\<close>

theorem agent_lists_routes:
  assumes "\<forall>l \<in> set ls. line_ok l"
    and "ip [''ip'', ''route'', ''list'', ''table'', itoa (unat table)] w = ((print_lines (map line_text ls), err), w')"
  shows "agent_list_routes ip detail_ok table w =
    (case err of
       None \<Rightarrow> Inr (concat (map (line_routes table) ls))
     | Some (ExitError code stderr) \<Rightarrow>
         Inl (if stderr = [] \<and> code = 0 then PlainError (ExitError code stderr)
              else ConnectInternal (ExitError code stderr)
                (if detail_ok (of_int code, stderr) then Some (of_int code, stderr) else None))
     | Some (RunError e) \<Rightarrow> Inl (PlainError (RunError e)), w')"
  by (simp add: agent_list_routes_def run_cmd_def assms(2) list_routes_printed [OF assms(1)] wrap_error_def Let_def
      split: option.split cmd_error.split)

theorem agent_lists_routes_witness:
  "agent_list_routes (\<lambda>args w. ((print_lines (map line_text [RouteLine ''1.2.3.4'' ''tun0'' '' '', OtherLine ''x y'']), None), ()))
     (\<lambda>d. True) 1000 () = (Inr [\<lparr>pt_table = 1000, pt_iface = ''tun0'', pt_address = ''1.2.3.4''\<rparr>], ())"
proof -
  let ?ls = "[RouteLine ''1.2.3.4'' ''tun0'' '' '', OtherLine ''x y'']"
  have ok: "\<forall>l \<in> set ?ls. line_ok l" by (simp add: word_ok_def is_space_def newline_def trim_space_def)
  from agent_lists_routes [OF ok, where ip = "\<lambda>args w. ((print_lines (map line_text ?ls), None), ())"
      and err = None and table = 1000]
  show ?thesis by simp
qed

text \<open>\<open>HasRule\<close> holds exactly when the router has a rule for the same interface and table; the
  priority is not compared, so a rule that exists with another priority is taken for the
  configured one.\<close>

theorem agent_rule_lookup:
  assumes "\<forall>l \<in> set ls. rule_line_ok l" and "word_ok (pr_iif rule)"
    and "ip [''ip'', ''rule'', ''list''] w = ((print_lines (map rule_line_text ls), None), w')"
  shows "agent_has_rule ip detail_ok rule w =
      (Inr (\<exists>p pad. RuleLine p (pr_iif rule) (itoa (unat (pr_table rule))) pad \<in> set ls), w')
    \<and> fst (agent_has_rule ip detail_ok (rule\<lparr>pr_priority := other\<rparr>) w) = fst (agent_has_rule ip detail_ok rule w)"
  using has_rule_printed [OF assms(1,2)]
  by (simp add: agent_has_rule_def run_cmd_def assms(3) Let_def rule_text_def)

theorem agent_rule_lookup_witness:
  "fst (agent_has_rule (\<lambda>args w. ((print_lines (map rule_line_text [OtherRule ''0: from all lookup local'', RuleLine 2000 ''br0'' (itoa 1000) '' '']), None), ()))
     (\<lambda>d. True) \<lparr>pr_table = 1000, pr_iif = ''br0'', pr_priority = 50\<rparr> ()) = Inr True"
proof -
  let ?ls = "[OtherRule ''0: from all lookup local'', RuleLine 2000 ''br0'' (itoa 1000) '' '']"
  have "CHR '':'' \<notin> set (itoa 1000)" using itoa_not_sep by blast
  then have ok: "\<forall>l \<in> set ?ls. rule_line_ok l"
    by (simp add: word_ok_itoa) (simp add: word_ok_def is_space_def trim_space_def has_prefix_def newline_def)
  have "word_ok (pr_iif \<lparr>pr_table = 1000, pr_iif = ''br0'', pr_priority = 50\<rparr>)" by (simp add: word_ok_def is_space_def)
  from agent_rule_lookup [OF ok this, where ip = "\<lambda>args w. ((print_lines (map rule_line_text ?ls), None), ())"]
  show ?thesis by simp
qed

end
