(* ===== verification/Sets.thy ===== *)
theory Sets
  imports Prelude
begin

text \<open>
  \<open>internal/util/set.go\<close> and \<open>map.go\<close>: \<open>Set\<close>, whose zero value is a nil map that \<open>Add\<close>
  allocates on first use; \<open>SyncSet\<close>, the same operations behind a lock on a map that always
  exists; and \<open>LazyMap\<close>. A Go map used as a set is the list of its keys, without duplicates. The
  locale \<open>set_ops\<close> is what a client relies on; both set types provide it.
\<close>

subsection \<open>Set\<close>

type_synonym 'a goset = "'a list option"

definition set_entries :: "'a goset \<Rightarrow> 'a list" where
  "set_entries s = (case s of None \<Rightarrow> [] | Some es \<Rightarrow> es)"

definition set_add :: "'a goset \<Rightarrow> 'a \<Rightarrow> 'a goset \<times> bool" where
  "set_add s v =
     (let es = (case s of None \<Rightarrow> [] | Some es \<Rightarrow> es) in
      if v \<in> set es then (Some es, False) else (Some (es @ [v]), True))"

definition set_has :: "'a goset \<Rightarrow> 'a \<Rightarrow> bool" where
  "set_has s v \<longleftrightarrow> v \<in> set (set_entries s)"

definition set_size :: "'a goset \<Rightarrow> nat" where
  "set_size s = length (set_entries s)"

definition set_clear :: "'a goset \<Rightarrow> 'a goset" where
  "set_clear s = (case s of None \<Rightarrow> None | Some es \<Rightarrow> Some [])"

definition set_remove :: "'a goset \<Rightarrow> 'a \<Rightarrow> 'a goset" where
  "set_remove s v = map_option (removeAll v) s"

definition set_values :: "'a order \<Rightarrow> 'a goset \<Rightarrow> 'a list" where
  "set_values ord s = ord (set_entries s)"

definition set_inv :: "'a goset \<Rightarrow> bool" where
  "set_inv s \<longleftrightarrow> distinct (set_entries s)"

definition set_elems :: "'a goset \<Rightarrow> 'a set" where
  "set_elems s = set (set_entries s)"

subsection \<open>SyncSet\<close>

text \<open>Every method holds the lock for its whole body, so each is one atomic step.\<close>

record 'a syncset =
  ss_entries :: "'a list"

definition new_sync_set :: "'a syncset" where
  "new_sync_set = \<lparr>ss_entries = []\<rparr>"

definition sync_add :: "'a syncset \<Rightarrow> 'a \<Rightarrow> 'a syncset \<times> bool" where
  "sync_add s v =
     (if v \<in> set (ss_entries s) then (s, False)
      else (s\<lparr>ss_entries := ss_entries s @ [v]\<rparr>, True))"

definition sync_has :: "'a syncset \<Rightarrow> 'a \<Rightarrow> bool" where
  "sync_has s v \<longleftrightarrow> v \<in> set (ss_entries s)"

definition sync_size :: "'a syncset \<Rightarrow> nat" where
  "sync_size s = length (ss_entries s)"

definition sync_clear :: "'a syncset \<Rightarrow> 'a syncset" where
  "sync_clear s = s\<lparr>ss_entries := []\<rparr>"

definition sync_remove :: "'a syncset \<Rightarrow> 'a \<Rightarrow> 'a syncset" where
  "sync_remove s v = s\<lparr>ss_entries := removeAll v (ss_entries s)\<rparr>"

definition sync_values :: "'a order \<Rightarrow> 'a syncset \<Rightarrow> 'a list" where
  "sync_values ord s = ord (ss_entries s)"

subsection \<open>LazyMap\<close>

type_synonym ('k, 'v) lazy_map = "('k, 'v) gomap option"

definition lazy_get :: "('k, 'v) lazy_map \<Rightarrow> 'k \<Rightarrow> 'v option" where
  "lazy_get m k = (case m of None \<Rightarrow> None | Some es \<Rightarrow> gm_get es k)"

definition lazy_set :: "('k, 'v) lazy_map \<Rightarrow> 'k \<Rightarrow> 'v \<Rightarrow> ('k, 'v) lazy_map" where
  "lazy_set m k v = (let es = (case m of None \<Rightarrow> [] | Some es \<Rightarrow> es) in Some (gm_set es k v))"

lemma lazy_get_set [simp]: "lazy_get (lazy_set m k v) k' = (if k' = k then Some v else lazy_get m k')"
  by (cases m) (simp_all add: lazy_get_def lazy_set_def Let_def)

lemma lazy_get_None [simp]: "lazy_get None k = None"
  by (simp add: lazy_get_def)

subsection \<open>The contract of a set\<close>

locale set_ops =
  fixes add :: "'s \<Rightarrow> 'a \<Rightarrow> 's \<times> bool"
    and has :: "'s \<Rightarrow> 'a \<Rightarrow> bool"
    and remove :: "'s \<Rightarrow> 'a \<Rightarrow> 's"
    and clear :: "'s \<Rightarrow> 's"
    and size_of :: "'s \<Rightarrow> nat"
    and elems :: "'s \<Rightarrow> 'a set"
    and inv :: "'s \<Rightarrow> bool"
  assumes add_inv: "inv s \<Longrightarrow> inv (fst (add s v))"
    and add_elems: "inv s \<Longrightarrow> elems (fst (add s v)) = insert v (elems s)"
    and add_fresh: "inv s \<Longrightarrow> snd (add s v) \<longleftrightarrow> v \<notin> elems s"
    and has_elems: "inv s \<Longrightarrow> has s v \<longleftrightarrow> v \<in> elems s"
    and remove_inv: "inv s \<Longrightarrow> inv (remove s v)"
    and remove_elems: "inv s \<Longrightarrow> elems (remove s v) = elems s - {v}"
    and clear_inv: "inv s \<Longrightarrow> inv (clear s)"
    and clear_elems: "inv s \<Longrightarrow> elems (clear s) = {}"
    and size_elems: "inv s \<Longrightarrow> size_of s = card (elems s)"
    and finite_elems: "inv s \<Longrightarrow> finite (elems s)"
begin

lemma has_add: "inv s \<Longrightarrow> has (fst (add s v)) w \<longleftrightarrow> w = v \<or> has s w"
  by (simp add: has_elems add_inv add_elems)

lemma has_remove: "inv s \<Longrightarrow> has (remove s v) w \<longleftrightarrow> w \<noteq> v \<and> has s w"
  by (auto simp: has_elems remove_inv remove_elems)

lemma has_clear: "inv s \<Longrightarrow> \<not> has (clear s) w"
  by (simp add: has_elems clear_inv clear_elems)

lemma add_twice: "inv s \<Longrightarrow> \<not> snd (add (fst (add s v)) v)"
  by (simp add: add_fresh add_inv add_elems)

lemma size_add: "inv s \<Longrightarrow> size_of (fst (add s v)) = size_of s + (if snd (add s v) then 1 else 0)"
  by (simp add: size_elems add_inv add_elems add_fresh finite_elems card_insert_if)

lemma size_remove: "inv s \<Longrightarrow> size_of (remove s v) = size_of s - (if has s v then 1 else 0)"
  by (simp add: size_elems remove_inv remove_elems has_elems finite_elems card_Diff_singleton_if)

lemma add_remove_elems: "inv s \<Longrightarrow> v \<notin> elems s \<Longrightarrow> elems (remove (fst (add s v)) v) = elems s"
  by (simp add: remove_elems add_inv add_elems)

end

lemma distinct_snoc [simp]: "distinct (xs @ [x]) \<longleftrightarrow> distinct xs \<and> x \<notin> set xs"
  by auto

interpretation goset: set_ops set_add set_has set_remove set_clear set_size set_elems set_inv
  by unfold_locales
    (auto simp: set_add_def set_has_def set_remove_def set_clear_def set_size_def set_elems_def
      set_inv_def set_entries_def Let_def distinct_card distinct_removeAll split: option.splits)

interpretation syncset: set_ops sync_add sync_has sync_remove sync_clear sync_size
  "\<lambda>s. set (ss_entries s)" "\<lambda>s. distinct (ss_entries s)"
  by unfold_locales
    (auto simp: sync_add_def sync_has_def sync_remove_def sync_clear_def sync_size_def
      distinct_card distinct_removeAll)

lemma set_inv_None [simp, invar_intros]: "set_inv None"
  by (simp add: set_inv_def set_entries_def)

lemma set_elems_None [simp]: "set_elems None = {}"
  by (simp add: set_elems_def set_entries_def)

lemma set_values_set: "is_order ord \<Longrightarrow> set (set_values ord s) = set_elems s"
  by (simp add: set_values_def set_elems_def)

lemma set_values_distinct: "is_order ord \<Longrightarrow> set_inv s \<Longrightarrow> distinct (set_values ord s)"
  by (simp add: set_values_def set_inv_def)

lemmas goset_rules [simp] =
  goset.add_inv goset.add_elems goset.remove_inv goset.remove_elems goset.has_elems

subsection \<open>Properties\<close>

text \<open>a nil \<open>Set\<close> behaves as the empty set and \<open>Set\<close> is a finite set: after any operation
  \<open>Has\<close> answers membership, \<open>Add\<close> reports exactly whether the element is new, and \<open>Size\<close> counts
  the elements. No operation writes to a nil map.\<close>

theorem set_behaves_as_set:
  assumes "set_inv s"
  shows "set_has (fst (set_add s v)) w = (w = v \<or> set_has s w)
     \<and> snd (set_add s v) = (\<not> set_has s v)
     \<and> set_has (set_remove s v) w = (w \<noteq> v \<and> set_has s w)
     \<and> \<not> set_has (set_clear s) w
     \<and> set_size (fst (set_add s v)) = set_size s + (if set_has s v then 0 else 1)
     \<and> set_size (set_remove s v) = set_size s - (if set_has s v then 1 else 0)
     \<and> \<not> set_has None w"
  using goset.has_add [OF assms, of v w] goset.has_remove [OF assms, of v w]
    goset.has_clear [OF assms, of w] goset.size_add [OF assms, of v]
    goset.size_remove [OF assms, of v] goset.add_fresh [OF assms, of v] assms
  by (simp add: goset.has_elems)

theorem set_behaves_as_set_witness:
  "set_inv (Some [1, 2 :: nat]) \<and> set_has (fst (set_add (Some [1, 2 :: nat]) 3)) 3
     \<and> set_size (fst (set_add (Some [1, 2 :: nat]) 3)) = 3"
proof -
  have inv: "set_inv (Some [1, 2 :: nat])" by (simp add: set_inv_def set_entries_def)
  show ?thesis
    using inv set_behaves_as_set [OF inv, of 3 3] by (simp add: set_size_def set_has_def set_entries_def)
qed

end
