(* ===== verification/IPRoutes.thy ===== *)
theory IPRoutes
  imports DNSStore Config Agent Sets "HOL-Library.Char_ord"
begin

text \<open>
  \<open>dns-server/internal/ip_routes.go\<close>: the controller that keeps the router's table equal to the
  routes that resolved names and the configuration ask for. Its network service is a client \<open>nc\<close>
  of the agent, whose state is \<open>w\<close>; a call that times out or fails is an error of \<open>nc\<close>. Each
  method below that takes \<open>routesMu\<close> or \<open>reconcileMu\<close> holds it for its whole body.

  \<open>reconcile_choice\<close> collects what the runtime and the clock choose in one reconciliation: the orders
  of its ranges and the readings of the clock.
\<close>

record ip_ctl =
  ic_cfg :: routing_config
  ic_table_id :: int
  ic_rule :: ip_routing_rule
  ic_store :: dns_store
  ic_routes :: "ip_route goset"
  ic_reconcile_interval :: duration
  ic_reconcile_timeout :: duration

record reconcile_choice =
  rch_purge_order :: store_order
  rch_purge_clock :: "dns_record \<Rightarrow> instant"
  rch_routes :: "ip_route order"
  rch_lookup :: "ip_route \<Rightarrow> (string \<times> dns_record) order"
  rch_clock :: "ip_route \<Rightarrow> dns_record \<Rightarrow> instant"
  rch_static :: "(string \<times> ipv4 list) order"
  rch_unknown :: "ip_route order"

definition new_ip_route_controller :: "routing_config \<Rightarrow> dns_store \<Rightarrow> duration \<Rightarrow> duration \<Rightarrow> ip_ctl" where
  "new_ip_route_controller cfg store interval timeout =
     \<lparr>ic_cfg = cfg, ic_table_id = rule_table (rc_rule cfg), ic_rule = rc_rule cfg, ic_store = store,
      ic_routes = None, ic_reconcile_interval = interval, ic_reconcile_timeout = timeout\<rparr>"

definition ctl_lookup_host :: "(string \<times> hosts) order \<Rightarrow> ip_ctl \<Rightarrow> string \<Rightarrow> string" where
  "ctl_lookup_host ord s host = routing_lookup_host ord (ic_cfg s) host"

definition map_to_agent_rule :: "ip_routing_rule \<Rightarrow> proto_rule" where
  "map_to_agent_rule rule =
     \<lparr>pr_table = of_int (rule_table rule), pr_iif = rule_iif rule, pr_priority = of_int (rule_priority rule)\<rparr>"

definition map_to_agent_route :: "ip_route \<Rightarrow> proto_route" where
  "map_to_agent_route route =
     \<lparr>pt_table = of_int (rt_table route), pt_iface = rt_iface route, pt_address = ipv4_string (rt_addr route)\<rparr>"

definition remove_expired_records ::
  "(dns_record \<Rightarrow> instant) \<Rightarrow> dns_record list \<Rightarrow> duration \<Rightarrow> dns_record list"
where
  "remove_expired_records clock records extra_ttl = filter (\<lambda>rec. \<not> rec_expired (clock rec) rec extra_ttl) records"

text \<open>\<open>Routes\<close>: the domains of one address are distinct, so sorting by domain has one result.\<close>

definition ctl_routes ::
  "ip_route order \<Rightarrow> (ip_route \<Rightarrow> (string \<times> dns_record) order) \<Rightarrow> (ip_route \<Rightarrow> dns_record \<Rightarrow> instant)
     \<Rightarrow> ip_ctl \<Rightarrow> ip_route_dns list"
where
  "ctl_routes ord lookup clock s =
     (let cfg = ic_cfg s in
      map (\<lambda>route.
             let records = remove_expired_records (clock route)
                   (store_lookup_ip (lookup route) (ic_store s) (rt_addr route))
                   (rd_route_timeout (rc_dynamic cfg))
             in ip_route.extend route (ip_route_dns.fields (sort_key rec_domain records)))
        (set_values ord (ic_routes s)))"

subsection \<open>Calls to the agent\<close>

definition ctl_add_route_rpc ::
  "('w, 'e) network_client \<Rightarrow> ip_route \<Rightarrow> ip_ctl \<times> 'w \<Rightarrow> ip_ctl \<times> 'w"
where
  "ctl_add_route_rpc nc route = (\<lambda>(s, w).
     case nc_add_route nc (map_to_agent_route route) w of
       (Inl err, w') \<Rightarrow> (s, w')
     | (Inr (), w') \<Rightarrow> (s\<lparr>ic_routes := fst (set_add (ic_routes s) route)\<rparr>, w'))"

definition ctl_delete_route ::
  "('w, 'e) network_client \<Rightarrow> ip_route \<Rightarrow> ip_ctl \<times> 'w \<Rightarrow> ip_ctl \<times> 'w"
where
  "ctl_delete_route nc route = (\<lambda>(s, w).
     case nc_delete_route nc (map_to_agent_route route) w of
       (Inl err, w') \<Rightarrow> (s, w')
     | (Inr (), w') \<Rightarrow> (s\<lparr>ic_routes := set_remove (ic_routes s) route\<rparr>, w'))"

definition ctl_add_rule ::
  "('w, 'e) network_client \<Rightarrow> ip_routing_rule \<Rightarrow> ip_ctl \<times> 'w \<Rightarrow> ip_ctl \<times> 'w"
where
  "ctl_add_rule nc rule = (\<lambda>(s, w). (s, snd (nc_add_rule nc (map_to_agent_rule rule) w)))"

definition ctl_add_route ::
  "('w, 'e) network_client \<Rightarrow> string \<Rightarrow> ipv4 \<Rightarrow> ip_ctl \<times> 'w \<Rightarrow> ip_ctl \<times> 'w"
where
  "ctl_add_route nc iface ip = (\<lambda>(s, w).
     let route = \<lparr>rt_table = ic_table_id s, rt_iface = iface, rt_addr = ip\<rparr> in
     if \<not> set_has (ic_routes s) route then ctl_add_route_rpc nc route (s, w) else (s, w))"

text \<open>\<open>loadRoutes\<close>: a nil map (\<open>None\<close>) when the call fails; an address \<open>ParseIPv4\<close> panics on is a panic.\<close>

definition load_route :: "ip_route goset \<Rightarrow> proto_route \<Rightarrow> ip_route goset panicking" where
  "load_route routes it =
     (case parse_ipv4 (pt_address it) of
        Inl panic \<Rightarrow> Inl panic
      | Inr (Inl err) \<Rightarrow> Inr routes
      | Inr (Inr addr) \<Rightarrow>
          Inr (fst (set_add routes \<lparr>rt_table = uint (pt_table it), rt_iface = pt_iface it, rt_addr = addr\<rparr>)))"

definition load_routes ::
  "('w, 'e) network_client \<Rightarrow> int \<Rightarrow> 'w \<Rightarrow> (ip_route goset \<times> 'w) panicking"
where
  "load_routes nc table w =
     (case nc_list_routes nc (of_int table) w of
        (Inl err, w') \<Rightarrow> Inr (None, w')
      | (Inr rs, w') \<Rightarrow>
          (case fold_res load_route (Some []) rs of
             Inl panic \<Rightarrow> Inl panic
           | Inr routes \<Rightarrow> Inr (routes, w')))"

subsection \<open>Reconciliation\<close>

definition reconcile_rules ::
  "('w, 'e) network_client \<Rightarrow> routing_config \<Rightarrow> ip_ctl \<times> 'w \<Rightarrow> ip_ctl \<times> 'w"
where
  "reconcile_rules nc cfg = (\<lambda>(s, w).
     let rule = rc_rule cfg in
     case nc_has_rule nc (map_to_agent_rule rule) w of
       (Inl err, w') \<Rightarrow> (s, w')
     | (Inr exists, w') \<Rightarrow> if \<not> exists then ctl_add_rule nc rule (s, w') else (s, w'))"

text \<open>The closure \<open>addRoute\<close> of \<open>reconcileRoutes\<close>.\<close>

definition reconcile_add ::
  "('w, 'e) network_client \<Rightarrow> ip_route goset \<Rightarrow> ip_route \<Rightarrow> ip_route goset \<times> ip_ctl \<times> 'w \<Rightarrow> ip_route goset \<times> ip_ctl \<times> 'w"
where
  "reconcile_add nc defined route = (\<lambda>(unknown, sw).
     if set_has defined route then (set_remove unknown route, sw)
     else (unknown, ctl_add_route_rpc nc route sw))"

definition route_live :: "reconcile_choice \<Rightarrow> routing_config \<Rightarrow> dns_store \<Rightarrow> ip_route \<Rightarrow> bool" where
  "route_live ch cfg store route \<longleftrightarrow>
     0 < length (remove_expired_records (rch_clock ch route)
           (store_lookup_ip (rch_lookup ch route) store (rt_addr route)) (rd_route_timeout (rc_dynamic cfg)))"

definition reconcile_routes ::
  "('w, 'e) network_client \<Rightarrow> reconcile_choice \<Rightarrow> routing_config \<Rightarrow> ip_ctl \<times> 'w \<Rightarrow> (ip_ctl \<times> 'w) panicking"
where
  "reconcile_routes nc ch cfg = (\<lambda>(s, w).
     case load_routes nc (rule_table (rc_rule cfg)) w of
       Inl panic \<Rightarrow> Inl panic
     | Inr (defined, w1) \<Rightarrow>
         let st = (defined, (s, w1));
             st = fold (\<lambda>route st. if route_live ch cfg (ic_store s) route then reconcile_add nc defined route st else st)
                    (set_values (rch_routes ch) (ic_routes s)) st;
             st = fold (\<lambda>(iface, addresses) st.
                      fold (\<lambda>addr st. reconcile_add nc defined
                              \<lparr>rt_table = rule_table (rc_rule cfg), rt_iface = iface, rt_addr = addr\<rparr> st)
                        addresses st)
                    (rch_static ch (rd_static (rc_dynamic cfg))) st;
             (unknown, sw) = st
         in Inr (fold (ctl_delete_route nc) (set_values (rch_unknown ch) unknown) sw))"

definition ctl_reconcile ::
  "('w, 'e) network_client \<Rightarrow> reconcile_choice \<Rightarrow> ip_ctl \<times> 'w \<Rightarrow> (ip_ctl \<times> 'w) panicking"
where
  "ctl_reconcile nc ch = (\<lambda>(s, w).
     let cfg = ic_cfg s;
         s = s\<lparr>ic_store := store_remove_expired (rch_purge_order ch) (rch_purge_clock ch) (ic_store s)
                 (rd_route_timeout (rc_dynamic cfg))\<rparr>
     in reconcile_routes nc ch cfg (reconcile_rules nc cfg (s, w)))"

definition ctl_update_config ::
  "('w, 'e) network_client \<Rightarrow> reconcile_choice \<Rightarrow> routing_dynamic_config \<Rightarrow> ip_ctl \<times> 'w \<Rightarrow> (ip_ctl \<times> 'w) panicking"
where
  "ctl_update_config nc ch cfg = (\<lambda>(s, w).
     let current = (ic_cfg s)\<lparr>rc_dynamic := cfg\<rparr> in
     ctl_reconcile nc ch (s\<lparr>ic_cfg := current\<rparr>, w))"

definition ctl_init :: "store_order \<Rightarrow> (dns_record \<Rightarrow> (string \<times> hosts) order) \<Rightarrow> routing_config \<Rightarrow> ip_ctl \<Rightarrow> ip_ctl" where
  "ctl_init ord hosts_ord cfg s =
     fold (\<lambda>rec s.
             let iface = routing_lookup_host (hosts_ord rec) cfg (rec_domain rec) in
             if iface \<noteq> [] then
               s\<lparr>ic_routes := fst (set_add (ic_routes s)
                    \<lparr>rt_table = rule_table (rc_rule cfg), rt_iface = iface, rt_addr = rec_ip rec\<rparr>)\<rparr>
             else s)
       (store_records ord (ic_store s)) s"

definition ctl_start ::
  "('w, 'e) network_client \<Rightarrow> store_order \<Rightarrow> (dns_record \<Rightarrow> (string \<times> hosts) order) \<Rightarrow> reconcile_choice \<Rightarrow> ip_ctl \<times> 'w \<Rightarrow> (ip_ctl \<times> 'w) panicking"
where
  "ctl_start nc ord hosts_ord ch = (\<lambda>(s, w). ctl_reconcile nc ch (ctl_init ord hosts_ord (ic_cfg s) s, w))"

subsection \<open>One reconciliation as two passes\<close>

definition static_routes :: "reconcile_choice \<Rightarrow> routing_config \<Rightarrow> ip_route list" where
  "static_routes ch cfg =
     concat (map (\<lambda>(iface, addresses).
         map (\<lambda>addr. \<lparr>rt_table = rule_table (rc_rule cfg), rt_iface = iface, rt_addr = addr\<rparr>) addresses)
       (rch_static ch (rd_static (rc_dynamic cfg))))"

text \<open>The routes a reconciliation wants: those in use with a live record, and the static ones.\<close>

definition wanted_routes :: "reconcile_choice \<Rightarrow> routing_config \<Rightarrow> ip_ctl \<Rightarrow> ip_route list" where
  "wanted_routes ch cfg s =
     filter (route_live ch cfg (ic_store s)) (set_values (rch_routes ch) (ic_routes s)) @ static_routes ch cfg"

lemma fold_if_filter: "fold (\<lambda>x st. if P x then f x st else st) xs st = fold f (filter P xs) st"
  by (induction xs arbitrary: st) auto

lemma fold_fold_concat:
  "fold (\<lambda>(i, xs). fold (\<lambda>x. f (g i x)) xs) kvs st = fold f (concat (map (\<lambda>(i, xs). map (g i) xs) kvs)) st"
proof (induction kvs arbitrary: st)
  case (Cons kv kvs)
  obtain i xs where "kv = (i, xs)" by (cases kv)
  with Cons show ?case by (simp add: fold_map comp_def)
qed simp

lemma fold_reconcile_add:
  "fold (reconcile_add nc d) rs (u, sw) =
     (fold (\<lambda>r u. set_remove u r) (filter (set_has d) rs) u,
      fold (ctl_add_route_rpc nc) (filter (\<lambda>r. \<not> set_has d r) rs) sw)"
  by (induction rs arbitrary: u sw) (auto simp: reconcile_add_def)

lemma fold_set_remove:
  "set_inv u \<Longrightarrow> set_inv (fold (\<lambda>r u. set_remove u r) rs u)
     \<and> set_elems (fold (\<lambda>r u. set_remove u r) rs u) = set_elems u - set rs"
  by (induction rs arbitrary: u) auto

lemma reconcile_routes_passes:
  "reconcile_routes nc ch cfg (s, w) =
     (case load_routes nc (rule_table (rc_rule cfg)) w of
        Inl panic \<Rightarrow> Inl panic
      | Inr (defined, w1) \<Rightarrow>
          Inr (fold (ctl_delete_route nc)
                 (set_values (rch_unknown ch) (fold (\<lambda>r u. set_remove u r) (filter (set_has defined) (wanted_routes ch cfg s)) defined))
                 (fold (ctl_add_route_rpc nc) (filter (\<lambda>r. \<not> set_has defined r) (wanted_routes ch cfg s)) (s, w1))))"
proof (cases "load_routes nc (rule_table (rc_rule cfg)) w")
  case (Inr dw)
  obtain defined w1 where dw: "dw = (defined, w1)" by (cases dw)
  note static = fold_fold_concat [where f = "reconcile_add nc defined"
      and g = "\<lambda>iface addr. \<lparr>rt_table = rule_table (rc_rule cfg), rt_iface = iface, rt_addr = addr\<rparr>"]
  show ?thesis
    by (simp add: reconcile_routes_def wanted_routes_def static_routes_def Inr dw
        fold_if_filter static fold_reconcile_add Let_def)
qed (simp add: reconcile_routes_def)

subsection \<open>What the calls do to the controller\<close>

lemma add_route_rpc_state:
  "case ctl_add_route_rpc nc r (s, w) of (s', w') \<Rightarrow>
     (s' = s \<or> s' = s\<lparr>ic_routes := fst (set_add (ic_routes s) r)\<rparr>)
     \<and> w' = snd (nc_add_route nc (map_to_agent_route r) w)
     \<and> (fst (nc_add_route nc (map_to_agent_route r) w) = Inr () \<longrightarrow> s' = s\<lparr>ic_routes := fst (set_add (ic_routes s) r)\<rparr>)"
  by (auto simp: ctl_add_route_rpc_def split: prod.splits sum.splits unit.splits)

lemma delete_route_state:
  "case ctl_delete_route nc r (s, w) of (s', w') \<Rightarrow>
     (s' = s \<or> s' = s\<lparr>ic_routes := set_remove (ic_routes s) r\<rparr>)
     \<and> w' = snd (nc_delete_route nc (map_to_agent_route r) w)
     \<and> (fst (nc_delete_route nc (map_to_agent_route r) w) = Inr () \<longrightarrow> s' = s\<lparr>ic_routes := set_remove (ic_routes s) r\<rparr>)"
  by (auto simp: ctl_delete_route_def split: prod.splits sum.splits unit.splits)

lemma add_route_rpc_routes:
  "ctl_add_route_rpc nc r (s, w) = (s1, w1) \<Longrightarrow> nc_add_route nc (map_to_agent_route r) w = (res, w2) \<Longrightarrow>
   w1 = w2 \<and> ic_routes s1 = (if res = Inr () then fst (set_add (ic_routes s) r) else ic_routes s)"
  by (auto simp: ctl_add_route_rpc_def split: sum.splits unit.splits)

text \<open>Everything but the set of routes stays.\<close>

definition same_but_routes :: "ip_ctl \<Rightarrow> ip_ctl \<Rightarrow> bool" where
  "same_but_routes s s' \<longleftrightarrow> s' = s\<lparr>ic_routes := ic_routes s'\<rparr>"

lemma same_but_routes_refl [simp]: "same_but_routes s s"
  by (simp add: same_but_routes_def)

lemma same_but_routes_upd [simp]: "same_but_routes s (s\<lparr>ic_routes := x\<rparr>)"
  by (simp add: same_but_routes_def)

lemma same_but_routes_trans [trans]: "same_but_routes a b \<Longrightarrow> same_but_routes b c \<Longrightarrow> same_but_routes a c"
  unfolding same_but_routes_def by (cases a; cases b; cases c) simp

lemma same_but_routesD:
  assumes "same_but_routes s s'"
  shows "ic_cfg s' = ic_cfg s" "ic_table_id s' = ic_table_id s" "ic_store s' = ic_store s" "ic_rule s' = ic_rule s"
  using assms by (cases s; cases s'; simp add: same_but_routes_def)+

lemma fold_add_state:
  assumes "fold (ctl_add_route_rpc nc) rs (s, w) = (s', w')" and "set_inv (ic_routes s)"
  shows "same_but_routes s s' \<and> set_inv (ic_routes s')
     \<and> set_elems (ic_routes s) \<subseteq> set_elems (ic_routes s')
     \<and> set_elems (ic_routes s') \<subseteq> set_elems (ic_routes s) \<union> set rs"
  using assms
proof (induction rs arbitrary: s w)
  case (Cons r rs)
  obtain s1 w1 where 1: "ctl_add_route_rpc nc r (s, w) = (s1, w1)" by fastforce
  with add_route_rpc_state [where nc = nc and r = r and s = s and w = w] Cons.prems(2)
  have s1: "same_but_routes s s1" "set_inv (ic_routes s1)"
      "set_elems (ic_routes s) \<subseteq> set_elems (ic_routes s1)" "set_elems (ic_routes s1) \<subseteq> insert r (set_elems (ic_routes s))"
    by auto
  from Cons.prems(1) 1 have "fold (ctl_add_route_rpc nc) rs (s1, w1) = (s', w')" by simp
  from Cons.IH [OF this s1(2)] s1 show ?case by (auto intro: same_but_routes_trans)
qed simp

lemma fold_delete_state:
  assumes "fold (ctl_delete_route nc) rs (s, w) = (s', w')" and "set_inv (ic_routes s)"
  shows "same_but_routes s s' \<and> set_inv (ic_routes s')
     \<and> set_elems (ic_routes s') \<subseteq> set_elems (ic_routes s)
     \<and> set_elems (ic_routes s) - set rs \<subseteq> set_elems (ic_routes s')"
  using assms
proof (induction rs arbitrary: s w)
  case (Cons r rs)
  obtain s1 w1 where 1: "ctl_delete_route nc r (s, w) = (s1, w1)" by fastforce
  with delete_route_state [where nc = nc and r = r and s = s and w = w] Cons.prems(2)
  have s1: "same_but_routes s s1" "set_inv (ic_routes s1)"
      "set_elems (ic_routes s1) \<subseteq> set_elems (ic_routes s)" "set_elems (ic_routes s) - {r} \<subseteq> set_elems (ic_routes s1)"
    by auto
  from Cons.prems(1) 1 have "fold (ctl_delete_route nc) rs (s1, w1) = (s', w')" by simp
  from Cons.IH [OF this s1(2)] s1 show ?case by (auto intro: same_but_routes_trans)
qed simp

subsection \<open>The calls, as a log\<close>

datatype rpc =
    HasRuleCall proto_rule
  | AddRuleCall proto_rule
  | ListRoutesCall u32
  | AddRouteCall proto_route
  | DeleteRouteCall proto_route

text \<open>A client that also writes down each call it forwards to \<open>nc\<close>.\<close>

definition logged :: "('a \<Rightarrow> rpc) \<Rightarrow> ('a \<Rightarrow> 'w \<Rightarrow> 'r \<times> 'w) \<Rightarrow> 'a \<Rightarrow> 'w \<times> rpc list \<Rightarrow> 'r \<times> 'w \<times> rpc list" where
  "logged call f a = (\<lambda>(w, log). let (r, w') = f a w in (r, (w', log @ [call a])))"

definition traced :: "('w, 'e) network_client \<Rightarrow> ('w \<times> rpc list, 'e) network_client" where
  "traced nc =
     \<lparr>nc_has_rule = logged HasRuleCall (nc_has_rule nc),
      nc_add_rule = logged AddRuleCall (nc_add_rule nc),
      nc_list_routes = logged ListRoutesCall (nc_list_routes nc),
      nc_add_route = logged AddRouteCall (nc_add_route nc),
      nc_delete_route = logged DeleteRouteCall (nc_delete_route nc)\<rparr>"

lemma traced_sel [simp]:
  "nc_has_rule (traced nc) = logged HasRuleCall (nc_has_rule nc)"
  "nc_add_rule (traced nc) = logged AddRuleCall (nc_add_rule nc)"
  "nc_list_routes (traced nc) = logged ListRoutesCall (nc_list_routes nc)"
  "nc_add_route (traced nc) = logged AddRouteCall (nc_add_route nc)"
  "nc_delete_route (traced nc) = logged DeleteRouteCall (nc_delete_route nc)"
  by (simp_all add: traced_def)

lemma load_routes_traced:
  "load_routes (traced nc) t (w, log) =
     (case load_routes nc t w of
        Inl p \<Rightarrow> Inl p
      | Inr (d, w') \<Rightarrow> Inr (d, (w', log @ [ListRoutesCall (of_int t)])))"
  by (simp add: load_routes_def logged_def split: prod.split sum.split)

lemma add_route_rpc_traced:
  "ctl_add_route_rpc (traced nc) r (s, (w, log)) =
     (let (s', w') = ctl_add_route_rpc nc r (s, w) in (s', (w', log @ [AddRouteCall (map_to_agent_route r)])))"
  by (simp add: ctl_add_route_rpc_def logged_def Let_def split: prod.split sum.split unit.split)

lemma delete_route_traced:
  "ctl_delete_route (traced nc) r (s, (w, log)) =
     (let (s', w') = ctl_delete_route nc r (s, w) in (s', (w', log @ [DeleteRouteCall (map_to_agent_route r)])))"
  by (simp add: ctl_delete_route_def logged_def Let_def split: prod.split sum.split unit.split)

lemma fold_add_traced:
  "fold (ctl_add_route_rpc (traced nc)) rs (s, (w, log)) =
     (let (s', w') = fold (ctl_add_route_rpc nc) rs (s, w)
      in (s', (w', log @ map (\<lambda>r. AddRouteCall (map_to_agent_route r)) rs)))"
  by (induction rs arbitrary: s w log) (simp_all add: add_route_rpc_traced Let_def split: prod.split)

lemma fold_delete_traced:
  "fold (ctl_delete_route (traced nc)) rs (s, (w, log)) =
     (let (s', w') = fold (ctl_delete_route nc) rs (s, w)
      in (s', (w', log @ map (\<lambda>r. DeleteRouteCall (map_to_agent_route r)) rs)))"
  by (induction rs arbitrary: s w log) (simp_all add: delete_route_traced Let_def split: prod.split)

text \<open>What \<open>loadRoutes\<close> returns is a set, and its routes are of the tables the agent listed.\<close>

lemma load_all_inv:
  "fold_res load_route d rs = Inr d' \<Longrightarrow> set_inv d \<Longrightarrow> set_inv d'
     \<and> (\<forall>r \<in> set_elems d'. r \<in> set_elems d \<or> (\<exists>it \<in> set rs. rt_table r = uint (pt_table it)))"
proof (induction rs arbitrary: d)
  case (Cons it rs)
  from Cons.prems obtain d1 where d1: "load_route d it = Inr d1" and rest: "fold_res load_route d1 rs = Inr d'"
    by (auto split: sum.splits)
  from d1 Cons.prems(2) have "set_inv d1"
      "\<forall>r \<in> set_elems d1. r \<in> set_elems d \<or> rt_table r = uint (pt_table it)"
    by (auto simp: load_route_def split: sum.splits)
  with Cons.IH [OF rest] show ?case by fastforce
qed simp

lemma load_routes_inv: "load_routes nc t w = Inr (d, w') \<Longrightarrow> set_inv d"
  using load_all_inv [of "Some []"]
  by (auto simp: load_routes_def set_inv_def set_entries_def split: prod.splits sum.splits)

context network_service
begin

lemma loaded_table:
  assumes "load_routes nc t w = Inr (d, w')" and "r \<in> set_elems d"
  shows "rt_table r = uint (of_int t :: u32)"
proof (cases "nc_list_routes nc (of_int t) w")
  case (Pair res w1)
  with assms(1) show ?thesis
  proof (cases res)
    case (Inl e)
    with assms Pair show ?thesis by (simp add: load_routes_def)
  next
    case (Inr rs)
    with assms(1) Pair have "fold_res load_route (Some []) rs = Inr d"
      by (auto simp: load_routes_def split: sum.splits)
    moreover have "set_inv (Some ([] :: ip_route list))" "set_elems (Some ([] :: ip_route list)) = {}"
      by (simp_all add: set_inv_def set_elems_def set_entries_def)
    ultimately obtain it where "it \<in> set rs" "rt_table r = uint (pt_table it)"
      using load_all_inv [of "Some []" rs d] assms(2) by auto
    then show ?thesis using listed_table Pair Inr by simp
  qed
qed

end

subsection \<open>What a reconciliation wants\<close>

definition choice_ok :: "reconcile_choice \<Rightarrow> bool" where
  "choice_ok ch \<longleftrightarrow> store_order_ok (rch_purge_order ch) \<and> is_order (rch_routes ch) \<and> (\<forall>r. is_order (rch_lookup ch r))
     \<and> is_order (rch_static ch) \<and> is_order (rch_unknown ch)"

definition has_live_record :: "(dns_record \<Rightarrow> instant) \<Rightarrow> duration \<Rightarrow> dns_store \<Rightarrow> ipv4 \<Rightarrow> bool" where
  "has_live_record clock timeout store ip \<longleftrightarrow>
     (\<exists>d rec. store_get store d ip = Some rec \<and> \<not> rec_expired (clock rec) rec timeout)"

definition static_set :: "routing_config \<Rightarrow> ip_route set" where
  "static_set cfg = {r. rt_table r = rule_table (rc_rule cfg)
     \<and> (\<exists>addrs. (rt_iface r, addrs) \<in> set (rd_static (rc_dynamic cfg)) \<and> rt_addr r \<in> set addrs)}"

definition wanted_set :: "(ip_route \<Rightarrow> dns_record \<Rightarrow> instant) \<Rightarrow> routing_config \<Rightarrow> ip_ctl \<Rightarrow> ip_route set" where
  "wanted_set clock cfg s =
     {r \<in> set_elems (ic_routes s).
        has_live_record (clock r) (rd_route_timeout (rc_dynamic cfg)) (ic_store s) (rt_addr r)} \<union> static_set cfg"

lemma route_live_iff:
  assumes "choice_ok ch" and "store_inv store"
  shows "route_live ch cfg store r \<longleftrightarrow>
     has_live_record (rch_clock ch r) (rd_route_timeout (rc_dynamic cfg)) store (rt_addr r)"
proof -
  have lookup: "rec \<in> set (store_lookup_ip (rch_lookup ch r) store (rt_addr r)) \<longleftrightarrow>
      store_get store (rec_domain rec) (rt_addr r) = Some rec" for rec
    using assms by (intro store_lookup_ip_set) (simp_all add: choice_ok_def)
  have key: "rec_domain rec = d" if "store_get store d ip = Some rec" for d ip rec
    using store_invD(4) [OF assms(2)] that by blast
  show ?thesis
    unfolding route_live_def has_live_record_def remove_expired_records_def length_greater_0_conv filter_empty_conv
    using lookup key by blast
qed

lemma static_routes_set: "is_order (rch_static ch) \<Longrightarrow> set (static_routes ch cfg) = static_set cfg"
proof -
  assume ord: "is_order (rch_static ch)"
  show ?thesis
  proof (intro set_eqI iffI)
    fix r assume "r \<in> set (static_routes ch cfg)"
    with ord show "r \<in> static_set cfg" by (auto simp: static_routes_def static_set_def)
  next
    fix r assume "r \<in> static_set cfg"
    then obtain addrs where r: "rt_table r = rule_table (rc_rule cfg)"
        "(rt_iface r, addrs) \<in> set (rd_static (rc_dynamic cfg))" "rt_addr r \<in> set addrs"
      by (auto simp: static_set_def)
    then have "r \<in> (\<lambda>addr. \<lparr>rt_table = rule_table (rc_rule cfg), rt_iface = rt_iface r, rt_addr = addr\<rparr>) ` set addrs"
      by (intro image_eqI [of _ _ "rt_addr r"]) (auto intro: ip_route.equality)
    with r(2) ord show "r \<in> set (static_routes ch cfg)"
      by (force simp: static_routes_def)
  qed
qed

lemma wanted_routes_set:
  assumes "choice_ok ch" and "store_inv (ic_store s)"
  shows "set (wanted_routes ch cfg s) = wanted_set (rch_clock ch) cfg s"
  using assms(1)
  by (auto simp: wanted_routes_def wanted_set_def route_live_iff [OF assms] choice_ok_def set_values_set static_routes_set)

text \<open>The listing panics exactly when \<open>ParseIPv4\<close> panics on one of its addresses.\<close>

lemma load_routes_panics_iff:
  "isl (load_routes nc table w) \<longleftrightarrow>
     (\<exists>rs w1. nc_list_routes nc (of_int table) w = (Inr rs, w1) \<and> (\<exists>it \<in> set rs. isl (parse_ipv4 (pt_address it))))"
proof -
  have step: "isl (load_route d it) \<longleftrightarrow> isl (parse_ipv4 (pt_address it))" for d it
    by (auto simp: load_route_def split: sum.splits)
  have "isl (fold_res load_route d rs) \<longleftrightarrow> (\<exists>it \<in> set rs. isl (parse_ipv4 (pt_address it)))" for d rs
  proof (induction rs arbitrary: d)
    case (Cons it rs)
    with step [of d it] show ?case by (cases "load_route d it") auto
  qed simp
  note none = this [of "Some []"]
  obtain res w1 where list: "nc_list_routes nc (of_int table) w = (res, w1)" by fastforce
  show ?thesis
  proof (cases res)
    case (Inr rs)
    with none [of rs] show ?thesis
      by (cases "fold_res load_route (Some []) rs") (simp_all add: load_routes_def list)
  qed (simp add: load_routes_def list)
qed

text \<open>The outcome of a reconciliation, with its calls.\<close>

lemma reconcile_routes_log:
  assumes "choice_ok ch" and "set_inv (ic_routes s)" and "store_inv (ic_store s)"
    and "load_routes nc (rule_table (rc_rule cfg)) w = Inr (defined, w1)"
  shows "\<exists>s' w' adds dels.
     reconcile_routes nc ch cfg (s, w) = Inr (s', w')
     \<and> reconcile_routes (traced nc) ch cfg (s, (w, log)) =
         Inr (s', (w', log @ ListRoutesCall (of_int (rule_table (rc_rule cfg)))
                    # map (\<lambda>r. AddRouteCall (map_to_agent_route r)) adds
                    @ map (\<lambda>r. DeleteRouteCall (map_to_agent_route r)) dels))
     \<and> set adds = wanted_set (rch_clock ch) cfg s - set_elems defined
     \<and> set dels = set_elems defined - wanted_set (rch_clock ch) cfg s \<and> distinct dels
     \<and> same_but_routes s s' \<and> set_inv (ic_routes s')
     \<and> set_elems (ic_routes s) - set dels \<subseteq> set_elems (ic_routes s')
     \<and> set_elems (ic_routes s') \<subseteq> set_elems (ic_routes s) \<union> set adds"
proof -
  let ?wanted = "wanted_routes ch cfg s"
  let ?adds = "filter (\<lambda>r. \<not> set_has defined r) ?wanted"
  let ?unknown = "fold (\<lambda>r u. set_remove u r) (filter (set_has defined) ?wanted) defined"
  let ?dels = "set_values (rch_unknown ch) ?unknown"
  have dinv: "set_inv defined" by (rule load_routes_inv [OF assms(4)])
  note unknown = fold_set_remove [OF dinv, of "filter (set_has defined) ?wanted"]
  have set_w: "set ?wanted = wanted_set (rch_clock ch) cfg s" using wanted_routes_set assms(1,3) by blast
  obtain s1 w2 where adds: "fold (ctl_add_route_rpc nc) ?adds (s, w1) = (s1, w2)" by fastforce
  obtain s2 w3 where dels: "fold (ctl_delete_route nc) ?dels (s1, w2) = (s2, w3)" by fastforce
  note a = fold_add_state [OF adds assms(2)]
  note d = fold_delete_state [OF dels conjunct1 [OF conjunct2 [OF a]]]
  have "set ?adds = wanted_set (rch_clock ch) cfg s - set_elems defined"
    using dinv by (auto simp: set_w [symmetric])
  moreover have "set ?dels = set_elems defined - wanted_set (rch_clock ch) cfg s"
    using dinv unknown assms(1) by (auto simp: set_values_set choice_ok_def set_w [symmetric])
  moreover have "distinct ?dels"
    using unknown assms(1) by (simp add: set_values_distinct choice_ok_def)
  moreover have "reconcile_routes nc ch cfg (s, w) = Inr (s2, w3)"
    by (simp add: reconcile_routes_passes assms(4) adds dels)
  moreover have "reconcile_routes (traced nc) ch cfg (s, (w, log)) =
      Inr (s2, (w3, log @ ListRoutesCall (of_int (rule_table (rc_rule cfg)))
                 # map (\<lambda>r. AddRouteCall (map_to_agent_route r)) ?adds
                 @ map (\<lambda>r. DeleteRouteCall (map_to_agent_route r)) ?dels))"
    by (simp add: reconcile_routes_passes load_routes_traced assms(4) fold_add_traced fold_delete_traced adds dels)
  moreover have "same_but_routes s s2" using a d same_but_routes_trans by blast
  moreover have "set_inv (ic_routes s2)" using d by blast
  moreover have "set_elems (ic_routes s) - set ?dels \<subseteq> set_elems (ic_routes s2)"
      "set_elems (ic_routes s2) \<subseteq> set_elems (ic_routes s) \<union> set ?adds"
    using a d by blast+
  ultimately show ?thesis
    by (intro exI [of _ s2] exI [of _ w3] exI [of _ ?adds] exI [of _ ?dels] conjI)
qed

subsection \<open>The controller as a state machine\<close>

text \<open>
  A reconciliation takes \<open>routesMu\<close> only for its last part, and the service adds records and routes
  at any time; so the clean-up, the rules and the routes are steps of their own, the last two
  with a configuration that was current when the reconciliation began.
\<close>

inductive ctl_step :: "('w, 'e) network_client \<Rightarrow> ip_ctl \<times> 'w \<Rightarrow> ip_ctl \<times> 'w \<Rightarrow> bool" for nc where
  add_route: "ipv4_ok ip \<Longrightarrow> ctl_step nc (s, w) (ctl_add_route nc iface ip (s, w))"
| add_record: "ctl_step nc (s, w) (s\<lparr>ic_store := store_add (ic_store s) r\<rparr>, w)"
| purge: "choice_ok ch \<Longrightarrow> ctl_step nc (s, w)
     (s\<lparr>ic_store := store_remove_expired (rch_purge_order ch) (rch_purge_clock ch) (ic_store s) timeout\<rparr>, w)"
| rules: "rc_rule cfg = rc_rule (ic_cfg s) \<Longrightarrow> ctl_step nc (s, w) (reconcile_rules nc cfg (s, w))"
| routes: "rc_rule cfg = rc_rule (ic_cfg s) \<Longrightarrow> choice_ok ch \<Longrightarrow> reconcile_routes nc ch cfg (s, w) = Inr sw'
     \<Longrightarrow> ctl_step nc (s, w) sw'"
| new_config: "ctl_step nc (s, w) (s\<lparr>ic_cfg := (ic_cfg s)\<lparr>rc_dynamic := d\<rparr>\<rparr>, w)"

inductive_cases ctl_stepE [consumes 1, case_names add_route add_record purge rules routes new_config]:
  "ctl_step nc (s, w) sw'"

definition ctl_inv :: "int \<Rightarrow> ip_ctl \<Rightarrow> bool" where
  "ctl_inv t s \<longleftrightarrow> set_inv (ic_routes s) \<and> store_inv (ic_store s)
     \<and> ic_table_id s = t \<and> rule_table (rc_rule (ic_cfg s)) = t
     \<and> (\<forall>r \<in> set_elems (ic_routes s). rt_table r = t)"

lemma wanted_table: "ctl_inv t s \<Longrightarrow> rule_table (rc_rule cfg) = t \<Longrightarrow> r \<in> wanted_set clock cfg s \<Longrightarrow> rt_table r = t"
  by (auto simp: wanted_set_def static_set_def ctl_inv_def)

lemma ctl_inv_same: "ctl_inv t s \<Longrightarrow> same_but_routes s s' \<Longrightarrow> set_inv (ic_routes s')
   \<Longrightarrow> \<forall>r \<in> set_elems (ic_routes s'). rt_table r = t \<Longrightarrow> ctl_inv t s'"
  using same_but_routesD [of s s'] by (auto simp: ctl_inv_def)

definition call_table :: "rpc \<Rightarrow> u32" where
  "call_table c = (case c of HasRuleCall r \<Rightarrow> pr_table r | AddRuleCall r \<Rightarrow> pr_table r | ListRoutesCall t \<Rightarrow> t
     | AddRouteCall r \<Rightarrow> pt_table r | DeleteRouteCall r \<Rightarrow> pt_table r)"

lemma reconcile_rules_log:
  "reconcile_rules (traced nc) cfg (s, (w, log)) = (s', (w', log')) \<Longrightarrow>
     s' = s \<and> (log' = log @ [HasRuleCall (map_to_agent_rule (rc_rule cfg))]
             \<or> log' = log @ [HasRuleCall (map_to_agent_rule (rc_rule cfg)), AddRuleCall (map_to_agent_rule (rc_rule cfg))])"
  by (auto simp: reconcile_rules_def logged_def ctl_add_rule_def Let_def split: prod.splits sum.splits if_splits)

lemma add_route_log:
  assumes "ctl_add_route (traced nc) iface ip (s, (w, log)) = (s', (w', log'))" and "ctl_inv t s"
  shows "ctl_inv t s' \<and> (log' = log \<or> log' = log @ [AddRouteCall (map_to_agent_route
            \<lparr>rt_table = t, rt_iface = iface, rt_addr = ip\<rparr>)])"
  using assms
  by (auto simp: ctl_add_route_def ctl_add_route_rpc_def logged_def Let_def ctl_inv_def
      split: prod.splits sum.splits unit.splits if_splits)

context network_service
begin

lemma routes_step_log:
  assumes "reconcile_routes (traced nc) ch cfg (s, (w, log)) = Inr (s', (w', log'))"
    and "choice_ok ch" and "ctl_inv t s" and "rule_table (rc_rule cfg) = t" and "0 \<le> t" and "t < 2 ^ 32"
  shows "ctl_inv t s' \<and> (\<exists>calls. log' = log @ calls \<and> (\<forall>c \<in> set calls. call_table c = of_int t))"
proof -
  from assms(1) obtain defined w1 where load: "load_routes nc t w = Inr (defined, w1)"
    by (auto simp: reconcile_routes_passes load_routes_traced assms(4) split: sum.splits prod.splits)
  have inv: "set_inv (ic_routes s)" "store_inv (ic_store s)" using assms(3) by (auto simp: ctl_inv_def)
  have u: "uint (of_int t :: u32) = t" using assms(5,6) by (simp add: uint_word_of_int_eq take_bit_int_eq_self)
  from reconcile_routes_log [OF assms(2) inv load [folded assms(4)], of log] assms(1,4) obtain adds dels where
    log: "log' = log @ ListRoutesCall (of_int t) # map (\<lambda>r. AddRouteCall (map_to_agent_route r)) adds
                    @ map (\<lambda>r. DeleteRouteCall (map_to_agent_route r)) dels"
    and adds: "set adds = wanted_set (rch_clock ch) cfg s - set_elems defined"
    and dels: "set dels \<subseteq> set_elems defined"
    and s': "same_but_routes s s'" "set_inv (ic_routes s')" "set_elems (ic_routes s') \<subseteq> set_elems (ic_routes s) \<union> set adds"
    by auto
  have a: "rt_table r = t" if "r \<in> set adds" for r
    using that adds wanted_table [OF assms(3,4)] by blast
  have d: "rt_table r = t" if "r \<in> set dels" for r
    using that dels loaded_table [OF load] u by auto
  have "\<forall>r \<in> set_elems (ic_routes s'). rt_table r = t"
    using s'(3) a assms(3) unfolding ctl_inv_def by blast
  with ctl_inv_same [OF assms(3) s'(1,2)] have inv': "ctl_inv t s'" by blast
  have on: "\<forall>c \<in> set (ListRoutesCall (of_int t) # map (\<lambda>r. AddRouteCall (map_to_agent_route r)) adds
      @ map (\<lambda>r. DeleteRouteCall (map_to_agent_route r)) dels). call_table c = of_int t"
    using a d by (simp add: call_table_def map_to_agent_route_def ball_Un)
  show ?thesis
    by (rule conjI [OF inv'], rule exI, rule conjI [OF log on])
qed

lemma step_log:
  assumes "ctl_step (traced nc) (s, (w, log)) (s', (w', log'))" and "ctl_inv t s" and "0 \<le> t" and "t < 2 ^ 32"
  shows "ctl_inv t s' \<and> (\<exists>calls. log' = log @ calls \<and> (\<forall>c \<in> set calls. call_table c = of_int t))"
  using assms(1)
proof (cases rule: ctl_stepE)
  case (add_route ip iface)
  from add_route_log [OF add_route(1) [symmetric] assms(2)] show ?thesis
    by (auto simp: call_table_def map_to_agent_route_def)
next
  case (rules cfg)
  have "rule_table (rc_rule cfg) = t" using rules(2) assms(2) by (simp add: ctl_inv_def)
  with reconcile_rules_log [OF rules(1) [symmetric]] assms(2) show ?thesis
    by (auto simp: call_table_def map_to_agent_rule_def)
next
  case (routes cfg ch)
  have "rule_table (rc_rule cfg) = t" using routes(1) assms(2) by (simp add: ctl_inv_def)
  with routes_step_log [of ch cfg s w log s' w' log' t] routes assms show ?thesis by blast
qed (use assms(2) in \<open>auto simp: ctl_inv_def choice_ok_def store_get_remove_expired(1)\<close>)

lemma run_log:
  assumes "(ctl_step (traced nc))\<^sup>*\<^sup>* (s0, (w0, [])) (s, (w, log))"
    and "ctl_inv t s0" and "0 \<le> t" and "t < 2 ^ 32"
  shows "ctl_inv t s \<and> (\<forall>c \<in> set log. call_table c = of_int t)"
proof -
  have "case sw of (s, (w, log)) \<Rightarrow> ctl_inv t s \<and> (\<forall>c \<in> set log. call_table c = of_int t)"
    if "(ctl_step (traced nc))\<^sup>*\<^sup>* (s0, (w0, [])) sw" for sw
    using that
  proof (induction rule: rtranclp_induct)
    case base
    show ?case using assms(2) by simp
  next
    case (step y z)
    obtain s w log s' w' log' where "y = (s, (w, log))" "z = (s', (w', log'))" by (cases y; cases z) auto
    with step step_log [of s w log s' w' log' t] assms(3,4) show ?case by auto
  qed
  from this [OF assms(1)] show ?thesis by simp
qed

end

subsection \<open>Properties\<close>

text \<open>C9: One reconciliation first lists the table. When an address of the list makes \<open>ParseIPv4\<close> panic
  (\<open>default\<close> is one), and only then, the reconciliation panics there: the panic is the same whatever adding and deleting
  would do, so before any of them. In every other case, a failed listing included, the listing is followed by requests for
  exactly the wanted routes that are not listed (one that is both remembered and static may be asked for twice), and
  only then by the deletion of exactly the listed routes that are not wanted, each once; when the listing fails
  nothing is deleted. It never touches the rest of the controller, and forgets no route but those it asked to delete.\<close>

theorem reconcile_calls:
  assumes "choice_ok ch" and "set_inv (ic_routes s)" and "store_inv (ic_store s)"
  shows "case load_routes nc (rule_table (rc_rule cfg)) w of
       Inl panic \<Rightarrow>
         (\<exists>rs w1. nc_list_routes nc (of_int (rule_table (rc_rule cfg))) w = (Inr rs, w1)
            \<and> (\<exists>it \<in> set rs. isl (parse_ipv4 (pt_address it))))
         \<and> reconcile_routes (traced nc) ch cfg (s, (w, [])) = Inl panic
         \<and> (\<forall>add_fn delete_fn. reconcile_routes (nc\<lparr>nc_add_route := add_fn, nc_delete_route := delete_fn\<rparr>) ch cfg (s, w) = Inl panic)
     | Inr (defined, w1) \<Rightarrow>
         \<not> (\<exists>rs w1. nc_list_routes nc (of_int (rule_table (rc_rule cfg))) w = (Inr rs, w1)
            \<and> (\<exists>it \<in> set rs. isl (parse_ipv4 (pt_address it))))
         \<and> (\<exists>s' w' adds dels.
             reconcile_routes (traced nc) ch cfg (s, (w, [])) =
                 Inr (s', (w', ListRoutesCall (of_int (rule_table (rc_rule cfg)))
                            # map (\<lambda>r. AddRouteCall (map_to_agent_route r)) adds
                            @ map (\<lambda>r. DeleteRouteCall (map_to_agent_route r)) dels))
             \<and> set adds = wanted_set (rch_clock ch) cfg s - set_elems defined
             \<and> set dels = set_elems defined - wanted_set (rch_clock ch) cfg s \<and> distinct dels
             \<and> (isl (fst (nc_list_routes nc (of_int (rule_table (rc_rule cfg))) w)) \<longrightarrow> dels = [])
             \<and> same_but_routes s s'
             \<and> set_elems (ic_routes s) - set dels \<subseteq> set_elems (ic_routes s')
             \<and> set_elems (ic_routes s') \<subseteq> set_elems (ic_routes s) \<union> set adds)"
proof (cases "load_routes nc (rule_table (rc_rule cfg)) w")
  case (Inl panic)
  have "load_routes (nc\<lparr>nc_add_route := a, nc_delete_route := d\<rparr>) (rule_table (rc_rule cfg)) w = Inl panic" for a d
    using Inl by (simp add: load_routes_def)
  with Inl load_routes_panics_iff [of nc "rule_table (rc_rule cfg)" w] show ?thesis
    by (simp add: reconcile_routes_passes load_routes_traced)
next
  case (Inr p)
  obtain defined w1 where p: "p = (defined, w1)" by (cases p)
  have "defined = None" if "isl (fst (nc_list_routes nc (of_int (rule_table (rc_rule cfg))) w))"
    using that Inr by (auto simp: p load_routes_def isl_def split: prod.splits)
  with reconcile_routes_log [OF assms Inr [unfolded p], of "[]"] load_routes_panics_iff [of nc "rule_table (rc_rule cfg)" w]
  show ?thesis by (simp add: Inr p) fastforce
qed

definition sample_choice :: reconcile_choice where
  "sample_choice = \<lparr>rch_purge_order = (rev, rev), rch_purge_clock = (\<lambda>r. 100), rch_routes = rev,
     rch_lookup = (\<lambda>r. rev), rch_clock = (\<lambda>r rec. 100), rch_static = rev, rch_unknown = rev\<rparr>"

lemma sample_choice_ok: "choice_ok sample_choice"
  by (simp add: choice_ok_def sample_choice_def store_order_ok_def)

definition sample_ctl :: ip_ctl where
  "sample_ctl = new_ip_route_controller sample_routing new_dns_store (60 * second) second"

text \<open>A router that lists one fixed address and accepts every change.\<close>

definition fixed_client :: "string \<Rightarrow> (unit, unit) network_client" where
  "fixed_client addr =
     \<lparr>nc_has_rule = (\<lambda>r w. (Inr True, w)), nc_add_rule = (\<lambda>r w. (Inr (), w)),
      nc_list_routes = (\<lambda>t w. (Inr [\<lparr>pt_table = t, pt_iface = ''tun0'', pt_address = addr\<rparr>], w)),
      nc_add_route = (\<lambda>r w. (Inr (), w)), nc_delete_route = (\<lambda>r w. (Inr (), w))\<rparr>"

lemma sample_ctl_sel [simp]:
  "ic_routes sample_ctl = None" "ic_store sample_ctl = new_dns_store" "ic_cfg sample_ctl = sample_routing"
  "rule_table (rc_rule sample_routing) = 1000" "ic_table_id sample_ctl = 1000"
  by (simp_all add: sample_ctl_def new_ip_route_controller_def sample_routing_def sample_rule_def)

definition sample_listed :: ip_route where
  "sample_listed = \<lparr>rt_table = 1000, rt_iface = ''tun0'', rt_addr = IPv4 1 2 3 4 32\<rparr>"

lemma sample_load:
  "load_routes (fixed_client ''1.2.3.4'') (rule_table (rc_rule sample_routing)) w = Inr (Some [sample_listed], w)"
  by (simp add: load_routes_def fixed_client_def load_route_def parse_ipv4_eval set_add_def sample_listed_def)

lemma sample_wanted:
  "wanted_set clock sample_routing sample_ctl = {\<lparr>rt_table = 1000, rt_iface = ''tun0'', rt_addr = IPv4 10 0 0 0 8\<rparr>}"
proof -
  have "static_set sample_routing = {\<lparr>rt_table = 1000, rt_iface = ''tun0'', rt_addr = IPv4 10 0 0 0 8\<rparr>}"
  proof (intro set_eqI iffI)
    fix r :: ip_route
    assume "r \<in> static_set sample_routing"
    then show "r \<in> {\<lparr>rt_table = 1000, rt_iface = ''tun0'', rt_addr = IPv4 10 0 0 0 8\<rparr>}"
      by (cases r) (simp add: static_set_def sample_routing_def sample_rule_def)
  qed (simp add: static_set_def sample_routing_def sample_rule_def)
  then show ?thesis by (simp add: wanted_set_def)
qed

theorem reconcile_calls_witness:
  "\<exists>s' w' log panic.
     reconcile_routes (traced (fixed_client ''1.2.3.4'')) sample_choice sample_routing (sample_ctl, ((), [])) = Inr (s', (w', log))
     \<and> last log = DeleteRouteCall (map_to_agent_route sample_listed)
     \<and> reconcile_routes (traced (fixed_client ''default'')) sample_choice sample_routing (sample_ctl, ((), [])) = Inl panic"
proof -
  have inv: "set_inv (ic_routes sample_ctl)" "store_inv (ic_store sample_ctl)" by simp_all
  note call = reconcile_calls [OF sample_choice_ok inv]
  from call [of "fixed_client ''1.2.3.4''" sample_routing "()", unfolded sample_load] obtain s' w' adds dels
    where r: "reconcile_routes (traced (fixed_client ''1.2.3.4'')) sample_choice sample_routing (sample_ctl, ((), [])) =
        Inr (s', (w', ListRoutesCall (of_int (rule_table (rc_rule sample_routing)))
                    # map (\<lambda>r. AddRouteCall (map_to_agent_route r)) adds
                    @ map (\<lambda>r. DeleteRouteCall (map_to_agent_route r)) dels))"
      and d: "set dels = set_elems (Some [sample_listed]) - wanted_set (rch_clock sample_choice) sample_routing sample_ctl"
    unfolding sum.case prod.case by blast
  have dels: "set dels = {sample_listed}"
    unfolding d sample_wanted by (auto simp: set_elems_def set_entries_def sample_listed_def)
  then have ne: "dels \<noteq> []" by force
  then have "last dels = sample_listed" using last_in_set [OF ne] dels by simp
  with ne have last: "last (ListRoutesCall (of_int (rule_table (rc_rule sample_routing)))
                    # map (\<lambda>r. AddRouteCall (map_to_agent_route r)) adds
                    @ map (\<lambda>r. DeleteRouteCall (map_to_agent_route r)) dels) = DeleteRouteCall (map_to_agent_route sample_listed)"
    by (simp add: last_map)
  have "isl (load_routes (fixed_client ''default'') (rule_table (rc_rule sample_routing)) ())"
    by (simp add: load_routes_def fixed_client_def load_route_def parse_ipv4_eval)
  then obtain panic where panic: "load_routes (fixed_client ''default'') (rule_table (rc_rule sample_routing)) () = Inl panic"
    by (auto simp: isl_def)
  from call [of "fixed_client ''default''" sample_routing "()", unfolded panic]
  have "reconcile_routes (traced (fixed_client ''default'')) sample_choice sample_routing (sample_ctl, ((), [])) = Inl panic" by simp
  with r last show ?thesis by blast
qed

text \<open>once the table holds exactly what is wanted, a reconciliation only lists it: it adds and
  deletes nothing, and the set of routes stays as it is.\<close>

theorem reconcile_stable:
  assumes "choice_ok ch" and "set_inv (ic_routes s)" and "store_inv (ic_store s)"
    and "load_routes nc (rule_table (rc_rule cfg)) w = Inr (defined, w1)"
    and "set_elems defined = wanted_set (rch_clock ch) cfg s"
  shows "reconcile_routes (traced nc) ch cfg (s, (w, [])) =
     Inr (s, (w1, [ListRoutesCall (of_int (rule_table (rc_rule cfg)))]))"
proof -
  have dinv: "set_inv defined" by (rule load_routes_inv [OF assms(4)])
  have set_w: "set (wanted_routes ch cfg s) = set_elems defined"
    using wanted_routes_set [OF assms(1,3)] assms(5) by simp
  have adds: "filter (\<lambda>r. \<not> set_has defined r) (wanted_routes ch cfg s) = []"
    using dinv by (auto simp: filter_empty_conv set_w)
  let ?unknown = "fold (\<lambda>r u. set_remove u r) (filter (set_has defined) (wanted_routes ch cfg s)) defined"
  have "set (set_values (rch_unknown ch) ?unknown) = {}"
    using fold_set_remove [OF dinv, of "filter (set_has defined) (wanted_routes ch cfg s)"] dinv assms(1)
    by (auto simp: set_values_set choice_ok_def set_w)
  then have dels: "set_values (rch_unknown ch) ?unknown = []" by simp
  show ?thesis
    unfolding reconcile_routes_passes load_routes_traced assms(4) sum.case prod.case adds dels by simp
qed

theorem reconcile_stable_witness:
  "reconcile_routes (traced (fixed_client ''10.0.0.0/8'')) sample_choice sample_routing (sample_ctl, ((), [])) =
     Inr (sample_ctl, ((), [ListRoutesCall 1000]))"
proof -
  let ?r = "\<lparr>rt_table = 1000, rt_iface = ''tun0'', rt_addr = IPv4 10 0 0 0 8\<rparr>"
  have load: "load_routes (fixed_client ''10.0.0.0/8'') (rule_table (rc_rule sample_routing)) () = Inr (Some [?r], ())"
    by (simp add: load_routes_def fixed_client_def load_route_def parse_ipv4_eval set_add_def)
  have "set_elems (Some [?r]) = wanted_set (rch_clock sample_choice) sample_routing sample_ctl"
    unfolding sample_wanted by (simp add: set_elems_def set_entries_def)
  from reconcile_stable [OF sample_choice_ok _ _ load this] show ?thesis by simp
qed

text \<open>C19: in any interleaving of resolved names, clean-ups, reconciliations and configuration updates,
  with any answers of the router, the controller calls the agent for its own table only: no rule or
  route of another table is ever added, listed or deleted, and all its routes stay in that table.\<close>

theorem controller_stays_in_table:
  assumes "(ctl_step (traced (agent_client ip detail_ok)))\<^sup>*\<^sup>* (s0, (w0, [])) (s, (w, log))"
    and "ctl_inv t s0" and "0 \<le> t" and "t < 2 ^ 32"
  shows "ctl_inv t s \<and> (\<forall>c \<in> set log. call_table c = of_int t)"
  by (rule agent.run_log [OF assms])

lemma new_ctl_inv: "store_inv store \<Longrightarrow> ctl_inv (rule_table (rc_rule cfg)) (new_ip_route_controller cfg store i t)"
  by (simp add: ctl_inv_def new_ip_route_controller_def)

theorem controller_stays_in_table_witness:
  "\<exists>s w log. (ctl_step (traced (agent_client (\<lambda>args w. (([], None), w)) (\<lambda>d. True))))\<^sup>*\<^sup>* (sample_ctl, ((), [])) (s, (w, log))
     \<and> log \<noteq> [] \<and> ctl_inv 1000 s \<and> (\<forall>c \<in> set log. call_table c = 1000)"
proof -
  let ?nc = "agent_client (\<lambda>args w. (([], None), w)) (\<lambda>d. True)"
  obtain s w log where r: "ctl_add_route (traced ?nc) ''tun0'' (IPv4 1 2 3 4 32) (sample_ctl, ((), [])) = (s, (w, log))"
    by (metis prod_cases3)
  have "ipv4_ok (IPv4 1 2 3 4 32)" by (simp add: ipv4_ok_def)
  from ctl_step.add_route [OF this, of "traced ?nc" sample_ctl "((), [])" "''tun0''"] r
  have "(ctl_step (traced ?nc))\<^sup>*\<^sup>* (sample_ctl, ((), [])) (s, (w, log))" by auto
  moreover have "ctl_inv 1000 sample_ctl"
    using new_ctl_inv [OF new_store_inv, of sample_routing] by (simp add: sample_ctl_def)
  moreover have "log \<noteq> []"
    using r by (auto simp: ctl_add_route_def ctl_add_route_rpc_def logged_def Let_def set_has_def set_entries_def
        split: prod.splits sum.splits unit.splits)
  ultimately show ?thesis
    using controller_stays_in_table [where t = 1000 and ?s0.0 = sample_ctl] by fastforce
qed

text \<open>\<open>AddRoute\<close> asks the router only for a route it does not already hold; the route is remembered
  only when the router accepted it, so that a refused route is asked for again and an accepted one is
  not.\<close>

theorem add_route_once:
  assumes "set_inv (ic_routes s)" and "ctl_add_route nc iface ip (s, w) = (s1, w1)"
    and "route = \<lparr>rt_table = ic_table_id s, rt_iface = iface, rt_addr = ip\<rparr>"
  shows "if set_has (ic_routes s) route then s1 = s \<and> w1 = w
     else w1 = snd (nc_add_route nc (map_to_agent_route route) w)
        \<and> (if isl (fst (nc_add_route nc (map_to_agent_route route) w)) then s1 = s
           else set_has (ic_routes s1) route \<and> ctl_add_route nc iface ip (s1, w1) = (s1, w1))"
  using assms
  by (auto simp: ctl_add_route_def ctl_add_route_rpc_def Let_def split: prod.splits sum.splits unit.splits)

theorem add_route_once_witness:
  "let r = ctl_add_route (fixed_client []) ''tun0'' (IPv4 1 2 3 4 32) (sample_ctl, ()) in
   ctl_add_route (fixed_client []) ''tun0'' (IPv4 1 2 3 4 32) r = r \<and> set_has (ic_routes (fst r)) sample_listed"
proof -
  obtain s1 w1 where r: "ctl_add_route (fixed_client []) ''tun0'' (IPv4 1 2 3 4 32) (sample_ctl, ()) = (s1, w1)"
    by (cases "ctl_add_route (fixed_client []) ''tun0'' (IPv4 1 2 3 4 32) (sample_ctl, ())")
  have "isl (fst (nc_add_route (fixed_client []) x ())) = False" for x by (simp add: fixed_client_def)
  moreover have "\<not> set_has (ic_routes sample_ctl) x" for x by (simp add: set_has_def set_entries_def)
  ultimately show ?thesis
    using add_route_once [OF _ r refl] unfolding r Let_def by (simp add: sample_listed_def)
qed

text \<open>a route the controller remembers, which the router no longer lists and which has no live
  record, survives every reconciliation; a name resolved to it later is then not routed by \<open>AddRoute\<close>,
  which makes no call, but only by the reconciliation after it.\<close>

theorem stale_route_blocks_add:
  assumes "choice_ok ch" and "set_inv (ic_routes s)" and "store_inv (ic_store s)"
    and "load_routes nc (rule_table (rc_rule cfg)) w = Inr (defined, w1)"
    and "reconcile_routes nc ch cfg (s, w) = Inr (s', w')"
    and "r \<in> set_elems (ic_routes s)" and "r \<notin> set_elems defined" and "rt_table r = ic_table_id s"
  shows "r \<in> set_elems (ic_routes s') \<and> ctl_add_route nc (rt_iface r) (rt_addr r) (s', w'') = (s', w'')"
proof -
  from reconcile_routes_log [OF assms(1-4), of "[]"] assms(5) obtain dels where
    "same_but_routes s s'" "set_inv (ic_routes s')" "set dels \<subseteq> set_elems defined"
    "set_elems (ic_routes s) - set dels \<subseteq> set_elems (ic_routes s')" by auto
  moreover have "\<lparr>rt_table = ic_table_id s, rt_iface = rt_iface r, rt_addr = rt_addr r\<rparr> = r"
    using assms(8) by (simp flip: assms(8))
  ultimately show ?thesis
    using assms(6,7) same_but_routesD(2) [of s s'] by (auto simp: ctl_add_route_def Let_def)
qed

theorem stale_route_blocks_add_witness:
  "let s = sample_ctl\<lparr>ic_routes := Some [sample_listed]\<rparr> in
   case reconcile_routes (fixed_client ''10.0.0.0/8'') sample_choice sample_routing (s, ()) of
     Inl p \<Rightarrow> False
   | Inr (s', w') \<Rightarrow> ctl_add_route (fixed_client ''10.0.0.0/8'') ''tun0'' (IPv4 1 2 3 4 32) (s', ()) = (s', ())"
proof -
  let ?nc = "fixed_client ''10.0.0.0/8''"
  let ?r = "\<lparr>rt_table = 1000, rt_iface = ''tun0'', rt_addr = IPv4 10 0 0 0 8\<rparr>"
  let ?s = "sample_ctl\<lparr>ic_routes := Some [sample_listed]\<rparr>"
  have load: "load_routes ?nc (rule_table (rc_rule sample_routing)) () = Inr (Some [?r], ())"
    by (simp add: load_routes_def fixed_client_def load_route_def parse_ipv4_eval set_add_def)
  have inv: "set_inv (ic_routes ?s)" "store_inv (ic_store ?s)"
    by (simp_all add: set_inv_def set_entries_def)
  from reconcile_routes_log [OF sample_choice_ok inv load, of "[]"] obtain s' w' where
    run: "reconcile_routes ?nc sample_choice sample_routing (?s, ()) = Inr (s', w')" by blast
  have "sample_listed \<in> set_elems (ic_routes ?s)" "sample_listed \<notin> set_elems (Some [?r])"
    by (simp_all add: set_elems_def set_entries_def sample_listed_def)
  from stale_route_blocks_add [OF sample_choice_ok inv load run this, of "()"] run show ?thesis
    by (simp add: Let_def) (simp add: sample_listed_def)
qed

lemma fold_init:
  "set_inv (ic_routes s) \<Longrightarrow>
   (let s' = fold (\<lambda>rec s. if f rec \<noteq> [] then s\<lparr>ic_routes := fst (set_add (ic_routes s) (g rec))\<rparr> else s) recs s
    in same_but_routes s s' \<and> set_inv (ic_routes s')
       \<and> set_elems (ic_routes s') = set_elems (ic_routes s) \<union> g ` {rec \<in> set recs. f rec \<noteq> []})"
proof (induction recs arbitrary: s)
  case (Cons rec recs)
  let ?s1 = "if f rec \<noteq> [] then s\<lparr>ic_routes := fst (set_add (ic_routes s) (g rec))\<rparr> else s"
  have "set_inv (ic_routes ?s1)" "same_but_routes s ?s1" using Cons.prems by simp_all
  with Cons.IH [of ?s1] Cons.prems show ?case
    by (auto simp: Let_def intro: same_but_routes_trans)
qed simp

text \<open>\<open>Start\<close> first takes over, for every record of the saved store whose domain has an interface,
  the route of its address, and nothing else.\<close>

theorem start_takes_over_routes:
  assumes "store_inv (ic_store s)" and "store_order_ok ord" and "set_inv (ic_routes s)"
  shows "set_elems (ic_routes (ctl_init ord hosts_ord cfg s)) =
      set_elems (ic_routes s) \<union>
      {r. \<exists>d rec. store_get (ic_store s) d (rt_addr r) = Some rec
             \<and> rt_table r = rule_table (rc_rule cfg)
             \<and> rt_iface r = routing_lookup_host (hosts_ord rec) cfg d \<and> rt_iface r \<noteq> []}"
proof -
  let ?f = "\<lambda>rec. routing_lookup_host (hosts_ord rec) cfg (rec_domain rec)"
  let ?g = "\<lambda>rec. \<lparr>rt_table = rule_table (rc_rule cfg), rt_iface = ?f rec, rt_addr = rec_ip rec\<rparr>"
  have "set_elems (ic_routes (ctl_init ord hosts_ord cfg s)) =
      set_elems (ic_routes s) \<union> ?g ` {rec \<in> set (store_records ord (ic_store s)). ?f rec \<noteq> []}"
    using fold_init [OF assms(3), of ?f ?g "store_records ord (ic_store s)"] by (simp add: ctl_init_def Let_def)
  also have "?g ` {rec \<in> set (store_records ord (ic_store s)). ?f rec \<noteq> []} =
      {r. \<exists>d rec. store_get (ic_store s) d (rt_addr r) = Some rec
             \<and> rt_table r = rule_table (rc_rule cfg)
             \<and> rt_iface r = routing_lookup_host (hosts_ord rec) cfg d \<and> rt_iface r \<noteq> []}" (is "?L = ?R")
  proof (intro set_eqI iffI)
    fix r assume "r \<in> ?L"
    then show "r \<in> ?R"
      by (fastforce simp: store_records_def store_iterate_set [OF assms(1,2)])
  next
    fix r assume "r \<in> ?R"
    then obtain d rec where r: "store_get (ic_store s) d (rt_addr r) = Some rec"
        "rt_table r = rule_table (rc_rule cfg)" "rt_iface r = routing_lookup_host (hosts_ord rec) cfg d" "rt_iface r \<noteq> []"
      by blast
    have key: "rec_domain rec = d \<and> rec_ip rec = rt_addr r" using store_invD(4) [OF assms(1)] r(1) by blast
    with r have "rec \<in> set (store_records ord (ic_store s))"
      by (simp add: store_records_def store_iterate_set [OF assms(1,2)])
    moreover have "r = ?g rec" using r key by (intro ip_route.equality) simp_all
    ultimately show "r \<in> ?L" using r key by (intro image_eqI [of _ _ rec]) auto
  qed
  finally show ?thesis .
qed

theorem start_takes_over_routes_witness:
  "sample_listed \<in> set_elems (ic_routes (ctl_init (rev, rev) (\<lambda>r. rev) sample_routing
     (sample_ctl\<lparr>ic_store := store_add new_dns_store sample_record\<rparr>)))"
proof -
  let ?s = "sample_ctl\<lparr>ic_store := store_add new_dns_store sample_record\<rparr>"
  have "store_inv (ic_store ?s)" "store_order_ok (rev, rev)" "set_inv (ic_routes ?s)"
    by (simp_all add: store_order_ok_def)
  note t = start_takes_over_routes [OF this, of "\<lambda>r. rev" sample_routing]
  have get: "store_get (ic_store ?s) ''a.example'' (IPv4 1 2 3 4 32) = Some sample_record"
    by (simp add: store_get_add) (simp add: sample_record_def new_dns_record_def)
  have lookup: "routing_lookup_host rev sample_routing ''a.example'' = ''tun0''"
    by (simp add: routing_lookup_host_def sample_routing_def has_suffix_def)
  show ?thesis
    unfolding t using get lookup by (intro UnI2 CollectI exI [of _ "''a.example''"] exI [of _ sample_record])
      (simp add: sample_listed_def)
qed

lemma fold_res_stuck:
  "x \<in> set xs \<Longrightarrow> (\<And>s. \<exists>e. f s x = Inl e) \<Longrightarrow> \<exists>e. fold_res f s xs = Inl e"
proof (induction xs arbitrary: s)
  case (Cons y ys)
  show ?case
  proof (cases "f s y")
    case (Inr s')
    then have "x \<noteq> y" using Cons.prems(2) [of s] by auto
    with Cons.prems(1) have "x \<in> set ys" by simp
    with Cons.IH [of s'] Cons.prems(2) Inr show ?thesis by auto
  qed simp
qed simp

text \<open>a default route in the table, which \<open>ip route list\<close> prints as \<open>default dev tun0 scope link\<close>,
  makes every reconciliation panic before it changes anything: the agent passes the word \<open>default\<close>
  on as an address and \<open>ParseIPv4\<close> panics on it, although \<open>loadRoutes\<close> handles its errors.\<close>

theorem default_route_panics:
  assumes "\<forall>l \<in> set ls. line_ok l" and "RouteLine ''default'' iface pad \<in> set ls"
    and "ip [''ip'', ''route'', ''list'', ''table'', itoa (unat (of_int (rule_table (rc_rule cfg)) :: u32))] w
           = ((print_lines (map line_text ls), None), w')"
  shows "\<exists>panic. reconcile_routes (agent_client ip detail_ok) ch cfg (s, w) = Inl panic"
proof -
  let ?t = "of_int (rule_table (rc_rule cfg)) :: u32"
  let ?rs = "concat (map (line_routes ?t) ls)"
  have list: "nc_list_routes (agent_client ip detail_ok) ?t w = (Inr ?rs, w')"
    by (simp add: agent_client_def agent_list_routes_def run_cmd_def assms(3) list_routes_printed [OF assms(1)] Let_def)
  have mem: "\<lparr>pt_table = ?t, pt_iface = iface, pt_address = ''default''\<rparr> \<in> set ?rs"
    using assms(2) by force
  have "\<exists>e. load_route d \<lparr>pt_table = ?t, pt_iface = iface, pt_address = ''default''\<rparr> = Inl e" for d
    by (simp add: load_route_def parse_ipv4_eval)
  with fold_res_stuck [of "\<lparr>pt_table = ?t, pt_iface = iface, pt_address = ''default''\<rparr>" ?rs load_route "Some []"] mem
  obtain e where "fold_res load_route (Some []) ?rs = Inl e" by blast
  then show ?thesis by (simp add: reconcile_routes_passes load_routes_def list)
qed

theorem default_route_panics_witness:
  "\<exists>panic. reconcile_routes (agent_client (\<lambda>args w. ((print_lines (map line_text [RouteLine ''default'' ''tun0'' []]), None), ())) (\<lambda>d. True))
     sample_choice sample_routing (sample_ctl, ()) = Inl panic"
proof -
  have "\<forall>l \<in> set [RouteLine ''default'' ''tun0'' []]. line_ok l" by (simp add: word_ok_def is_space_def)
  from default_route_panics [OF this, where iface = "''tun0''" and pad = "[]" and cfg = sample_routing
      and w = "()" and w' = "()" and detail_ok = "\<lambda>d. True" and ch = sample_choice and s = sample_ctl
      and ip = "\<lambda>args w. ((print_lines (map line_text [RouteLine ''default'' ''tun0'' []]), None), ())"]
  show ?thesis by simp
qed

end
