(* ===== verification/DNSMsg.thy ===== *)
theory DNSMsg
  imports NetIP
begin

text \<open>
  The DNS messages of the package \<open>github.com/miekg/dns\<close>, as data: the fields the sources read or
  write, and one opaque text for the fields they only pass on. Records are values, so \<open>Copy\<close>
  (a deep copy in the package) is the value itself. \<open>hasSingleQuestion\<close> of
  \<open>dns_resolver.go\<close> and \<open>normalizeName\<close> of \<open>service.go\<close> are here because several components
  call them.
\<close>

definition type_a :: u16 where "type_a = 1"
definition class_inet :: u16 where "class_inet = 1"
definition rcode_server_failure :: int where "rcode_server_failure = 2"

record question =
  q_name :: string
  q_type :: u16
  q_class :: u16

record rr_header =
  hdr_name :: string
  hdr_type :: u16
  hdr_class :: u16
  hdr_ttl :: u32
  hdr_rdlength :: u16

datatype rr =
    RR_A (rr_hdr: rr_header) net_ip
  | RR_CNAME (rr_hdr: rr_header) string
  | RR_Other (rr_hdr: rr_header) string

record dns_msg =
  msg_id :: u16
  msg_response :: bool
  msg_rcode :: int
  msg_question :: "question list"
  msg_answer :: "rr list"
  msg_other :: string

fun set_rr_ttl :: "u32 \<Rightarrow> rr \<Rightarrow> rr" where
  "set_rr_ttl ttl (RR_A h ip) = RR_A (h\<lparr>hdr_ttl := ttl\<rparr>) ip"
| "set_rr_ttl ttl (RR_CNAME h target) = RR_CNAME (h\<lparr>hdr_ttl := ttl\<rparr>) target"
| "set_rr_ttl ttl (RR_Other h rdata) = RR_Other (h\<lparr>hdr_ttl := ttl\<rparr>) rdata"

abbreviation rr_ttl :: "rr \<Rightarrow> u32" where
  "rr_ttl r \<equiv> hdr_ttl (rr_hdr r)"

lemma rr_ttl_set [simp]: "rr_ttl (set_rr_ttl ttl r) = ttl"
  by (cases r) simp_all

lemma set_rr_ttl_twice [simp]: "set_rr_ttl t (set_rr_ttl u r) = set_rr_ttl t r"
  by (cases r) simp_all

lemma set_rr_ttl_same [simp]: "set_rr_ttl (rr_ttl r) r = r"
  by (cases r) simp_all

definition has_single_question :: "dns_msg \<Rightarrow> u16 list \<Rightarrow> bool" where
  "has_single_question msg types \<longleftrightarrow>
     (if length (msg_question msg) \<noteq> 1 then False
      else types = [] \<or> q_type (msg_question msg ! 0) \<in> set types)"

lemma has_single_questionE:
  assumes "has_single_question msg types"
  obtains q where "msg_question msg = [q]" and "types = [] \<or> q_type q \<in> set types"
  using assms by (cases "msg_question msg") (auto simp: has_single_question_def split: if_splits)

definition normalize_name :: "string \<Rightarrow> string" where
  "normalize_name name = trim_right name ''.''"

lemma normalize_name_idem [simp]: "normalize_name (normalize_name name) = normalize_name name"
  by (simp add: normalize_name_def trim_right_idem)

text \<open>
  \<open>uint32 (d.Seconds ())\<close>: the duration in seconds, its fraction cut off. (The \<open>float64\<close> in
  between holds the seconds of any duration below \<open>2 ^ 22\<close> seconds, 48 days, closely enough.)
\<close>

definition secs_u32 :: "duration \<Rightarrow> u32" where
  "secs_u32 d = of_int (sgn d * (\<bar>d\<bar> div second))"

lemma uint_secs_u32:
  assumes "0 \<le> d" and "d div second < 2 ^ 32"
  shows "uint (secs_u32 d) = d div second"
proof -
  have "0 \<le> d div second" using assms(1) by (simp add: second_def pos_imp_zdiv_nonneg_iff)
  moreover have "sgn d * (\<bar>d\<bar> div second) = d div second" using assms(1) by (cases "d = 0") auto
  ultimately show ?thesis using assms(2)
    by (simp add: secs_u32_def uint_word_of_int_eq take_bit_int_eq_self)
qed

subsection \<open>Sample messages\<close>

definition sample_question :: question where
  "sample_question = \<lparr>q_name = ''a.example.'', q_type = type_a, q_class = class_inet\<rparr>"

definition sample_answer :: "u32 \<Rightarrow> rr" where
  "sample_answer ttl = RR_A \<lparr>hdr_name = ''a.example.'', hdr_type = type_a, hdr_class = class_inet,
     hdr_ttl = ttl, hdr_rdlength = 4\<rparr> [1, 2, 3, 4]"

definition sample_msg :: "rr list \<Rightarrow> dns_msg" where
  "sample_msg rs = \<lparr>msg_id = 7, msg_response = True, msg_rcode = 0, msg_question = [sample_question],
     msg_answer = rs, msg_other = []\<rparr>"

end
