(* ===== verification/Service.thy ===== *)
theory Service
  imports DNSMsg Stream IPRoutes
begin

text \<open>
  \<open>dns-server/internal/service.go\<close>: the resolver that records every query and answer, follows the
  CNAME chain of an A answer, remembers its addresses and has them routed. The messages' text form
  and the upstream resolver are parameters; \<open>w\<close> is the state of everything outside (the upstream
  resolver and the agent). The service and the route controller share one \<open>DNSStore\<close>, which is the
  one of the controller here. The context carries the client's address only.

  A resolver may panic, fail or answer; all three leave a state behind.
\<close>

type_synonym 's resolver = "string \<Rightarrow> dns_msg \<Rightarrow> 's \<Rightarrow> ((string + dns_msg) \<times> 's) panicking"

record ('l, 'k) service =
  sv_ctl :: ip_ctl
  sv_queries :: "(dns_query, 'l) buffered"
  sv_raw_queries :: "(dns_raw_query, 'k) buffered"

definition zero_dns_query :: dns_query where
  "zero_dns_query = \<lparr>dq_cursor = 0, dq_time = 0, dq_client_addr = [], dq_domain = [], dq_ttl = 0,
     dq_ips = [], dq_routed = []\<rparr>"

definition zero_dns_raw_query :: dns_raw_query where
  "zero_dns_raw_query = \<lparr>rq_cursor = 0, rq_time = 0, rq_client_addr = [], rq_response = False, rq_text = []\<rparr>"

definition new_dns_routing_service :: "ip_ctl \<Rightarrow> int \<Rightarrow> ('l, 'k) service panicking" where
  "new_dns_routing_service ctl history_size =
     (case new_buffered_stream zero_dns_query history_size of
        Inl panic \<Rightarrow> Inl panic
      | Inr qs \<Rightarrow>
          (case new_buffered_stream zero_dns_raw_query history_size of
             Inl panic \<Rightarrow> Inl panic
           | Inr rs \<Rightarrow> Inr \<lparr>sv_ctl = ctl, sv_queries = qs, sv_raw_queries = rs\<rparr>))"

text \<open>What the runtime and the clock choose while one query is answered. The instants of an append are
  the time written into the entry and, later, the time \<open>Append\<close> reads for the cursor.\<close>

record ('l, 'k) service_choice =
  sch_request :: "instant \<times> instant"
  sch_response :: "instant \<times> instant"
  sch_query :: "instant \<times> instant"
  sch_raw_listeners :: "(u16 \<times> 'k) order"
  sch_listeners :: "(u16 \<times> 'l) order"
  sch_hosts :: "string \<Rightarrow> (string \<times> hosts) order"
  sch_ifaces :: "string order"

definition unix_epoch :: instant where "unix_epoch = 62135596800 * second"

definition unix_milli :: "instant \<Rightarrow> int" where
  "unix_milli t = (t - unix_epoch) div 1000000"

subsection \<open>The answer records\<close>

text \<open>The first loop of \<open>processTypeAResponse\<close>: addresses by name, CNAMEs by name, the smallest TTL.\<close>

type_synonym answer_scan = "(string, ipv4 list) gomap \<times> (string, rr_header \<times> string) lazy_map \<times> u32"

fun scan_answer :: "rr list \<Rightarrow> answer_scan \<Rightarrow> answer_scan panicking" where
  "scan_answer [] acc = Inr acc"
| "scan_answer (RR_A h a # rs) (name_ips, cnames, ttl) =
     (case new_ipv4 a of
        Inl panic \<Rightarrow> Inl panic
      | Inr ip \<Rightarrow>
          let ips = (case gm_get name_ips (hdr_name h) of None \<Rightarrow> [] | Some ips \<Rightarrow> ips) in
          scan_answer rs (gm_set name_ips (hdr_name h) (ips @ [ip]), cnames, min ttl (hdr_ttl h)))"
| "scan_answer (RR_CNAME h target # rs) (name_ips, cnames, ttl) =
     scan_answer rs (name_ips, lazy_set cnames (hdr_name h) (h, target), ttl)"
| "scan_answer (RR_Other h d # rs) acc = scan_answer rs acc"

text \<open>The loop over the names: it ends at a name without a CNAME or at one it has visited.\<close>

lemma lazy_keys_finite: "finite {k. lazy_get m k \<noteq> None}"
proof (cases m)
  case (Some es)
  with finite_dom_map_of [of es] show ?thesis by (simp add: lazy_get_def dom_def)
qed (simp add: lazy_get_def)

function chase ::
  "(string \<Rightarrow> string) \<Rightarrow> (string, rr_header \<times> string) lazy_map \<Rightarrow> (string, ipv4 list) gomap
     \<Rightarrow> string \<Rightarrow> string goset \<Rightarrow> string goset \<Rightarrow> u32 \<Rightarrow> ipv4 list \<times> string goset \<times> u32"
where
  "chase lookup cnames name_ips name visited ifaces ttl =
     (if set_has visited name then ([], ifaces, ttl)
      else
        let iface = lookup (normalize_name name);
            ifaces = (if iface \<noteq> [] then fst (set_add ifaces iface) else ifaces)
        in case lazy_get cnames name of
             Some (h, target) \<Rightarrow>
               chase lookup cnames name_ips target (fst (set_add visited name)) ifaces (min ttl (hdr_ttl h))
           | None \<Rightarrow> (case gm_get name_ips name of None \<Rightarrow> [] | Some ips \<Rightarrow> ips, ifaces, ttl))"
  by pat_completeness auto
termination
proof (relation "measure (\<lambda>(lookup, cnames, name_ips, name, visited, ifaces, ttl).
    card {k. lazy_get cnames k \<noteq> None \<and> \<not> set_has visited k})", goal_cases)
  case (2 lookup cnames name_ips name visited ifaces ttl iface ifaces' cn h target)
  have has: "set_has (fst (set_add visited name)) k \<longleftrightarrow> k = name \<or> set_has visited k" for k
    by (auto simp: set_has_def set_add_def set_entries_def Let_def split: option.splits)
  have "name \<in> {k. lazy_get cnames k \<noteq> None \<and> \<not> set_has visited k}" using 2 by simp
  then have "{k. lazy_get cnames k \<noteq> None \<and> \<not> set_has (fst (set_add visited name)) k}
      \<subset> {k. lazy_get cnames k \<noteq> None \<and> \<not> set_has visited k}" by (auto simp: has)
  moreover have "finite {k. lazy_get cnames k \<noteq> None \<and> \<not> set_has visited k}"
    by (rule finite_subset [OF _ lazy_keys_finite [of cnames]]) blast
  ultimately show ?case by (simp add: psubset_card_mono)
qed simp

declare chase.simps [simp del]

subsection \<open>Recording and routing an answer\<close>

definition append_query ::
  "('l, 'k) service_choice \<Rightarrow> dns_query \<Rightarrow> ('l, 'k) service \<Rightarrow> ('l, 'k) service panicking"
where
  "append_query ch q s =
     (case stream_append dns_query_set_cursor (sch_listeners ch) (unix_milli (snd (sch_query ch))) (sv_queries s) q of
        Inl panic \<Rightarrow> Inl panic
      | Inr (qs, calls) \<Rightarrow> Inr (s\<lparr>sv_queries := qs\<rparr>))"

definition append_raw_query ::
  "(u16 \<times> 'k) order \<Rightarrow> instant \<times> instant \<Rightarrow> string \<Rightarrow> bool \<Rightarrow> string
     \<Rightarrow> ('l, 'k) service \<Rightarrow> ('l, 'k) service panicking"
where
  "append_raw_query ord tm client response txt s =
     (case stream_append dns_raw_query_set_cursor ord (unix_milli (snd tm)) (sv_raw_queries s)
         \<lparr>rq_cursor = 0, rq_time = fst tm, rq_client_addr = client, rq_response = response, rq_text = txt\<rparr> of
        Inl panic \<Rightarrow> Inl panic
      | Inr (rs, calls) \<Rightarrow> Inr (s\<lparr>sv_raw_queries := rs\<rparr>))"

text \<open>The body of the loop over the addresses: remember the record, then ask for each route.\<close>

definition remember_ip ::
  "('w, 'e) network_client \<Rightarrow> dns_query \<Rightarrow> ipv4 \<Rightarrow> ip_ctl \<times> 'w \<Rightarrow> ip_ctl \<times> 'w"
where
  "remember_ip nc res ip = (\<lambda>(c, w).
     let rec = new_dns_record (dq_domain res) ip (dq_time res + uint (dq_ttl res) * second);
         c = c\<lparr>ic_store := store_add (ic_store c) rec\<rparr>
     in fold (\<lambda>iface. ctl_add_route nc iface ip) (dq_routed res) (c, w))"

definition process_type_a ::
  "('w, 'e) network_client \<Rightarrow> ('l, 'k) service_choice \<Rightarrow> string \<Rightarrow> dns_msg
     \<Rightarrow> ('l, 'k) service \<times> 'w \<Rightarrow> (('l, 'k) service \<times> 'w) panicking"
where
  "process_type_a nc ch client resp = (\<lambda>(s, w).
     case msg_question resp of
       [] \<Rightarrow> Inl IndexOutOfRange
     | q # qs \<Rightarrow>
         let req_name = q_name q in
         (case scan_answer (msg_answer resp) ([], None, - 1) of
            Inl panic \<Rightarrow> Inl panic
          | Inr (name_ips, cnames, ttl) \<Rightarrow>
              let (ips, ifaces, ttl) =
                chase (\<lambda>host. ctl_lookup_host (sch_hosts ch host) (sv_ctl s) host) cnames name_ips req_name None None ttl
              in if 0 < length ips then
                   let res = \<lparr>dq_cursor = 0, dq_time = fst (sch_query ch), dq_client_addr = client,
                              dq_domain = normalize_name req_name, dq_ttl = max ttl 1, dq_ips = sort ips,
                              dq_routed = set_values (sch_ifaces ch) ifaces\<rparr>
                   in (case append_query ch res s of
                         Inl panic \<Rightarrow> Inl panic
                       | Inr s \<Rightarrow>
                           let (c, w) = fold (remember_ip nc res) (dq_ips res) (sv_ctl s, w)
                           in Inr (s\<lparr>sv_ctl := c\<rparr>, w))
                 else Inr (s, w)))"

definition error_text :: "dns_msg \<Rightarrow> string \<Rightarrow> string" where
  "error_text msg err = ''ERROR: query (id: '' @ itoa (unat (msg_id msg)) @ '') failed: '' @ err"

definition service_resolve ::
  "(dns_msg \<Rightarrow> string) \<Rightarrow> ('w, 'e) network_client \<Rightarrow> 'w resolver \<Rightarrow> ('l, 'k) service_choice
     \<Rightarrow> (('l, 'k) service \<times> 'w) resolver"
where
  "service_resolve show_msg nc upstream ch client msg = (\<lambda>(s, w).
     case append_raw_query (sch_raw_listeners ch) (sch_request ch) client False (show_msg msg) s of
       Inl panic \<Rightarrow> Inl panic
     | Inr s \<Rightarrow>
         (case upstream client msg w of
            Inl panic \<Rightarrow> Inl panic
          | Inr (Inl err, w) \<Rightarrow>
              (case append_raw_query (sch_raw_listeners ch) (sch_response ch) client True (error_text msg err) s of
                 Inl panic \<Rightarrow> Inl panic
               | Inr s \<Rightarrow> Inr (Inl err, (s, w)))
          | Inr (Inr resp, w) \<Rightarrow>
              (case append_raw_query (sch_raw_listeners ch) (sch_response ch) client True (show_msg resp) s of
                 Inl panic \<Rightarrow> Inl panic
               | Inr s \<Rightarrow>
                   if has_single_question msg [type_a] then
                     (case process_type_a nc ch client resp (s, w) of
                        Inl panic \<Rightarrow> Inl panic
                      | Inr sw \<Rightarrow> Inr (Inr resp, sw))
                   else Inr (Inr resp, (s, w)))))"

subsection \<open>Chains of aliases\<close>

text \<open>The names from \<open>n\<close> to the first one without a CNAME.\<close>

inductive cname_path :: "(string, rr_header \<times> string) lazy_map \<Rightarrow> string \<Rightarrow> string list \<Rightarrow> bool" for cnames where
  stop: "lazy_get cnames n = None \<Longrightarrow> cname_path cnames n [n]"
| follow: "lazy_get cnames n = Some (h, target) \<Longrightarrow> cname_path cnames target p \<Longrightarrow> cname_path cnames n (n # p)"

inductive_cases cname_pathE [consumes 1, case_names stop follow]: "cname_path cnames n p"
inductive_simps cname_path_end: "cname_path cnames n [m]"

lemma cname_path_unique: "cname_path cnames n p \<Longrightarrow> cname_path cnames n q \<Longrightarrow> p = q"
proof (induction arbitrary: q rule: cname_path.induct)
  case (stop n)
  from stop(2) show ?case
  proof (cases rule: cname_pathE)
    case (follow h target p)
    with stop(1) show ?thesis by simp
  qed simp
next
  case (follow n h target p)
  from follow.prems show ?case
  proof (cases rule: cname_pathE)
    case stop
    with follow(1) show ?thesis by simp
  next
    case (follow h' target' p')
    with \<open>lazy_get cnames n = Some (h, target)\<close> have "target' = target" by simp
    with follow(3) have "p = p'" by (intro \<open>\<And>q. cname_path cnames target q \<Longrightarrow> p = q\<close>) simp
    with follow(1) show ?thesis by simp
  qed
qed

lemma cname_path_not_Nil: "cname_path cnames n p \<Longrightarrow> p \<noteq> []"
  by (auto elim: cname_path.cases)

lemma cname_path_suffix: "cname_path cnames n p \<Longrightarrow> m \<in> set p \<Longrightarrow> \<exists>q. cname_path cnames m q \<and> length q \<le> length p"
  by (induction rule: cname_path.induct) (auto intro: cname_path.intros le_SucI)

lemma cname_path_distinct: "cname_path cnames n p \<Longrightarrow> distinct p"
proof (induction rule: cname_path.induct)
  case (follow n h target p)
  have "n \<notin> set p"
  proof
    assume "n \<in> set p"
    with cname_path_suffix [OF follow(2)] obtain q where q: "cname_path cnames n q" "length q \<le> length p" by blast
    with cname_path_unique [OF q(1) cname_path.follow [OF follow(1,2)]] show False by simp
  qed
  with follow.IH show ?case by simp
qed simp

lemma cname_path_last: "cname_path cnames n p \<Longrightarrow> lazy_get cnames (last p) = None"
  by (induction rule: cname_path.induct) (auto dest: cname_path_not_Nil)

definition note_iface :: "(string \<Rightarrow> string) \<Rightarrow> string \<Rightarrow> string goset \<Rightarrow> string goset" where
  "note_iface lookup name ifaces =
     (let iface = lookup (normalize_name name) in if iface \<noteq> [] then fst (set_add ifaces iface) else ifaces)"

definition note_ttl :: "(string, rr_header \<times> string) lazy_map \<Rightarrow> string \<Rightarrow> u32 \<Rightarrow> u32" where
  "note_ttl cnames name ttl = (case lazy_get cnames name of None \<Rightarrow> ttl | Some (h, target) \<Rightarrow> min ttl (hdr_ttl h))"

lemma chase_path:
  assumes "cname_path cnames name p" and "set_inv visited" and "set p \<inter> set_elems visited = {}"
  shows "chase lookup cnames name_ips name visited ifaces ttl =
     (case gm_get name_ips (last p) of None \<Rightarrow> [] | Some ips \<Rightarrow> ips,
      fold (note_iface lookup) p ifaces, fold (note_ttl cnames) p ttl)"
  using assms
proof (induction arbitrary: visited ifaces ttl rule: cname_path.induct)
  case (stop n)
  then show ?case by (subst chase.simps) (simp add: note_iface_def note_ttl_def Let_def)
next
  case (follow n h target p)
  have fresh: "n \<notin> set p"
    using cname_path_distinct [OF cname_path.follow [OF follow(1,2)]] by simp
  from follow.prems fresh follow.IH [of "fst (set_add visited n)"] follow(1) cname_path_not_Nil [OF follow(2)]
  show ?case
    by (subst chase.simps) (simp add: note_iface_def [of lookup n] note_ttl_def [of cnames n] Let_def)
qed

lemma chase_no_path:
  "set_inv visited \<Longrightarrow> fst (chase lookup cnames name_ips name visited ifaces ttl) \<noteq> [] \<Longrightarrow> \<exists>p. cname_path cnames name p"
proof (induction lookup cnames name_ips name visited ifaces ttl rule: chase.induct)
  case (1 lookup cnames name_ips name visited ifaces ttl)
  show ?case
  proof (cases "lazy_get cnames name")
    case None
    then show ?thesis by (auto intro: cname_path.stop)
  next
    case (Some cn)
    obtain h target where cn: "cn = (h, target)" by (cases cn)
    from "1.prems"(2) have nv: "\<not> set_has visited name" by (auto simp: chase.simps split: if_splits)
    from "1.prems"(2) nv Some have "fst (chase lookup cnames name_ips target (fst (set_add visited name))
        (if lookup (normalize_name name) \<noteq> [] then fst (set_add ifaces (lookup (normalize_name name))) else ifaces)
        (min ttl (hdr_ttl h))) \<noteq> []"
      by (subst (asm) chase.simps) (simp add: Let_def cn)
    with "1.IH" [OF nv refl refl Some cn [symmetric]] "1.prems"(1) show ?thesis
      using cname_path.follow [OF Some [unfolded cn]] by auto
  qed
qed

lemma fold_note_iface:
  "set_inv ifaces \<Longrightarrow> set_inv (fold (note_iface lookup) p ifaces)
     \<and> set_elems (fold (note_iface lookup) p ifaces)
         = set_elems ifaces \<union> {i. i \<noteq> [] \<and> (\<exists>n \<in> set p. i = lookup (normalize_name n))}"
  by (induction p arbitrary: ifaces) (auto simp: note_iface_def Let_def)

lemma fold_note_ttl_le: "fold (note_ttl cnames) p ttl \<le> ttl"
proof (induction p arbitrary: ttl)
  case (Cons n p)
  have "note_ttl cnames n ttl \<le> ttl" by (auto simp: note_ttl_def split: option.split)
  with Cons [of "note_ttl cnames n ttl"] show ?case by (simp add: order_trans)
qed simp

lemma fold_note_ttl_cname:
  "n \<in> set p \<Longrightarrow> lazy_get cnames n = Some (h, target) \<Longrightarrow> fold (note_ttl cnames) p ttl \<le> hdr_ttl h"
proof (induction p arbitrary: ttl)
  case (Cons m p)
  show ?case
  proof (cases "n = m")
    case True
    have "fold (note_ttl cnames) p (note_ttl cnames m ttl) \<le> note_ttl cnames m ttl" by (rule fold_note_ttl_le)
    also have "\<dots> \<le> hdr_ttl h" using True Cons.prems by (simp add: note_ttl_def)
    finally show ?thesis by simp
  next
    case False
    with Cons show ?thesis by simp
  qed
qed simp

text \<open>The scan keeps, for each name, the addresses of its A records in the order of the answer.\<close>

definition addresses_of :: "string \<Rightarrow> rr list \<Rightarrow> ipv4 list" where
  "addresses_of name rs = concat (map (\<lambda>r. case r of
       RR_A h a \<Rightarrow> if hdr_name h = name then (case new_ipv4 a of Inl p \<Rightarrow> [] | Inr ip \<Rightarrow> [ip]) else []
     | _ \<Rightarrow> []) rs)"

definition ips_of :: "(string, ipv4 list) gomap \<Rightarrow> string \<Rightarrow> ipv4 list" where
  "ips_of m name = (case gm_get m name of None \<Rightarrow> [] | Some ips \<Rightarrow> ips)"

lemma scan_answer_ips:
  "scan_answer rs (m, c, t) = Inr (m', c', t') \<Longrightarrow> ips_of m' name = ips_of m name @ addresses_of name rs"
proof (induction rs "(m, c, t)" arbitrary: m c t rule: scan_answer.induct)
  case (2 h a rs m c t)
  from "2.prems" obtain ip where ip: "new_ipv4 a = Inr ip" by (cases "new_ipv4 a") auto
  from 2 ip show ?case
    by (auto simp: addresses_of_def ips_of_def Let_def split: option.splits if_splits)
qed (auto simp: addresses_of_def ips_of_def)

lemma scan_answer_ttl:
  "scan_answer rs (m, c, t) = Inr (m', c', t') \<Longrightarrow> t' \<le> t \<and> (\<forall>h a. RR_A h a \<in> set rs \<longrightarrow> t' \<le> hdr_ttl h)"
proof (induction rs "(m, c, t)" arbitrary: m c t rule: scan_answer.induct)
  case (2 h a rs m c t)
  from "2.prems" obtain ip where ip: "new_ipv4 a = Inr ip" by (cases "new_ipv4 a") auto
  from 2 ip show ?case by (auto simp: Let_def)
qed auto

subsection \<open>What an answer does to the controller\<close>

definition route_of :: "ip_ctl \<Rightarrow> string \<Rightarrow> ipv4 \<Rightarrow> ip_route" where
  "route_of c iface ip = \<lparr>rt_table = ic_table_id c, rt_iface = iface, rt_addr = ip\<rparr>"

definition add_call :: "ip_ctl \<Rightarrow> string \<Rightarrow> ipv4 \<Rightarrow> rpc" where
  "add_call c iface ip = AddRouteCall (map_to_agent_route (route_of c iface ip))"

lemma route_of_same: "ic_table_id c' = ic_table_id c \<Longrightarrow> route_of c' = route_of c \<and> add_call c' = add_call c"
  by (simp add: route_of_def add_call_def fun_eq_iff)

lemma add_route_traced:
  assumes "ctl_add_route (traced nc) iface ip (c, (w, log)) = (c', (w', log'))" and "set_inv (ic_routes c)"
  shows "same_but_routes c c' \<and> set_inv (ic_routes c') \<and> set_elems (ic_routes c) \<subseteq> set_elems (ic_routes c')
     \<and> (log' = log \<and> route_of c iface ip \<in> set_elems (ic_routes c) \<or> log' = log @ [add_call c iface ip])"
  using assms
  by (auto simp: ctl_add_route_def ctl_add_route_rpc_def logged_def Let_def route_of_def add_call_def
      split: prod.splits sum.splits unit.splits if_splits)

lemma add_routes_traced:
  assumes "fold (\<lambda>iface. ctl_add_route (traced nc) iface ip) ifaces (c, (w, log)) = (c', (w', log'))"
    and "set_inv (ic_routes c)"
  shows "same_but_routes c c' \<and> set_inv (ic_routes c') \<and> set_elems (ic_routes c) \<subseteq> set_elems (ic_routes c')
     \<and> set log \<subseteq> set log' \<and> set log' \<subseteq> set log \<union> (\<lambda>i. add_call c i ip) ` set ifaces
     \<and> (\<forall>i \<in> set ifaces. route_of c i ip \<in> set_elems (ic_routes c') \<or> add_call c i ip \<in> set log')"
  using assms
proof (induction ifaces arbitrary: c w log)
  case (Cons i ifaces)
  obtain c1 w1 log1 where 1: "ctl_add_route (traced nc) i ip (c, (w, log)) = (c1, (w1, log1))"
    by (rule prod_cases3)
  note a = add_route_traced [OF 1 Cons.prems(2)]
  from Cons.prems(1) 1 have "fold (\<lambda>iface. ctl_add_route (traced nc) iface ip) ifaces (c1, (w1, log1)) = (c', (w', log'))"
    by simp
  note b = Cons.IH [OF this conjunct1 [OF conjunct2 [OF a]]]
  have same: "route_of c1 = route_of c" "add_call c1 = add_call c"
    using a same_but_routesD(2) [of c c1] route_of_same [of c1 c] by auto
  from a b show ?case unfolding same by (auto intro: same_but_routes_trans)
qed simp

lemma same_but_routes_store:
  assumes "same_but_routes (c\<lparr>ic_store := st\<rparr>) c'"
  shows "ic_cfg c' = ic_cfg c" "ic_table_id c' = ic_table_id c" "ic_store c' = st"
  using same_but_routesD [OF assms] by simp_all

lemma remember_ips_traced:
  assumes "fold (remember_ip (traced nc) res) ips (c, (w, log)) = (c', (w', log'))"
    and "set_inv (ic_routes c)"
  shows "ic_cfg c' = ic_cfg c \<and> ic_table_id c' = ic_table_id c
     \<and> ic_store c' = fold (\<lambda>ip st. store_add st (new_dns_record (dq_domain res) ip (dq_time res + uint (dq_ttl res) * second)))
                       ips (ic_store c)
     \<and> set_inv (ic_routes c') \<and> set_elems (ic_routes c) \<subseteq> set_elems (ic_routes c')
     \<and> set log \<subseteq> set log' \<and> set log' \<subseteq> set log \<union> {add_call c i ip | i ip. i \<in> set (dq_routed res) \<and> ip \<in> set ips}
     \<and> (\<forall>ip \<in> set ips. \<forall>i \<in> set (dq_routed res). route_of c i ip \<in> set_elems (ic_routes c') \<or> add_call c i ip \<in> set log')"
  using assms
proof (induction ips arbitrary: c w log)
  case (Cons ip ips)
  let ?c0 = "c\<lparr>ic_store := store_add (ic_store c) (new_dns_record (dq_domain res) ip (dq_time res + uint (dq_ttl res) * second))\<rparr>"
  obtain c1 w1 log1 where 1: "fold (\<lambda>iface. ctl_add_route (traced nc) iface ip) (dq_routed res) (?c0, (w, log)) = (c1, (w1, log1))"
    by (rule prod_cases3)
  have "set_inv (ic_routes ?c0)" using Cons.prems(2) by simp
  note a = add_routes_traced [OF 1 this]
  from Cons.prems(1) 1 have "fold (remember_ip (traced nc) res) ips (c1, (w1, log1)) = (c', (w', log'))"
    by (simp add: remember_ip_def [of _ _ ip] Let_def)
  note b = Cons.IH [OF this conjunct1 [OF conjunct2 [OF a]]]
  note st = same_but_routes_store [OF conjunct1 [OF a]]
  have same: "route_of c1 = route_of c" "add_call c1 = add_call c" "route_of ?c0 = route_of c" "add_call ?c0 = add_call c"
    using st(2) route_of_same [of c1 c] route_of_same [of ?c0 c] by auto
  have "set log' \<subseteq> set log \<union> {add_call c i ip' | i ip'. i \<in> set (dq_routed res) \<and> ip' \<in> set (ip # ips)}"
  proof
    fix x assume "x \<in> set log'"
    moreover have "set log' \<subseteq> set log1 \<union> {add_call c i ip | i ip. i \<in> set (dq_routed res) \<and> ip \<in> set ips}"
      using b unfolding same by blast
    moreover have "set log1 \<subseteq> set log \<union> (\<lambda>i. add_call c i ip) ` set (dq_routed res)"
      using a unfolding same by blast
    ultimately consider "x \<in> set log" | i where "x = add_call c i ip" "i \<in> set (dq_routed res)"
      | i ip' where "x = add_call c i ip'" "i \<in> set (dq_routed res)" "ip' \<in> set ips" by blast
    then show "x \<in> set log \<union> {add_call c i ip' | i ip'. i \<in> set (dq_routed res) \<and> ip' \<in> set (ip # ips)}"
      by cases auto
  qed
  moreover have "set log \<subseteq> set log'" "set_elems (ic_routes c) \<subseteq> set_elems (ic_routes c')"
    using a b by auto
  moreover have "\<forall>ip' \<in> set (ip # ips). \<forall>i \<in> set (dq_routed res).
      route_of c i ip' \<in> set_elems (ic_routes c') \<or> add_call c i ip' \<in> set log'"
    using a b unfolding same by auto
  ultimately show ?case
    using b st by simp
qed simp

lemma fold_add_records:
  "store_inv st \<Longrightarrow>
   store_inv (fold (\<lambda>ip st. store_add st (new_dns_record d ip e)) ips st)
   \<and> store_get (fold (\<lambda>ip st. store_add st (new_dns_record d ip e)) ips st) d' ip' =
       (if d' = d \<and> ip' \<in> set ips then Some (new_dns_record d ip' e) else store_get st d' ip')"
proof (induction ips arbitrary: st)
  case (Cons ip ips)
  have "store_inv (store_add st (new_dns_record d ip e))" using Cons.prems by simp
  from Cons.IH [OF this] Cons.prems show ?case
    by (auto simp: store_get_add) (simp_all add: new_dns_record_def)
qed simp

text \<open>Appends do not panic once the histories have a capacity.\<close>

definition service_inv :: "('l, 'k) service \<Rightarrow> bool" where
  "service_inv s \<longleftrightarrow> rb_inv (bs_buf (sv_queries s)) \<and> rb_inv (bs_buf (sv_raw_queries s))
     \<and> set_inv (ic_routes (sv_ctl s)) \<and> store_inv (ic_store (sv_ctl s))"

lemma append_query_ok:
  assumes "service_inv s"
  shows "\<exists>qs c. append_query ch q s = Inr (s\<lparr>sv_queries := qs\<rparr>) \<and> rb_inv (bs_buf qs)
     \<and> stream_entries qs = last_n (nat (rb_cap (bs_buf (sv_queries s))))
         (stream_entries (sv_queries s) @ [\<lparr>se_cursor = c, se_val = q\<lparr>dq_cursor := c\<rparr>\<rparr>])"
proof -
  have "rb_inv (bs_buf (sv_queries s))" using assms by (simp add: service_inv_def)
  from stream_append_ok [OF this, of dns_query_set_cursor "sch_listeners ch" "unix_milli (snd (sch_query ch))" q]
  show ?thesis by (auto simp: append_query_def dns_query_set_cursor_def)
qed

lemma append_raw_query_ok:
  assumes "service_inv s"
  shows "\<exists>rs c. append_raw_query ord tm client response txt s = Inr (s\<lparr>sv_raw_queries := rs\<rparr>) \<and> rb_inv (bs_buf rs)
     \<and> rb_cap (bs_buf rs) = rb_cap (bs_buf (sv_raw_queries s))
     \<and> stream_entries rs = last_n (nat (rb_cap (bs_buf (sv_raw_queries s))))
         (stream_entries (sv_raw_queries s) @ [\<lparr>se_cursor = c, se_val = \<lparr>rq_cursor = c, rq_time = fst tm,
            rq_client_addr = client, rq_response = response, rq_text = txt\<rparr>\<rparr>])"
proof -
  have "rb_inv (bs_buf (sv_raw_queries s))" using assms by (simp add: service_inv_def)
  from stream_append_ok [OF this, of dns_raw_query_set_cursor ord "unix_milli (snd tm)"
      "\<lparr>rq_cursor = 0, rq_time = fst tm, rq_client_addr = client, rq_response = response, rq_text = txt\<rparr>"]
  show ?thesis by (auto simp: append_raw_query_def dns_raw_query_set_cursor_def)
qed

subsection \<open>Properties\<close>

text \<open>C20: the loop over the CNAMEs always ends. It follows the chain from the question's name to the
  name without a CNAME and returns that name's addresses, the interfaces that names of the chain
  are routed to, and the smallest TTL met; when the CNAMEs lead into a cycle there is no address.\<close>

theorem chase_follows_aliases:
  "(\<forall>p. cname_path cnames name p \<longrightarrow>
      (case chase lookup cnames name_ips name None None ttl of (ips, ifaces, ttl') \<Rightarrow>
         ips = ips_of name_ips (last p)
         \<and> set_elems ifaces = {i. i \<noteq> [] \<and> (\<exists>n \<in> set p. i = lookup (normalize_name n))}
         \<and> ttl' \<le> ttl \<and> (\<forall>n \<in> set p. \<forall>h target. lazy_get cnames n = Some (h, target) \<longrightarrow> ttl' \<le> hdr_ttl h)))
   \<and> ((\<nexists>p. cname_path cnames name p) \<longrightarrow> fst (chase lookup cnames name_ips name None None ttl) = [])"
proof (intro conjI allI impI)
  fix p assume p: "cname_path cnames name p"
  have "chase lookup cnames name_ips name None None ttl =
     (ips_of name_ips (last p), fold (note_iface lookup) p None, fold (note_ttl cnames) p ttl)"
    using chase_path [OF p, of None] by (simp add: ips_of_def)
  then show "case chase lookup cnames name_ips name None None ttl of (ips, ifaces, ttl') \<Rightarrow>
         ips = ips_of name_ips (last p)
         \<and> set_elems ifaces = {i. i \<noteq> [] \<and> (\<exists>n \<in> set p. i = lookup (normalize_name n))}
         \<and> ttl' \<le> ttl \<and> (\<forall>n \<in> set p. \<forall>h target. lazy_get cnames n = Some (h, target) \<longrightarrow> ttl' \<le> hdr_ttl h)"
    using fold_note_iface [of None lookup p] fold_note_ttl_le fold_note_ttl_cname by auto
next
  assume "\<nexists>p. cname_path cnames name p"
  then show "fst (chase lookup cnames name_ips name None None ttl) = []"
    using chase_no_path [of None lookup cnames name_ips name None ttl] by auto
qed

definition sample_cname :: "string \<Rightarrow> string \<Rightarrow> rr" where
  "sample_cname name target = RR_CNAME \<lparr>hdr_name = name, hdr_type = 5, hdr_class = class_inet, hdr_ttl = 20, hdr_rdlength = 0\<rparr> target"

definition sample_hdr :: rr_header where
  "sample_hdr = \<lparr>hdr_name = [], hdr_type = 5, hdr_class = class_inet, hdr_ttl = 20, hdr_rdlength = 0\<rparr>"

theorem chase_follows_aliases_witness:
  "(let cnames = Some [(''w.'', (sample_hdr, ''a.''))];
        (ips, ifaces, ttl') = chase (\<lambda>host. if host = ''w'' then ''tun0'' else []) cnames
          [(''a.'', [IPv4 1 2 3 4 32])] ''w.'' None None 60
    in ips = [IPv4 1 2 3 4 32] \<and> set_elems ifaces = {''tun0''} \<and> ttl' \<le> 20)
   \<and> fst (chase (\<lambda>host. []) (Some [(''x.'', (sample_hdr, ''x.''))]) [(''x.'', [IPv4 1 2 3 4 32])] ''x.'' None None 60) = []"
proof -
  let ?cnames = "Some [(''w.'', (sample_hdr, ''a.''))]"
  let ?lookup = "\<lambda>host. if host = ''w'' then ''tun0'' else []"
  have p: "cname_path ?cnames ''w.'' [''w.'', ''a.'']"
    by (rule cname_path.follow [where h = sample_hdr and target = "''a.''"])
       (simp_all add: cname_path_end lazy_get_def)
  have norm: "normalize_name ''w.'' = ''w''" "normalize_name ''a.'' = ''a''"
    by (simp_all add: normalize_name_def trim_right_def)
  have loop: "\<nexists>p. cname_path (Some [(''x.'', (sample_hdr, ''x.''))]) ''x.'' p"
  proof
    assume "\<exists>p. cname_path (Some [(''x.'', (sample_hdr, ''x.''))]) ''x.'' p"
    then obtain p where "cname_path (Some [(''x.'', (sample_hdr, ''x.''))]) ''x.'' p" by blast
    moreover from this have "distinct p" by (rule cname_path_distinct)
    ultimately show False
      by (cases rule: cname_pathE) (auto simp: lazy_get_def elim: cname_path.cases)
  qed
  show ?thesis
    using conjunct1 [OF chase_follows_aliases [where cnames = ?cnames and name = "''w.''" and lookup = ?lookup
        and name_ips = "[(''a.'', [IPv4 1 2 3 4 32])]" and ttl = 60]] p
      conjunct2 [OF chase_follows_aliases [where cnames = "Some [(''x.'', (sample_hdr, ''x.''))]" and name = "''x.''"
        and lookup = "\<lambda>host. []" and name_ips = "[(''x.'', [IPv4 1 2 3 4 32])]" and ttl = 60]] loop
    by (fastforce simp: norm ips_of_def lazy_get_def sample_hdr_def)
qed

definition chain_ifaces :: "('l, 'k) service_choice \<Rightarrow> ip_ctl \<Rightarrow> string list \<Rightarrow> string set" where
  "chain_ifaces ch c p =
     {i. i \<noteq> [] \<and> (\<exists>n \<in> set p. i = ctl_lookup_host (sch_hosts ch (normalize_name n)) c (normalize_name n))}"

lemma process_type_a_eq:
  assumes "msg_question resp = q # qs"
    and "scan_answer (msg_answer resp) ([], None, - 1) = Inr (name_ips, cnames, ttl)"
    and "chase (\<lambda>host. ctl_lookup_host (sch_hosts ch host) (sv_ctl s) host) cnames name_ips (q_name q) None None ttl
           = (ips, ifaces, ttl')" and "ips \<noteq> []"
  shows "process_type_a nc ch client resp (s, w) =
     (let res = \<lparr>dq_cursor = 0, dq_time = fst (sch_query ch), dq_client_addr = client,
                 dq_domain = normalize_name (q_name q), dq_ttl = max ttl' 1, dq_ips = sort ips,
                 dq_routed = set_values (sch_ifaces ch) ifaces\<rparr>
      in (case append_query ch res s of
            Inl panic \<Rightarrow> Inl panic
          | Inr s \<Rightarrow>
              let (c, w) = fold (remember_ip nc res) (sort ips) (sv_ctl s, w) in Inr (s\<lparr>sv_ctl := c\<rparr>, w)))"
  using assms by (simp add: process_type_a_def Let_def split: sum.split)

lemma process_type_a_run:
  assumes "service_inv s" and "is_order (sch_ifaces ch)" and "msg_question resp = q # qs"
    and "scan_answer (msg_answer resp) ([], None, - 1) = Inr (name_ips, cnames, ttl)"
    and "cname_path cnames (q_name q) p" and "addresses_of (last p) (msg_answer resp) \<noteq> []"
  shows "\<exists>res qs' c' w' cu. process_type_a nc ch client resp (s, w) = Inr (s\<lparr>sv_queries := qs', sv_ctl := c'\<rparr>, w')
    \<and> rb_inv (bs_buf qs') \<and> last (stream_entries qs') = \<lparr>se_cursor = cu, se_val = res\<lparr>dq_cursor := cu\<rparr>\<rparr>
    \<and> fold (remember_ip nc res) (sort (addresses_of (last p) (msg_answer resp))) (sv_ctl s, w) = (c', w')
    \<and> dq_domain res = normalize_name (q_name q) \<and> dq_time res = fst (sch_query ch)
    \<and> dq_ttl res = max (fold (note_ttl cnames) p ttl) 1 \<and> dq_ips res = sort (addresses_of (last p) (msg_answer resp))
    \<and> set (dq_routed res) = chain_ifaces ch (sv_ctl s) p"
proof -
  let ?lookup = "\<lambda>host. ctl_lookup_host (sch_hosts ch host) (sv_ctl s) host"
  let ?ips = "addresses_of (last p) (msg_answer resp)"
  let ?ifaces = "fold (note_iface ?lookup) p None"
  let ?ttl = "fold (note_ttl cnames) p ttl"
  let ?res = "\<lparr>dq_cursor = 0, dq_time = fst (sch_query ch), dq_client_addr = client,
      dq_domain = normalize_name (q_name q), dq_ttl = max ?ttl 1, dq_ips = sort ?ips,
      dq_routed = set_values (sch_ifaces ch) ?ifaces\<rparr>"
  have ips: "ips_of name_ips (last p) = ?ips"
    using scan_answer_ips [OF assms(4), of "last p"] by (simp add: ips_of_def)
  have chase: "chase ?lookup cnames name_ips (q_name q) None None ttl = (?ips, ?ifaces, ?ttl)"
    using chase_path [OF assms(5), of None] ips by (simp add: ips_of_def)
  have ifaces: "set (dq_routed ?res) = chain_ifaces ch (sv_ctl s) p"
    using fold_note_iface [of None ?lookup p] assms(2) by (simp add: set_values_set chain_ifaces_def)
  obtain qs' cu where app: "append_query ch ?res s = Inr (s\<lparr>sv_queries := qs'\<rparr>)" "rb_inv (bs_buf qs')"
      "stream_entries qs' = last_n (nat (rb_cap (bs_buf (sv_queries s))))
         (stream_entries (sv_queries s) @ [\<lparr>se_cursor = cu, se_val = ?res\<lparr>dq_cursor := cu\<rparr>\<rparr>])"
    using append_query_ok [OF assms(1)] by blast
  have "0 < nat (rb_cap (bs_buf (sv_queries s)))"
    using assms(1) rb_invD [of "bs_buf (sv_queries s)"] by (simp add: service_inv_def)
  then have last: "last (stream_entries qs') = \<lparr>se_cursor = cu, se_val = ?res\<lparr>dq_cursor := cu\<rparr>\<rparr>"
    unfolding app(3) by (simp add: last_n_def)
  obtain c' w' where run: "fold (remember_ip nc ?res) (sort ?ips) (sv_ctl s, w) = (c', w')" by fastforce
  have "process_type_a nc ch client resp (s, w) = Inr (s\<lparr>sv_queries := qs', sv_ctl := c'\<rparr>, w')"
    by (simp add: process_type_a_eq [OF assms(3,4) chase assms(6)] app(1) run Let_def)
  then show ?thesis using app(2) last run ifaces
    by (intro exI [of _ ?res] exI [of _ qs'] exI [of _ c'] exI [of _ w'] exI [of _ cu]) simp
qed

lemma store_get_remember:
  "store_inv st \<Longrightarrow> store_get (fold (\<lambda>ip st. store_add st (new_dns_record d ip e)) ips st) d' ip' =
       (if d' = d \<and> ip' \<in> set ips then Some (new_dns_record d ip' e) else store_get st d' ip')"
  using fold_add_records by blast

text \<open>C14: an answer to an A question is remembered and routed exactly: for the addresses at the end of the
  question's CNAME chain, and no other, the store holds a record under the asked name, which expires
  after a TTL between one second and the TTL of every A record of the answer; each of them is held or
  requested as a route of every interface some name of the chain belongs to, nothing else is requested,
  and the history ends with the query, its addresses sorted.\<close>

theorem answer_routed:
  assumes "service_inv s" and "is_order (sch_ifaces ch)" and "msg_question resp = q # qs"
    and "scan_answer (msg_answer resp) ([], None, - 1) = Inr (name_ips, cnames, ttl)"
    and "cname_path cnames (q_name q) p" and "addresses_of (last p) (msg_answer resp) \<noteq> []"
  shows "\<exists>s' w' log ttl' e.
     process_type_a (traced nc) ch client resp (s, (w, [])) = Inr (s', (w', log)) \<and> service_inv s'
     \<and> 1 \<le> ttl' \<and> (\<forall>h a. RR_A h a \<in> set (msg_answer resp) \<longrightarrow> ttl' \<le> max 1 (hdr_ttl h))
     \<and> (\<forall>d ip. store_get (ic_store (sv_ctl s')) d ip =
          (if d = normalize_name (q_name q) \<and> ip \<in> set (addresses_of (last p) (msg_answer resp))
           then Some (new_dns_record d ip (fst (sch_query ch) + uint ttl' * second))
           else store_get (ic_store (sv_ctl s)) d ip))
     \<and> (\<forall>ip \<in> set (addresses_of (last p) (msg_answer resp)). \<forall>i \<in> chain_ifaces ch (sv_ctl s) p.
          route_of (sv_ctl s) i ip \<in> set_elems (ic_routes (sv_ctl s')) \<or> add_call (sv_ctl s) i ip \<in> set log)
     \<and> set log \<subseteq> {add_call (sv_ctl s) i ip | i ip.
          i \<in> chain_ifaces ch (sv_ctl s) p \<and> ip \<in> set (addresses_of (last p) (msg_answer resp))}
     \<and> se_val (last (stream_entries (sv_queries s'))) = e
     \<and> dq_domain e = normalize_name (q_name q) \<and> dq_ttl e = ttl'
     \<and> dq_ips e = sort (addresses_of (last p) (msg_answer resp)) \<and> set (dq_routed e) = chain_ifaces ch (sv_ctl s) p"
proof -
  let ?ips = "addresses_of (last p) (msg_answer resp)" and ?ttl = "fold (note_ttl cnames) p ttl"
  obtain res qs' c' wl cu where
    proc: "process_type_a (traced nc) ch client resp (s, (w, [])) = Inr (s\<lparr>sv_queries := qs', sv_ctl := c'\<rparr>, wl)"
      "rb_inv (bs_buf qs')" "last (stream_entries qs') = \<lparr>se_cursor = cu, se_val = res\<lparr>dq_cursor := cu\<rparr>\<rparr>"
      "fold (remember_ip (traced nc) res) (sort ?ips) (sv_ctl s, (w, [])) = (c', wl)"
    and res: "dq_domain res = normalize_name (q_name q)" "dq_time res = fst (sch_query ch)"
      "dq_ttl res = max ?ttl 1" "dq_ips res = sort ?ips" "set (dq_routed res) = chain_ifaces ch (sv_ctl s) p"
    using process_type_a_run [OF assms, of "traced nc" client "(w, [])"] by blast
  obtain w' log where wl: "wl = (w', log)" by (cases wl)
  have ttl: "dq_ttl res \<le> max 1 (hdr_ttl h)" if "RR_A h a \<in> set (msg_answer resp)" for h a
  proof -
    have "?ttl \<le> hdr_ttl h"
      using scan_answer_ttl [OF assms(4)] that fold_note_ttl_le [of cnames p ttl] order_trans by blast
    from max.mono [OF this order_refl [of 1]] show ?thesis unfolding res(3) max.commute [of 1] .
  qed
  have inv: "set_inv (ic_routes (sv_ctl s))" "store_inv (ic_store (sv_ctl s))"
    using assms(1) by (auto simp: service_inv_def)
  note r = remember_ips_traced [OF proc(4) [unfolded wl] inv(1), unfolded res]
  have store: "store_inv (ic_store c') \<and> store_get (ic_store c') d ip =
      (if d = normalize_name (q_name q) \<and> ip \<in> set ?ips
       then Some (new_dns_record d ip (fst (sch_query ch) + uint (dq_ttl res) * second))
       else store_get (ic_store (sv_ctl s)) d ip)" for d ip
    using r fold_add_records [OF inv(2)] by (auto simp: res(3))
  let ?s' = "s\<lparr>sv_queries := qs', sv_ctl := c'\<rparr>"
  have "service_inv ?s'" using assms(1) proc(2) r store by (simp add: service_inv_def)
  with r ttl store proc(1,3) res show ?thesis
    by (intro exI [of _ ?s'] exI [of _ w'] exI [of _ log] exI [of _ "dq_ttl res"] exI [of _ "res\<lparr>dq_cursor := cu\<rparr>"])
      (simp add: wl)
qed

lemma new_service_inv:
  assumes "0 < n" and "set_inv (ic_routes ctl)" and "store_inv (ic_store ctl)"
  shows "\<exists>s. new_dns_routing_service ctl n = Inr s \<and> sv_ctl s = ctl \<and> service_inv s
     \<and> stream_entries (sv_queries s) = [] \<and> stream_entries (sv_raw_queries s) = []
     \<and> rb_cap (bs_buf (sv_raw_queries s)) = n"
proof -
  obtain b where b: "new_ring_buf \<lparr>se_cursor = 0, se_val = zero_dns_query\<rparr> n = Inr b" "rb_inv b" "rb_list b = []"
    using new_ring_buf_inv [OF assms(1)] by metis
  obtain b' where b': "new_ring_buf \<lparr>se_cursor = 0, se_val = zero_dns_raw_query\<rparr> n = Inr b'" "rb_inv b'" "rb_list b' = []" "rb_cap b' = n"
    using new_ring_buf_inv [OF assms(1)] by metis
  show ?thesis
    using b b' assms(2,3) by (simp add: new_dns_routing_service_def new_buffered_stream_def service_inv_def)
qed

definition sample_svc_choice :: "(unit, unit) service_choice" where
  "sample_svc_choice = \<lparr>sch_request = (0, 0), sch_response = (0, 0), sch_query = (50, 50),
     sch_raw_listeners = rev, sch_listeners = rev, sch_hosts = (\<lambda>h. rev), sch_ifaces = rev\<rparr>"

lemma min_max_u32 [simp]: "min (- 1) (t :: u32) = t"
  by (rule min_absorb2) (rule word_order.extremum)

lemma sample_scan: "scan_answer [sample_answer 60] ([], None, - 1) = Inr ([(''a.example.'', [IPv4 1 2 3 4 32])], None, 60)"
  by (simp add: sample_answer_def new_ipv4_def new_ipv4_prefix_def ip_to4_def)

lemma sample_addresses: "addresses_of ''a.example.'' [sample_answer 60] = [IPv4 1 2 3 4 32]"
  by (simp add: addresses_of_def sample_answer_def new_ipv4_def new_ipv4_prefix_def ip_to4_def)

theorem answer_routed_witness:
  "\<exists>s s' log (ttl :: u32). new_dns_routing_service sample_ctl 5 = Inr s
     \<and> process_type_a (traced (fixed_client [])) sample_svc_choice ''c'' (sample_msg [sample_answer 60]) (s, ((), [])) = Inr (s', ((), log))
     \<and> store_get (ic_store (sv_ctl s')) ''a.example'' (IPv4 1 2 3 4 32)
         = Some (new_dns_record ''a.example'' (IPv4 1 2 3 4 32) (50 + uint ttl * second))"
proof -
  have "set_inv (ic_routes sample_ctl)" "store_inv (ic_store sample_ctl)" by simp_all
  from new_service_inv [OF _ this, of 5] obtain s :: "(unit, unit) service"
    where s: "new_dns_routing_service sample_ctl 5 = Inr s" "service_inv s" by auto
  have ord: "is_order (sch_ifaces sample_svc_choice)" by (simp add: sample_svc_choice_def)
  have q: "msg_question (sample_msg [sample_answer 60]) = sample_question # []" by (simp add: sample_msg_def)
  have scan: "scan_answer (msg_answer (sample_msg [sample_answer 60])) ([], None, - 1) =
      Inr ([(''a.example.'', [IPv4 1 2 3 4 32])], None, 60)"
    using sample_scan by (simp add: sample_msg_def)
  have p: "cname_path None (q_name sample_question) [''a.example.'']"
    by (simp add: cname_path_end sample_question_def)
  have a: "addresses_of (last [''a.example.'']) (msg_answer (sample_msg [sample_answer 60])) = [IPv4 1 2 3 4 32]"
    using sample_addresses by (simp add: sample_msg_def)
  have norm: "normalize_name (q_name sample_question) = ''a.example''"
    by (simp add: sample_question_def normalize_name_def trim_right_def)
  have "fst (sch_query sample_svc_choice) = 50" by (simp add: sample_svc_choice_def)
  moreover have "addresses_of (last [''a.example.'']) (msg_answer (sample_msg [sample_answer 60])) \<noteq> []"
    unfolding a by simp
  note answer_routed [OF s(2) ord q scan p this, where nc = "fixed_client []" and w = "()" and client = "''c''", unfolded a norm]
  then obtain s' w' log and ttl' :: u32 where
    "process_type_a (traced (fixed_client [])) sample_svc_choice ''c'' (sample_msg [sample_answer 60]) (s, ((), [])) = Inr (s', (w', log))"
    "\<forall>d ip. store_get (ic_store (sv_ctl s')) d ip =
          (if d = ''a.example'' \<and> ip \<in> set [IPv4 1 2 3 4 32]
           then Some (new_dns_record d ip (fst (sch_query sample_svc_choice) + uint ttl' * second))
           else store_get (ic_store (sv_ctl s)) d ip)" by blast
  moreover have "w' = ()" by (cases w') simp
  ultimately show ?thesis using s(1) by auto
qed

text \<open>\<open>Resolve\<close> hands on exactly what the upstream resolver returned, an error as an error, and the
  history of raw queries ends with the query and its answer, or the text of the error, in this order.\<close>

theorem resolve_transparent:
  assumes "service_inv s" and "upstream client msg w = Inr (res, w1)"
    and "service_resolve show_msg nc upstream ch client msg (s, w) = Inr (res', (s', w'))"
    and "2 \<le> rb_cap (bs_buf (sv_raw_queries s))"
  shows "res' = res
    \<and> (\<exists>es c c'. stream_entries (sv_raw_queries s') = es @
         [\<lparr>se_cursor = c, se_val = \<lparr>rq_cursor = c, rq_time = fst (sch_request ch), rq_client_addr = client,
             rq_response = False, rq_text = show_msg msg\<rparr>\<rparr>,
          \<lparr>se_cursor = c', se_val = \<lparr>rq_cursor = c', rq_time = fst (sch_response ch), rq_client_addr = client,
             rq_response = True, rq_text = (case res of Inl err \<Rightarrow> error_text msg err | Inr resp \<Rightarrow> show_msg resp)\<rparr>\<rparr>])"
proof -
  let ?txt = "case res of Inl err \<Rightarrow> error_text msg err | Inr resp \<Rightarrow> show_msg resp"
  let ?cap = "nat (rb_cap (bs_buf (sv_raw_queries s)))"
  obtain rs c where 1: "append_raw_query (sch_raw_listeners ch) (sch_request ch) client False (show_msg msg) s = Inr (s\<lparr>sv_raw_queries := rs\<rparr>)"
      "rb_inv (bs_buf rs)" "rb_cap (bs_buf rs) = rb_cap (bs_buf (sv_raw_queries s))"
      "stream_entries rs = last_n ?cap (stream_entries (sv_raw_queries s) @
         [\<lparr>se_cursor = c, se_val = \<lparr>rq_cursor = c, rq_time = fst (sch_request ch), rq_client_addr = client,
             rq_response = False, rq_text = show_msg msg\<rparr>\<rparr>])" (is "_ = last_n _ (_ @ [?e1])")
    using append_raw_query_ok [OF assms(1)] by blast
  have inv1: "service_inv (s\<lparr>sv_raw_queries := rs\<rparr>)" using assms(1) 1(2) by (simp add: service_inv_def)
  obtain rs2 c2 where 2: "append_raw_query (sch_raw_listeners ch) (sch_response ch) client True ?txt (s\<lparr>sv_raw_queries := rs\<rparr>)
         = Inr (s\<lparr>sv_raw_queries := rs2\<rparr>)"
      "stream_entries rs2 = last_n ?cap (stream_entries rs @
         [\<lparr>se_cursor = c2, se_val = \<lparr>rq_cursor = c2, rq_time = fst (sch_response ch), rq_client_addr = client,
             rq_response = True, rq_text = ?txt\<rparr>\<rparr>])" (is "_ = last_n _ (_ @ [?e2])")
    using append_raw_query_ok [OF inv1, of "sch_raw_listeners ch" "sch_response ch" client True ?txt] 1(3) by auto
  have cap: "Suc 0 < ?cap" using assms(4) by simp
  have "stream_entries rs2 = last_n ?cap (stream_entries (sv_raw_queries s) @ [?e1, ?e2])"
    unfolding 2(2) 1(4) by simp
  also have "\<dots> = last_n (?cap - 2) (stream_entries (sv_raw_queries s)) @ [?e1, ?e2]"
    using cap by (simp add: last_n_def)
  finally have entries: "stream_entries rs2 = last_n (?cap - 2) (stream_entries (sv_raw_queries s)) @ [?e1, ?e2]" .
  have keeps: "sv_raw_queries s2 = sv_raw_queries s1"
    if "process_type_a nc ch client resp (s1, w1) = Inr (s2, w2)" for resp s1 w1 s2 w2
    using that by (auto simp: process_type_a_def append_query_def Let_def
        split: list.splits sum.splits prod.splits if_splits)
  have "res' = res \<and> sv_raw_queries s' = rs2"
    using assms(2,3) 1(1) 2(1)
    by (auto simp: service_resolve_def dest: keeps split: sum.splits prod.splits if_splits)
  with entries show ?thesis by blast
qed

lemma digit_char_7: "digit_char 7 = CHR ''7''"
proof -
  have "char_of (of_char CHR ''7'' :: nat) = CHR ''7''" by (rule char_of_char)
  then show ?thesis by (simp add: digit_char_def del: char_of_char)
qed

theorem resolve_transparent_witness:
  "\<exists>s s' w'. new_dns_routing_service sample_ctl 5 = Inr s
     \<and> service_resolve (\<lambda>m. ''m'') (fixed_client []) (\<lambda>client msg w. Inr (Inl ''timeout'', w)) sample_svc_choice ''c''
           (sample_msg []) (s, ()) = Inr (Inl ''timeout'', (s', w'))
     \<and> rq_text (se_val (last (stream_entries (sv_raw_queries s')))) = ''ERROR: query (id: 7) failed: timeout''"
proof -
  have "set_inv (ic_routes sample_ctl)" "store_inv (ic_store sample_ctl)" by simp_all
  from new_service_inv [OF _ this, of 5] obtain s :: "(unit, unit) service"
    where s: "new_dns_routing_service sample_ctl 5 = Inr s" "service_inv s" "rb_cap (bs_buf (sv_raw_queries s)) = 5" by auto
  let ?up = "\<lambda>client msg w. Inr (Inl ''timeout'', w)"
  obtain rs where 1: "append_raw_query (sch_raw_listeners sample_svc_choice) (sch_request sample_svc_choice) ''c'' False ''m'' s
      = Inr (s\<lparr>sv_raw_queries := rs\<rparr>)" "rb_inv (bs_buf rs)"
    using append_raw_query_ok [OF s(2)] by blast
  have "service_inv (s\<lparr>sv_raw_queries := rs\<rparr>)" using s(2) 1(2) by (simp add: service_inv_def)
  from append_raw_query_ok [OF this, of "sch_raw_listeners sample_svc_choice" "sch_response sample_svc_choice" "''c''" True
      "error_text (sample_msg []) ''timeout''"] obtain rs2
    where 2: "append_raw_query (sch_raw_listeners sample_svc_choice) (sch_response sample_svc_choice) ''c'' True
        (error_text (sample_msg []) ''timeout'') (s\<lparr>sv_raw_queries := rs\<rparr>) = Inr (s\<lparr>sv_raw_queries := rs2\<rparr>)" by auto
  have run: "service_resolve (\<lambda>m. ''m'') (fixed_client []) ?up sample_svc_choice ''c'' (sample_msg []) (s, ())
      = Inr (Inl ''timeout'', (s\<lparr>sv_raw_queries := rs2\<rparr>, ()))"
    by (simp add: service_resolve_def 1(1) 2)
  have "2 \<le> rb_cap (bs_buf (sv_raw_queries s))" using s(3) by simp
  have id7: "error_text (sample_msg []) ''timeout'' = ''ERROR: query (id: 7) failed: timeout''"
    by (simp add: error_text_def sample_msg_def itoa_1 digit_char_7)
  from resolve_transparent [OF s(2) _ run, of "Inl ''timeout''" "()"] s(3)
  have "rq_text (se_val (last (stream_entries rs2))) = ''ERROR: query (id: 7) failed: timeout''"
    by (auto simp: id7)
  with s(1) run show ?thesis by auto
qed

text \<open>an upstream answer without a question section makes \<open>Resolve\<close> panic on a type A query, whatever
  else it holds, and so does an A record without an address; an answer to any other query is handed on
  unseen.\<close>

theorem malformed_answer_panics:
  assumes "service_inv s" and "upstream client msg w = Inr (Inr resp, w1)"
  shows "if has_single_question msg [type_a]
         then (msg_question resp = [] \<longrightarrow> service_resolve show_msg nc upstream ch client msg (s, w) = Inl IndexOutOfRange)
            \<and> (\<forall>q h rs. msg_question resp = [q] \<and> msg_answer resp = RR_A h [] # rs
                 \<longrightarrow> service_resolve show_msg nc upstream ch client msg (s, w) = Inl InvalidIPv4Address)
         else \<exists>s'. service_resolve show_msg nc upstream ch client msg (s, w) = Inr (Inr resp, (s', w1))
            \<and> sv_ctl s' = sv_ctl s \<and> sv_queries s' = sv_queries s"
proof -
  obtain rs where 1: "append_raw_query (sch_raw_listeners ch) (sch_request ch) client False (show_msg msg) s
      = Inr (s\<lparr>sv_raw_queries := rs\<rparr>)" "rb_inv (bs_buf rs)"
    using append_raw_query_ok [OF assms(1)] by blast
  have "service_inv (s\<lparr>sv_raw_queries := rs\<rparr>)" using assms(1) 1(2) by (simp add: service_inv_def)
  from append_raw_query_ok [OF this, of "sch_raw_listeners ch" "sch_response ch" client True "show_msg resp"] obtain rs2
    where 2: "append_raw_query (sch_raw_listeners ch) (sch_response ch) client True
        (show_msg resp) (s\<lparr>sv_raw_queries := rs\<rparr>) = Inr (s\<lparr>sv_raw_queries := rs2\<rparr>)" by auto
  have no_ip: "new_ipv4 [] = Inl InvalidIPv4Address"
    by (simp add: new_ipv4_def new_ipv4_prefix_def ip_to4_def)
  show ?thesis
    by (simp add: service_resolve_def 1(1) 2 assms(2) process_type_a_def no_ip)
qed

theorem malformed_answer_panics_witness:
  "\<exists>s. new_dns_routing_service sample_ctl 5 = Inr s
     \<and> service_resolve (\<lambda>m. ''m'') (fixed_client []) (\<lambda>client msg w. Inr (Inr (msg\<lparr>msg_question := []\<rparr>), w)) sample_svc_choice ''c''
           (sample_msg []) (s :: (unit, unit) service, ()) = Inl IndexOutOfRange"
proof -
  have "set_inv (ic_routes sample_ctl)" "store_inv (ic_store sample_ctl)" by simp_all
  from new_service_inv [OF _ this, of 5] obtain s :: "(unit, unit) service"
    where s: "new_dns_routing_service sample_ctl 5 = Inr s" "service_inv s" by auto
  let ?up = "\<lambda>client msg w. Inr (Inr (msg\<lparr>msg_question := []\<rparr>), w)"
  have "has_single_question (sample_msg []) [type_a]"
    by (simp add: has_single_question_def sample_msg_def sample_question_def)
  then have "service_resolve (\<lambda>m. ''m'') (fixed_client []) ?up sample_svc_choice ''c'' (sample_msg []) (s, ()) = Inl IndexOutOfRange"
    using malformed_answer_panics [OF s(2), of ?up "''c''" "sample_msg []" "()" "sample_msg []\<lparr>msg_question := []\<rparr>" "()"] by simp
  with s(1) show ?thesis by blast
qed

end
