(* ===== verification/DNSCache.thy ===== *)
theory DNSCache
  imports DNSMsg Expiry
begin

text \<open>
  \<open>dns-server/internal/dns_cache.go\<close>: answers by question, kept until the smallest positive TTL
  among their records has passed, and handed out with the time they have left. Methods hold the
  lock for their whole body. An operation that reads the clock more than once takes one argument
  per reading.
\<close>

record cache_entry =
  ce_result :: dns_msg
  ce_expires :: instant

record dns_cache =
  dc_entries :: "(question, cache_entry) gomap"

definition new_dns_cache :: dns_cache where
  "new_dns_cache = \<lparr>dc_entries = []\<rparr>"

definition entry_expired :: "instant \<Rightarrow> cache_entry \<Rightarrow> bool" where
  "entry_expired now e \<longleftrightarrow> time_after now (ce_expires e)"

definition entry_result :: "instant \<Rightarrow> cache_entry \<Rightarrow> dns_msg" where
  "entry_result now e =
     (let res = ce_result e;
          ttl = max 1 (secs_u32 (time_sub (ce_expires e) now))
      in res\<lparr>msg_answer := map (set_rr_ttl ttl) (msg_answer res)\<rparr>)"

definition cache_get :: "instant \<Rightarrow> instant \<Rightarrow> dns_cache \<Rightarrow> question \<Rightarrow> dns_msg option" where
  "cache_get now now2 s query =
     (case gm_get (dc_entries s) query of
        Some entry \<Rightarrow> if \<not> entry_expired now entry then Some (entry_result now2 entry) else None
      | None \<Rightarrow> None)"

text \<open>
  The loop of \<open>Put\<close> that looks for the smallest positive TTL, from \<open>math.MaxInt\<close> down. An \<open>int\<close> has 64 bits here, so
  that it holds every TTL. (On a target where it has 32, as \<open>mipsle\<close>, the loop passes over TTLs of \<open>2 ^ 31 - 1\<close> and more, 68
  years; smaller ones are treated alike.)
\<close>

fun min_positive_ttl :: "rr list \<Rightarrow> int \<Rightarrow> int" where
  "min_positive_ttl [] min_ttl = min_ttl"
| "min_positive_ttl (r # rs) min_ttl =
     (let ttl = uint (rr_ttl r) in
      min_positive_ttl rs (if 0 < ttl \<and> ttl < min_ttl then ttl else min_ttl))"

definition cache_put :: "instant \<Rightarrow> dns_cache \<Rightarrow> question \<Rightarrow> dns_msg \<Rightarrow> dns_cache" where
  "cache_put now s query result =
     (if msg_answer result = [] then s
      else
        let min_ttl = min_positive_ttl (msg_answer result) max_int in
        if min_ttl < max_int then
          s\<lparr>dc_entries := gm_set (dc_entries s) query
              \<lparr>ce_result = result, ce_expires = now + min_ttl * second\<rparr>\<rparr>
        else s)"

text \<open>\<open>RemoveExpired\<close> deletes while it ranges; it visits each entry once, in some order, and reads
  the clock for each: \<open>now q\<close> is the reading for the question \<open>q\<close>.\<close>

definition cache_remove_expired ::
  "(question \<times> cache_entry) order \<Rightarrow> (question \<Rightarrow> instant) \<Rightarrow> dns_cache \<Rightarrow> dns_cache"
where
  "cache_remove_expired ord now s =
     fold (\<lambda>(k, v) s. if entry_expired (now k) v then s\<lparr>dc_entries := gm_delete (dc_entries s) k\<rparr> else s)
       (ord (dc_entries s)) s"

subsection \<open>Invariant and clean-up\<close>

definition cache_inv :: "dns_cache \<Rightarrow> bool" where
  "cache_inv s \<longleftrightarrow> gm_ok (dc_entries s)"

lemma new_cache_inv [simp, invar_intros]: "cache_inv new_dns_cache"
  by (simp add: cache_inv_def new_dns_cache_def)

lemma cache_put_inv [simp, invar_intros]: "cache_inv s \<Longrightarrow> cache_inv (cache_put now s q r)"
  by (simp add: cache_inv_def cache_put_def Let_def)

lemma delete_all_entries:
  "gm_ok (dc_entries s) \<Longrightarrow> gm_ok kvs \<Longrightarrow>
   let s' = fold (\<lambda>(k, v) s. if P k v then s\<lparr>dc_entries := gm_delete (dc_entries s) k\<rparr> else s) kvs s
   in gm_ok (dc_entries s') \<and>
      gm_get (dc_entries s') q =
        (case gm_get kvs q of
           None \<Rightarrow> gm_get (dc_entries s) q
         | Some v \<Rightarrow> if P q v then None else gm_get (dc_entries s) q)"
proof (induction kvs arbitrary: s)
  case (Cons kv kvs)
  obtain k v where kv: "kv = (k, v)" by (cases kv)
  have fresh: "gm_get kvs k = None" and ok: "gm_ok kvs"
    using Cons.prems(2) by (auto simp: kv gm_ok_def map_of_eq_None_iff)
  from Cons.IH [of "if P k v then s\<lparr>dc_entries := gm_delete (dc_entries s) k\<rparr> else s"] Cons.prems(1) ok fresh
  show ?case by (auto simp: kv Let_def split: option.splits)
qed simp

lemma cache_remove_expired_spec:
  assumes "cache_inv s" and "is_order ord"
  shows "cache_inv (cache_remove_expired ord now s)"
    and "gm_get (dc_entries (cache_remove_expired ord now s)) q =
      (case gm_get (dc_entries s) q of
         None \<Rightarrow> None | Some v \<Rightarrow> if entry_expired (now q) v then None else Some v)"
  using delete_all_entries [of s "ord (dc_entries s)" "\<lambda>k v. entry_expired (now k) v" q] assms
  by (auto simp: cache_inv_def cache_remove_expired_def Let_def split: option.split)

lemma entry_expired_mono: "entry_expired now v \<Longrightarrow> now \<le> now' \<Longrightarrow> entry_expired now' v"
  by (simp add: entry_expired_def time_after_def)

interpretation cache: expiring_store "\<lambda>s q. gm_get (dc_entries s) q"
  "\<lambda>ord now s. cache_remove_expired ord (\<lambda>q. now) s" "\<lambda>ord now v. entry_expired now v"
  is_order cache_inv
  by unfold_locales
    (auto simp: cache_remove_expired_spec split: option.splits intro: entry_expired_mono)

subsection \<open>The smallest positive TTL\<close>

lemma min_positive_ttl_le: "min_positive_ttl rs m \<le> m"
  by (induction rs arbitrary: m) (auto simp: Let_def intro: order_trans less_imp_le)

lemma min_positive_ttl_lower:
  "r \<in> set rs \<Longrightarrow> 0 < uint (rr_ttl r) \<Longrightarrow> min_positive_ttl rs m \<le> uint (rr_ttl r)"
proof (induction rs arbitrary: m)
  case (Cons r' rs)
  show ?case
  proof (cases "r = r'")
    case True
    let ?m = "if uint (rr_ttl r) < m then uint (rr_ttl r) else m"
    have "min_positive_ttl rs ?m \<le> ?m" by (rule min_positive_ttl_le)
    with True Cons.prems(2) show ?thesis by (auto simp: Let_def split: if_splits)
  next
    case False
    with Cons show ?thesis by (simp add: Let_def)
  qed
qed simp

lemma min_positive_ttl_attained:
  "min_positive_ttl rs m = m \<or> (\<exists>r \<in> set rs. 0 < uint (rr_ttl r) \<and> min_positive_ttl rs m = uint (rr_ttl r))"
  by (induction rs arbitrary: m) (fastforce simp: Let_def)+

lemma min_positive_ttl_pos: "0 < m \<Longrightarrow> 0 < min_positive_ttl rs m"
  using min_positive_ttl_attained [of rs m] by auto

lemma min_positive_ttl_bound: "min_positive_ttl rs max_int < max_int \<Longrightarrow> min_positive_ttl rs max_int < 2 ^ 32"
proof -
  assume "min_positive_ttl rs max_int < max_int"
  with min_positive_ttl_attained [of rs max_int]
  obtain r where "min_positive_ttl rs max_int = uint (rr_ttl r)" by auto
  then show ?thesis using uint_lt2p [of "rr_ttl r"] by simp
qed

definition positive_ttls :: "rr list \<Rightarrow> int set" where
  "positive_ttls rs = {t \<in> (\<lambda>r. uint (rr_ttl r)) ` set rs. 0 < t}"

lemma positive_ttls_finite [simp]: "finite (positive_ttls rs)"
  by (simp add: positive_ttls_def)

lemma positive_ttls_less: "t \<in> positive_ttls rs \<Longrightarrow> 0 < t \<and> t < 2 ^ 32"
proof -
  assume "t \<in> positive_ttls rs"
  then obtain r where "t = uint (rr_ttl r)" "0 < t" by (auto simp: positive_ttls_def)
  then show ?thesis using uint_lt2p [of "rr_ttl r"] by simp
qed

lemma min_positive_ttl_Min:
  assumes "positive_ttls rs \<noteq> {}"
  shows "min_positive_ttl rs max_int = Min (positive_ttls rs)"
proof (rule sym, rule Min_eqI)
  show "finite (positive_ttls rs)" by simp
  show "min_positive_ttl rs max_int \<le> t" if "t \<in> positive_ttls rs" for t
    using that by (auto simp: positive_ttls_def intro: min_positive_ttl_lower)
  from assms obtain t where t: "t \<in> positive_ttls rs" by blast
  then have "min_positive_ttl rs max_int \<le> t"
    by (auto simp: positive_ttls_def intro: min_positive_ttl_lower)
  with positive_ttls_less [OF t] have "min_positive_ttl rs max_int \<noteq> max_int" by (simp add: max_int_def)
  with min_positive_ttl_attained [of rs max_int]
  show "min_positive_ttl rs max_int \<in> positive_ttls rs" by (auto simp: positive_ttls_def)
qed

lemma min_positive_ttl_none: "positive_ttls rs = {} \<Longrightarrow> min_positive_ttl rs m = m"
  using min_positive_ttl_attained [of rs m] by (auto simp: positive_ttls_def)

lemma Min_positive_ttls: "positive_ttls rs \<noteq> {} \<Longrightarrow> 0 < Min (positive_ttls rs) \<and> Min (positive_ttls rs) < 2 ^ 32"
  by (rule positive_ttls_less [of _ rs]) simp

text \<open>\<open>Put\<close> stores an answer that has a positive TTL and leaves the cache alone otherwise.\<close>

lemma cache_put_stores:
  assumes "positive_ttls (msg_answer m) \<noteq> {}"
  shows "cache_put t s q m = s\<lparr>dc_entries := gm_set (dc_entries s) q
     \<lparr>ce_result = m, ce_expires = t + Min (positive_ttls (msg_answer m)) * second\<rparr>\<rparr>"
proof -
  from assms have "msg_answer m \<noteq> []" by (auto simp: positive_ttls_def)
  moreover have "Min (positive_ttls (msg_answer m)) < max_int"
    using Min_positive_ttls [OF assms] by (simp add: max_int_def)
  ultimately show ?thesis by (simp add: cache_put_def Let_def min_positive_ttl_Min [OF assms])
qed

lemma cache_put_skips:
  "positive_ttls (msg_answer m) = {} \<Longrightarrow> cache_put t s q m = s"
  by (simp add: cache_put_def min_positive_ttl_none)

text \<open>What \<open>Get\<close> hands out of an entry that has at most \<open>n\<close> seconds left and is not expired by more
  than the fraction of a second between its two readings of the clock.\<close>

lemma entry_result_ttl:
  assumes "ce_expires e - now \<le> n * second" and "0 < n" and "n < 2 ^ 32" and "- second < ce_expires e - now"
  shows "\<exists>ttl. entry_result now e = (ce_result e)\<lparr>msg_answer := map (set_rr_ttl ttl) (msg_answer (ce_result e))\<rparr>
     \<and> 1 \<le> uint ttl \<and> uint ttl \<le> n"
proof -
  let ?d = "time_sub (ce_expires e) now"
  let ?ttl = "max 1 (secs_u32 ?d)"
  have sub: "?d = ce_expires e - now"
    using assms by (intro time_sub_exact) (auto simp: min_duration_def max_duration_def second_def)
  have "uint (secs_u32 ?d) \<le> n"
  proof (cases "0 \<le> ?d")
    case True
    have "?d div second \<le> n" using assms(1) sub
      by (metis zdiv_mono1 nonzero_mult_div_cancel_right second_def zero_less_numeral zero_neq_numeral)
    with True assms(3) show ?thesis by (simp add: uint_secs_u32)
  next
    case False
    then have "\<bar>?d\<bar> div second = 0" using assms(4) sub by (intro div_pos_pos_trivial) auto
    with assms(2) show ?thesis by (simp add: secs_u32_def)
  qed
  moreover have "uint ?ttl = max 1 (uint (secs_u32 ?d))"
    by (auto simp: max_def word_le_def)
  ultimately have "1 \<le> uint ?ttl \<and> uint ?ttl \<le> n" using assms(2) by simp
  then show ?thesis unfolding entry_result_def Let_def by blast
qed

lemma entry_result_exact:
  assumes "ce_expires e = now + n * second + k" and "0 \<le> k" and "k < second" and "1 \<le> n" and "n < 2 ^ 32"
  shows "entry_result now e = (ce_result e)\<lparr>msg_answer := map (set_rr_ttl (of_int n)) (msg_answer (ce_result e))\<rparr>"
proof -
  have sub: "time_sub (ce_expires e) now = n * second + k"
    using assms by (subst time_sub_exact) (auto simp: min_duration_def max_duration_def second_def)
  have "(n * second + k) div second = n"
    using assms(2,3) by (simp add: second_def)
  moreover have "0 < n * second + k" using assms by (simp add: second_def)
  ultimately have "secs_u32 (time_sub (ce_expires e) now) = of_int n"
    by (simp add: secs_u32_def sub)
  moreover have "max 1 (of_int n :: u32) = of_int n"
    using assms(4,5) by (auto simp: max_def word_le_def uint_word_of_int_eq take_bit_int_eq_self)
  ultimately show ?thesis by (simp add: entry_result_def Let_def)
qed

subsection \<open>Properties\<close>

text \<open>C16: an answer with a positive TTL, put at \<open>t\<close>, is served exactly until the smallest positive
  TTL \<open>m\<close> of its records has passed; what is served is the stored message with every TTL, the
  zero ones too, replaced by one value between 1 and \<open>m\<close>. The two clock readings of \<open>Get\<close> are
  less than a second apart.\<close>

theorem cache_put_get:
  assumes "positive_ttls (msg_answer m) \<noteq> {}"
    and "t \<le> now" and "now \<le> now2" and "now2 < now + second"
  shows "case cache_get now now2 (cache_put t s q m) q of
      None \<Rightarrow> t + Min (positive_ttls (msg_answer m)) * second < now
    | Some m' \<Rightarrow> now \<le> t + Min (positive_ttls (msg_answer m)) * second
        \<and> (\<exists>ttl. m' = m\<lparr>msg_answer := map (set_rr_ttl ttl) (msg_answer m)\<rparr>
             \<and> 1 \<le> uint ttl \<and> uint ttl \<le> Min (positive_ttls (msg_answer m)))"
proof -
  let ?n = "Min (positive_ttls (msg_answer m))"
  let ?e = "\<lparr>ce_result = m, ce_expires = t + ?n * second\<rparr>"
  have get: "cache_get now now2 (cache_put t s q m) q =
      (if now \<le> t + ?n * second then Some (entry_result now2 ?e) else None)"
    by (simp add: cache_get_def cache_put_stores [OF assms(1)] entry_expired_def time_after_def)
  show ?thesis
  proof (cases "now \<le> t + ?n * second")
    case True
    then have "ce_expires ?e - now2 \<le> ?n * second" and "- second < ce_expires ?e - now2"
      using assms(2-4) by simp_all
    from entry_result_ttl [OF this(1) _ _ this(2)] Min_positive_ttls [OF assms(1)] True get show ?thesis by auto
  next
    case False
    with get show ?thesis by simp
  qed
qed

lemma sample_positive_ttls: "positive_ttls (msg_answer (sample_msg [sample_answer 0, sample_answer 60, sample_answer 30])) = {30, 60}"
  by (auto simp: positive_ttls_def sample_msg_def sample_answer_def)

theorem cache_put_get_witness:
  "let m = sample_msg [sample_answer 0, sample_answer 60, sample_answer 30];
       s = cache_put 0 new_dns_cache sample_question m in
   cache_get (31 * second) (31 * second) s sample_question = None
   \<and> (\<exists>ttl. cache_get second second s sample_question
        = Some (m\<lparr>msg_answer := map (set_rr_ttl ttl) (msg_answer m)\<rparr>) \<and> 1 \<le> uint ttl \<and> uint ttl \<le> 30)"
proof -
  let ?m = "sample_msg [sample_answer 0, sample_answer 60, sample_answer 30]"
  have ne: "positive_ttls (msg_answer ?m) \<noteq> {}" and n: "Min (positive_ttls (msg_answer ?m)) = 30"
    by (simp_all add: sample_positive_ttls)
  from cache_put_get [OF ne, of 0 "31 * second" "31 * second" new_dns_cache sample_question]
    cache_put_get [OF ne, of 0 second second new_dns_cache sample_question]
  show ?thesis
    unfolding n by (simp add: Let_def second_def split: option.splits)
qed

subsection \<open>Histories of a cache\<close>

datatype cache_op =
    CPut instant question dns_msg
  | CRemoveExpired "(question \<times> cache_entry) order" "question \<Rightarrow> instant"

fun cache_step :: "cache_op \<Rightarrow> dns_cache \<Rightarrow> dns_cache" where
  "cache_step (CPut t q m) s = cache_put t s q m"
| "cache_step (CRemoveExpired ord now) s = cache_remove_expired ord now s"

text \<open>A clean-up that happened before \<open>now\<close>.\<close>

fun cache_op_ok :: "instant \<Rightarrow> cache_op \<Rightarrow> bool" where
  "cache_op_ok now (CPut t q m) = True"
| "cache_op_ok now (CRemoveExpired ord clock) = (is_order ord \<and> (\<forall>q. clock q \<le> now))"

text \<open>The last answer put for a question that was worth keeping.\<close>

fun note_put :: "question \<Rightarrow> cache_op \<Rightarrow> cache_entry option \<Rightarrow> cache_entry option" where
  "note_put q (CPut t q' m) e =
     (if q' = q \<and> positive_ttls (msg_answer m) \<noteq> {}
      then Some \<lparr>ce_result = m, ce_expires = t + Min (positive_ttls (msg_answer m)) * second\<rparr> else e)"
| "note_put q (CRemoveExpired ord clock) e = e"

definition live_entry :: "instant \<Rightarrow> cache_entry option \<Rightarrow> cache_entry option" where
  "live_entry now e = (case e of None \<Rightarrow> None | Some e' \<Rightarrow> if entry_expired now e' then None else e)"

lemma cache_get_live:
  "cache_get now now2 s q = map_option (entry_result now2) (live_entry now (gm_get (dc_entries s) q))"
  by (simp add: cache_get_def live_entry_def split: option.split)

lemma cache_step_live:
  assumes "cache_inv s" and "cache_op_ok now op"
    and "live_entry now (gm_get (dc_entries s) q) = live_entry now e"
  shows "cache_inv (cache_step op s)
    \<and> live_entry now (gm_get (dc_entries (cache_step op s)) q) = live_entry now (note_put q op e)"
proof (cases op)
  case (CPut t q' m)
  with assms show ?thesis
    by (cases "positive_ttls (msg_answer m) = {}") (auto simp: cache_put_stores cache_put_skips cache_inv_def)
next
  case (CRemoveExpired ord clock)
  with assms have "is_order ord" "clock q \<le> now" by auto
  with assms(1,3) CRemoveExpired show ?thesis
    by (auto simp: cache_remove_expired_spec live_entry_def split: option.splits dest: entry_expired_mono)
qed

lemma cache_history_live:
  assumes "cache_inv s" and "\<forall>op \<in> set ops. cache_op_ok now op"
    and "live_entry now (gm_get (dc_entries s) q) = live_entry now e"
  shows "live_entry now (gm_get (dc_entries (fold cache_step ops s)) q) = live_entry now (fold (note_put q) ops e)"
  using assms
proof (induction ops arbitrary: s e)
  case (Cons op ops)
  have "cache_inv (cache_step op s)"
    "live_entry now (gm_get (dc_entries (cache_step op s)) q) = live_entry now (note_put q op e)"
    using cache_step_live [of s now op q e] Cons.prems by simp_all
  with Cons.IH [of "cache_step op s" "note_put q op e"] Cons.prems show ?case by simp
qed simp

text \<open>C21: whatever sequence of \<open>Put\<close>s and clean-ups came before, \<open>Get\<close> returns the last answer
  with a positive TTL that was put for that very question, unless it has expired; an answer with
  no record or no positive TTL is never cached and does not displace one that is, and a clean-up
  is never visible.\<close>

theorem cache_serves_last_put:
  assumes "\<forall>op \<in> set ops. cache_op_ok now op"
  shows "cache_get now now2 (fold cache_step ops new_dns_cache) q =
    map_option (entry_result now2) (live_entry now (fold (note_put q) ops None))"
  using cache_history_live [OF new_cache_inv assms, of q None]
  by (simp add: cache_get_live new_dns_cache_def)

theorem cache_serves_last_put_witness:
  "let m = sample_msg [sample_answer 30]; z = sample_msg [sample_answer 0];
       ops = [CPut 0 sample_question m, CRemoveExpired rev (\<lambda>q. 20 * second), CPut (5 * second) sample_question z] in
   cache_get (25 * second) (25 * second) (fold cache_step ops new_dns_cache) sample_question
     = Some (sample_msg [sample_answer 5])"
proof -
  let ?m = "sample_msg [sample_answer 30]" and ?z = "sample_msg [sample_answer 0]"
  let ?ops = "[CPut 0 sample_question ?m, CRemoveExpired rev (\<lambda>q. 20 * second), CPut (5 * second) sample_question ?z]"
  have ok: "\<forall>op \<in> set ?ops. cache_op_ok (25 * second) op" by (simp add: second_def)
  have ttls: "positive_ttls (msg_answer ?m) = {30}" "positive_ttls (msg_answer ?z) = {}"
    by (auto simp: positive_ttls_def sample_msg_def sample_answer_def)
  let ?e = "\<lparr>ce_result = ?m, ce_expires = 30 * second\<rparr>"
  have last: "fold (note_put sample_question) ?ops None = Some ?e"
    by (simp add: ttls)
  have live: "live_entry (25 * second) (Some ?e) = Some ?e"
    by (simp add: live_entry_def entry_expired_def time_after_def second_def)
  have "entry_result (25 * second) ?e = sample_msg [sample_answer 5]"
    by (subst entry_result_exact [where n = 5 and k = 0]) (simp_all add: second_def sample_msg_def sample_answer_def)
  with cache_serves_last_put [OF ok, of "25 * second" sample_question] show ?thesis
    unfolding Let_def last live by simp
qed

end
