(* ===== verification/Resolver.thy ===== *)
theory Resolver
  imports Service DNSCache
begin

text \<open>
  The resolvers around the service: \<open>dns-server/internal/dns_resolver.go\<close> (cache, TTL override,
  verbose), \<open>mdns_resolver.go\<close> with the answer \<open>mdns_client.go\<close> builds, \<open>dns_client.go\<close>,
  \<open>doh_client.go\<close>, and the handler of \<open>dns_server_udp.go\<close>. What the third-party packages do on the
  network is a parameter. A layer's state is the pair of its own state and that of the resolver below.
\<close>

subsection \<open>Upstream clients\<close>

text \<open>\<open>dnsClient.Resolve\<close>: \<open>exchange address\<close> stands for \<open>ExchangeContext\<close>.\<close>

definition dns_client_resolve :: "(string \<Rightarrow> dns_msg \<Rightarrow> 's \<Rightarrow> (string + dns_msg) \<times> 's) \<Rightarrow> string \<Rightarrow> 's resolver" where
  "dns_client_resolve exchange address client msg s = Inr (exchange address msg s)"

text \<open>\<open>dohClient.Resolve\<close>. \<open>pack\<close> and \<open>unpack\<close> are the message codec, \<open>new_request\<close> the check of the
  URL, \<open>post\<close> the request: an error, or the status and the body or the error of reading it.\<close>

definition doh_client_resolve ::
  "(dns_msg \<Rightarrow> string + string) \<Rightarrow> (string \<Rightarrow> string option)
     \<Rightarrow> (string \<Rightarrow> string \<Rightarrow> 's \<Rightarrow> (string + int \<times> (string + string)) \<times> 's)
     \<Rightarrow> (string \<Rightarrow> string + dns_msg) \<Rightarrow> string \<Rightarrow> 's resolver"
where
  "doh_client_resolve pack new_request post unpack url client msg s =
     (case pack msg of
        Inl err \<Rightarrow> Inr (Inl (''doh_client: failed to pack request message: '' @ err), s)
      | Inr req_body \<Rightarrow>
          (case new_request url of
             Some err \<Rightarrow> Inr (Inl (''doh_client: failed to create request: '' @ err), s)
           | None \<Rightarrow>
               (case post url req_body s of
                  (Inl err, s) \<Rightarrow> Inr (Inl (''doh_client: failed to send request: '' @ err), s)
                | (Inr (status, body), s) \<Rightarrow>
                    if status \<noteq> 200 then
                      Inr (Inl (''doh_client: unexpected status code: '' @ (if status < 0 then ''-'' else []) @ itoa (nat \<bar>status\<bar>)), s)
                    else
                      (case body of
                         Inl err \<Rightarrow> Inr (Inl (''doh_client: failed to read response body: '' @ err), s)
                       | Inr resp_body \<Rightarrow>
                           (case unpack resp_body of
                              Inl err \<Rightarrow> Inr (Inl (''doh_client: failed to unpack response message: '' @ err), s)
                            | Inr res \<Rightarrow> Inr (Inr res, s))))))"

text \<open>\<open>mdnsClient.Resolve\<close>: \<open>connection\<close> opens the connection, \<open>query\<close> asks for a name and returns the
  name, TTL and length of the answer and the address it came from.\<close>

definition mdns_client_resolve ::
  "('s \<Rightarrow> (string + unit) \<times> 's) \<Rightarrow> (string \<Rightarrow> 's \<Rightarrow> (string + (string \<times> u32 \<times> u16) \<times> net_ip) \<times> 's) \<Rightarrow> 's resolver"
where
  "mdns_client_resolve connection query client msg s =
     (case connection s of
        (Inl err, s) \<Rightarrow> Inr (Inl err, s)
      | (Inr (), s) \<Rightarrow>
          (case msg_question msg of
             [] \<Rightarrow> Inl IndexOutOfRange
           | q # qs \<Rightarrow>
               (case query (trim_right (q_name q) ''.'') s of
                  (Inl err, s) \<Rightarrow> Inr (Inl err, s)
                | (Inr ((name, ttl, len), src), s) \<Rightarrow>
                    let resp = msg\<lparr>msg_response := True,
                          msg_answer := [RR_A \<lparr>hdr_name = name, hdr_type = type_a, hdr_class = class_inet,
                                               hdr_ttl = ttl, hdr_rdlength = len\<rparr> src]\<rparr>
                    in Inr (Inr resp, s))))"

subsection \<open>The mDNS resolver\<close>

fun match_domain :: "string list \<Rightarrow> string \<Rightarrow> bool" where
  "match_domain [] name = False"
| "match_domain (domain # ds) name = (if has_suffix name domain then True else match_domain ds name)"

definition should_process_query :: "mdns_config \<Rightarrow> dns_msg \<Rightarrow> bool" where
  "should_process_query cfg msg =
     (if has_single_question msg [type_a] then match_domain (md_domains cfg) (q_name (msg_question msg ! 0)) else False)"

definition mdns_resolve :: "mdns_config \<Rightarrow> 's resolver \<Rightarrow> 's resolver \<Rightarrow> 's resolver" where
  "mdns_resolve cfg mdns_client upstream client msg s =
     (if should_process_query cfg msg then mdns_client client msg s else upstream client msg s)"

subsection \<open>Cache, TTL override, verbose\<close>

text \<open>The readings of the clock in one \<open>Resolve\<close>: two by \<open>Get\<close>, one by \<open>Put\<close>.\<close>

record cache_clock =
  cc_get :: instant
  cc_result :: instant
  cc_put :: instant

definition cached_resolve :: "cache_clock \<Rightarrow> 's resolver \<Rightarrow> (dns_cache \<times> 's) resolver" where
  "cached_resolve clk upstream client msg = (\<lambda>(cache, s).
     if has_single_question msg [type_a] then
       let query = msg_question msg ! 0 in
       (case cache_get (cc_get clk) (cc_result clk) cache query of
          Some resp \<Rightarrow> Inr (Inr (resp\<lparr>msg_id := msg_id msg\<rparr>), (cache, s))
        | None \<Rightarrow>
            (case upstream client msg s of
               Inl panic \<Rightarrow> Inl panic
             | Inr (Inl err, s) \<Rightarrow> Inr (Inl err, (cache, s))
             | Inr (Inr resp, s) \<Rightarrow> Inr (Inr resp, (cache_put (cc_put clk) cache query resp, s))))
     else
       (case upstream client msg s of
          Inl panic \<Rightarrow> Inl panic
        | Inr (res, s) \<Rightarrow> Inr (res, (cache, s))))"

fun override_ttl :: "u32 \<Rightarrow> rr \<Rightarrow> rr" where
  "override_ttl ttl (RR_A h a) = RR_A (h\<lparr>hdr_ttl := min (hdr_ttl h) ttl\<rparr>) a"
| "override_ttl ttl r = r"

definition ttl_overriding_resolve :: "duration \<Rightarrow> 's resolver \<Rightarrow> 's resolver" where
  "ttl_overriding_resolve ttl upstream client msg s =
     (case upstream client msg s of
        Inl panic \<Rightarrow> Inl panic
      | Inr (Inl err, s) \<Rightarrow> Inr (Inl err, s)
      | Inr (Inr resp, s) \<Rightarrow>
          if has_single_question msg [type_a] then
            let ttl_override = secs_u32 ttl in
            if 0 < ttl_override then Inr (Inr (resp\<lparr>msg_answer := map (override_ttl ttl_override) (msg_answer resp)\<rparr>), s)
            else Inr (Inr resp, s)
          else Inr (Inr resp, s))"

definition new_ttl_overriding_resolver :: "'s resolver \<Rightarrow> duration \<Rightarrow> 's resolver" where
  "new_ttl_overriding_resolver resolver ttl = (if ttl \<le> 0 then resolver else ttl_overriding_resolve ttl resolver)"

definition indent :: "string \<Rightarrow> string" where
  "indent txt = tab # join_with [newline, tab] (split_on newline txt)"

text \<open>The verbose resolver prints: its own state is the text printed so far.\<close>

definition verbose_resolve ::
  "(question \<Rightarrow> string) \<Rightarrow> (dns_msg \<Rightarrow> string) \<Rightarrow> 's resolver \<Rightarrow> (string list \<times> 's) resolver"
where
  "verbose_resolve show_question show_msg upstream client msg = (\<lambda>(out, s).
     case msg_question msg of
       [] \<Rightarrow> Inl IndexOutOfRange
     | q # qs \<Rightarrow>
         let out = out @ [''>> DNS:'' @ [newline] @ indent (show_question q)] in
         (case upstream client msg s of
            Inl panic \<Rightarrow> Inl panic
          | Inr (Inl err, s) \<Rightarrow> Inr (Inl err, (out @ [''<< DNS error: '' @ err], s))
          | Inr (Inr resp, s) \<Rightarrow> Inr (Inr resp, (out @ [''<< DNS:'' @ [newline] @ indent (show_msg resp)], s))))"

subsection \<open>The handler of the UDP server\<close>

text \<open>\<open>set_rcode req rcode\<close> is the package's reply to a request with a response code.\<close>

definition udp_handle :: "(dns_msg \<Rightarrow> int \<Rightarrow> dns_msg) \<Rightarrow> 's resolver \<Rightarrow> string \<Rightarrow> dns_msg \<Rightarrow> 's \<Rightarrow> (dns_msg \<times> 's) panicking" where
  "udp_handle set_rcode resolve remote_addr req s =
     (case resolve remote_addr req s of
        Inl panic \<Rightarrow> Inl panic
      | Inr (Inl err, s) \<Rightarrow> Inr (set_rcode req rcode_server_failure, s)
      | Inr (Inr resp, s) \<Rightarrow> Inr (resp, s))"

subsection \<open>What a resolver promises\<close>

text \<open>
  \<open>good q m\<close>: \<open>m\<close> is a fit answer to the question \<open>q\<close>. The layers below change only TTLs and the
  id of an answer, so a promise that does not depend on them passes through every layer.
\<close>

locale resolver_contract =
  fixes resolve :: "'s resolver"
    and good :: "question \<Rightarrow> dns_msg \<Rightarrow> bool"
  assumes answers_good: "has_single_question msg [type_a] \<Longrightarrow> resolve client msg s = Inr (Inr resp, s')
            \<Longrightarrow> good (msg_question msg ! 0) resp"
    and good_ttl_id: "good q m \<Longrightarrow> good q (m\<lparr>msg_id := i, msg_answer := map (\<lambda>r. set_rr_ttl (t r) r) (msg_answer m)\<rparr>)"
begin

lemma good_id: "good q m \<Longrightarrow> good q (m\<lparr>msg_id := i\<rparr>)"
  using good_ttl_id [of q m rr_ttl i] by (simp add: map_idI)

lemma good_ttl: "good q m \<Longrightarrow> good q (m\<lparr>msg_answer := map (\<lambda>r. set_rr_ttl (t r) r) (msg_answer m)\<rparr>)"
  using good_ttl_id [of q m t "msg_id m"] by (cases m) simp

lemma good_entry: "good q (ce_result e) \<Longrightarrow> good q (entry_result now e)"
  using good_ttl [of q "ce_result e" "\<lambda>r. max 1 (secs_u32 (time_sub (ce_expires e) now))"]
  by (simp add: entry_result_def Let_def)

definition good_cache :: "dns_cache \<Rightarrow> bool" where
  "good_cache c \<longleftrightarrow> (\<forall>q e. gm_get (dc_entries c) q = Some e \<longrightarrow> good q (ce_result e))"

lemma good_cache_put: "good_cache c \<Longrightarrow> good q m \<Longrightarrow> good_cache (cache_put now c q m)"
  by (cases "positive_ttls (msg_answer m) = {}") (auto simp: good_cache_def cache_put_skips cache_put_stores)

lemma cached_good:
  assumes "cached_resolve clk resolve client msg (c, s) = Inr (res, (c', s'))" and "good_cache c"
  shows "good_cache c' \<and> (has_single_question msg [type_a] \<longrightarrow> (\<forall>resp. res = Inr resp \<longrightarrow> good (msg_question msg ! 0) resp))"
proof (cases "has_single_question msg [type_a]")
  case True
  show ?thesis
  proof (cases "cache_get (cc_get clk) (cc_result clk) c (msg_question msg ! 0)")
    case None
    show ?thesis
    proof (cases "resolve client msg s")
      case (Inr rs)
      obtain r s2 where rs: "rs = (r, s2)" by (cases rs)
      show ?thesis
      proof (cases r)
        case (Inr resp)
        have "good (msg_question msg ! 0) resp" using answers_good [OF True] \<open>resolve client msg s = Inr rs\<close> rs Inr by blast
        with assms True None \<open>resolve client msg s = Inr rs\<close> rs Inr show ?thesis
          by (auto simp: cached_resolve_def Let_def intro: good_cache_put)
      qed (use assms True None Inr rs in \<open>auto simp: cached_resolve_def Let_def\<close>)
    qed (use assms True None in \<open>simp add: cached_resolve_def Let_def\<close>)
  next
    case (Some resp)
    then obtain e where "gm_get (dc_entries c) (msg_question msg ! 0) = Some e" "resp = entry_result (cc_result clk) e"
      by (auto simp: cache_get_def split: option.splits if_splits)
    with assms(2) have "good (msg_question msg ! 0) resp" by (auto simp: good_cache_def intro: good_entry)
    with assms True Some show ?thesis by (auto simp: cached_resolve_def Let_def intro: good_id)
  qed
qed (use assms in \<open>auto simp: cached_resolve_def split: sum.splits prod.splits\<close>)

lemma override_ttl_as_set: "override_ttl t r = set_rr_ttl (case r of RR_A h a \<Rightarrow> min (hdr_ttl h) t | _ \<Rightarrow> rr_ttl r) r"
  by (cases r) simp_all

lemma ttl_overriding_good:
  assumes "ttl_overriding_resolve ttl resolve client msg s = Inr (Inr resp, s')" and "has_single_question msg [type_a]"
  shows "good (msg_question msg ! 0) resp"
proof -
  from assms(1) obtain m where m: "resolve client msg s = Inr (Inr m, s')"
      and resp: "resp = m \<or> resp = m\<lparr>msg_answer := map (override_ttl (secs_u32 ttl)) (msg_answer m)\<rparr>"
    using assms(2) by (auto simp: ttl_overriding_resolve_def Let_def split: sum.splits prod.splits if_splits)
  from answers_good [OF assms(2) m] have g: "good (msg_question msg ! 0) m" .
  have eq: "map (override_ttl (secs_u32 ttl)) (msg_answer m) =
      map (\<lambda>r. set_rr_ttl (case r of RR_A h a \<Rightarrow> min (hdr_ttl h) (secs_u32 ttl) | _ \<Rightarrow> rr_ttl r) r) (msg_answer m)"
    by (simp add: override_ttl_as_set)
  from good_ttl [OF g, of "\<lambda>r. case r of RR_A h a \<Rightarrow> min (hdr_ttl h) (secs_u32 ttl) | _ \<Rightarrow> rr_ttl r"]
  have "good (msg_question msg ! 0) (m\<lparr>msg_answer := map (override_ttl (secs_u32 ttl)) (msg_answer m)\<rparr>)" unfolding eq .
  with resp g show ?thesis by blast
qed

end

locale ttl_layer = resolver_contract resolve good
  for resolve :: "'s resolver" and good :: "question \<Rightarrow> dns_msg \<Rightarrow> bool" +
  fixes ttl :: duration

sublocale ttl_layer \<subseteq> overridden: resolver_contract "new_ttl_overriding_resolver resolve ttl" good
proof
  fix msg client s resp s'
  assume "has_single_question msg [type_a]" "new_ttl_overriding_resolver resolve ttl client msg s = Inr (Inr resp, s')"
  then show "good (msg_question msg ! 0) resp"
    using answers_good ttl_overriding_good by (auto simp: new_ttl_overriding_resolver_def split: if_splits)
qed (rule good_ttl_id)

text \<open>The mDNS client's answers echo the question and hold exactly one A record.\<close>

definition mdns_answer :: "question \<Rightarrow> dns_msg \<Rightarrow> bool" where
  "mdns_answer q m \<longleftrightarrow> msg_question m = [q] \<and> msg_response m
     \<and> (\<exists>h ip. msg_answer m = [RR_A h ip] \<and> hdr_type h = type_a \<and> hdr_class h = class_inet)"

lemma mdns_client_good:
  assumes "has_single_question msg [type_a]" and "mdns_client_resolve connection query client msg s = Inr (Inr resp, s')"
  shows "mdns_answer (msg_question msg ! 0) resp"
proof -
  from assms(1) obtain q where "msg_question msg = [q]" by (rule has_single_questionE)
  with assms(2) show ?thesis
    by (auto simp: mdns_client_resolve_def mdns_answer_def Let_def split: prod.splits sum.splits unit.splits)
qed

interpretation mdns: ttl_layer "mdns_client_resolve connection query" mdns_answer ttl for connection query ttl
proof unfold_locales
  show "mdns_answer q (m\<lparr>msg_id := i, msg_answer := map (\<lambda>r. set_rr_ttl (t r) r) (msg_answer m)\<rparr>)"
    if "mdns_answer q m" for q m i t
    using that by (auto simp: mdns_answer_def)
qed (rule mdns_client_good)

subsection \<open>Runs of the caching resolver\<close>

text \<open>An upstream resolver that also keeps the messages it answered with their answers.\<close>

definition recording :: "'s resolver \<Rightarrow> ('s \<times> (dns_msg \<times> dns_msg) list) resolver" where
  "recording upstream client msg = (\<lambda>(s, log).
     case upstream client msg s of
       Inl panic \<Rightarrow> Inl panic
     | Inr (Inl err, s') \<Rightarrow> Inr (Inl err, (s', log))
     | Inr (Inr resp, s') \<Rightarrow> Inr (Inr resp, (s', log @ [(msg, resp)])))"

type_synonym request = "string \<times> dns_msg \<times> cache_clock"

definition serve_step where
  "serve_step upstream = (\<lambda>(st, answers) (client, msg, clk).
     case cached_resolve clk (recording upstream) client msg st of
       Inl panic \<Rightarrow> Inl panic
     | Inr (res, st') \<Rightarrow> Inr (st', answers @ [(msg, res)]))"

text \<open>\<open>resp\<close> is \<open>r0\<close> with another id and other TTLs.\<close>

definition same_answer :: "dns_msg \<Rightarrow> dns_msg \<Rightarrow> bool" where
  "same_answer r0 resp \<longleftrightarrow> (\<exists>i t. resp = r0\<lparr>msg_id := i, msg_answer := map (\<lambda>r. set_rr_ttl (t r) r) (msg_answer r0)\<rparr>)"

lemma same_answer_refl: "same_answer r r"
  unfolding same_answer_def by (rule exI [of _ "msg_id r"], rule exI [of _ rr_ttl]) (simp add: map_idI)

lemma same_answer_entry: "same_answer (ce_result e) ((entry_result now e)\<lparr>msg_id := i\<rparr>)"
  unfolding same_answer_def
  by (rule exI [of _ i], rule exI [of _ "\<lambda>r. max 1 (secs_u32 (time_sub (ce_expires e) now))"])
    (simp add: entry_result_def Let_def)

definition from_log :: "(dns_msg \<times> dns_msg) list \<Rightarrow> dns_msg \<Rightarrow> dns_msg \<Rightarrow> bool" where
  "from_log log msg resp \<longleftrightarrow> (\<exists>m0 r0. (m0, r0) \<in> set log \<and> msg_question m0 = msg_question msg \<and> same_answer r0 resp)"

definition cache_logged :: "(dns_msg \<times> dns_msg) list \<Rightarrow> dns_cache \<Rightarrow> bool" where
  "cache_logged log c \<longleftrightarrow>
     (\<forall>q e. gm_get (dc_entries c) q = Some e \<longrightarrow> (\<exists>m0. (m0, ce_result e) \<in> set log \<and> msg_question m0 = [q]))"

lemma cache_logged_mono: "cache_logged log c \<Longrightarrow> set log \<subseteq> set log' \<Longrightarrow> cache_logged log' c"
  unfolding cache_logged_def by blast

lemma from_log_mono: "from_log log m r \<Longrightarrow> set log \<subseteq> set log' \<Longrightarrow> from_log log' m r"
  unfolding from_log_def by blast

lemma cache_logged_put:
  "cache_logged log c \<Longrightarrow> (m0, r) \<in> set log \<Longrightarrow> msg_question m0 = [q] \<Longrightarrow> cache_logged log (cache_put t c q r)"
  by (cases "positive_ttls (msg_answer r) = {}") (auto simp: cache_logged_def cache_put_skips cache_put_stores)

lemma recording_cases:
  assumes "recording upstream client msg (s, log) = Inr (res, (s', log'))"
  shows "set log \<subseteq> set log' \<and> (\<forall>resp. res = Inr resp \<longrightarrow> (msg, resp) \<in> set log')"
  using assms by (auto simp: recording_def split: sum.splits prod.splits)

lemma cached_step_logged:
  assumes "cached_resolve clk (recording upstream) client msg (c, (s, log)) = Inr (res, (c', (s', log')))"
    and "cache_logged log c"
  shows "cache_logged log' c' \<and> set log \<subseteq> set log' \<and> (\<forall>resp. res = Inr resp \<longrightarrow> from_log log' msg resp)"
proof (cases "has_single_question msg [type_a]")
  case single: True
  then obtain q where q: "msg_question msg = [q]" by (rule has_single_questionE)
  show ?thesis
  proof (cases "cache_get (cc_get clk) (cc_result clk) c q")
    case (Some resp)
    then obtain e where e: "gm_get (dc_entries c) q = Some e" "resp = entry_result (cc_result clk) e"
      by (auto simp: cache_get_def split: option.splits if_splits)
    with assms(2) obtain m0 where "(m0, ce_result e) \<in> set log" "msg_question m0 = [q]"
      unfolding cache_logged_def by blast
    then have "from_log log msg (resp\<lparr>msg_id := msg_id msg\<rparr>)"
      unfolding from_log_def q e(2) using same_answer_entry by blast
    with assms single Some q show ?thesis by (auto simp: cached_resolve_def Let_def)
  next
    case None
    with assms(1) single q obtain c0 where run: "recording upstream client msg (s, log) = Inr (res, (s', log'))"
        and c': "c' = c \<or> (\<exists>resp. res = Inr resp \<and> c' = cache_put (cc_put clk) c q resp)"
      by (auto simp: cached_resolve_def Let_def split: sum.splits prod.splits)
    note r = recording_cases [OF run]
    have "cache_logged log' c" using cache_logged_mono [OF assms(2)] r by blast
    then have "cache_logged log' c'" using c' r q by (auto intro: cache_logged_put)
    with r show ?thesis unfolding from_log_def using same_answer_refl by blast
  qed
next
  case False
  with assms(1) have run: "recording upstream client msg (s, log) = Inr (res, (s', log'))" and "c' = c"
    by (auto simp: cached_resolve_def split: sum.splits prod.splits)
  with recording_cases [OF run] cache_logged_mono [OF assms(2)] show ?thesis
    unfolding from_log_def using same_answer_refl by blast
qed

lemma serve_logged:
  assumes "fold_res (serve_step upstream) ((c, (s, log)), answers) reqs = Inr ((c', (s', log')), answers')"
    and "cache_logged log c" and "\<forall>(m, res) \<in> set answers. \<forall>resp. res = Inr resp \<longrightarrow> from_log log m resp"
  shows "\<forall>(m, res) \<in> set answers'. \<forall>resp. res = Inr resp \<longrightarrow> from_log log' m resp"
  using assms
proof (induction reqs arbitrary: c s log answers)
  case (Cons req reqs)
  obtain client msg clk where req: "req = (client, msg, clk)" by (cases req)
  from Cons.prems(1) obtain res c1 s1 log1
    where step: "cached_resolve clk (recording upstream) client msg (c, (s, log)) = Inr (res, (c1, (s1, log1)))"
      and rest: "fold_res (serve_step upstream) ((c1, (s1, log1)), answers @ [(msg, res)]) reqs = Inr ((c', (s', log')), answers')"
    by (auto simp: req serve_step_def split: sum.splits prod.splits)
  note l = cached_step_logged [OF step Cons.prems(2)]
  have "\<forall>(m, res) \<in> set (answers @ [(msg, res)]). \<forall>resp. res = Inr resp \<longrightarrow> from_log log1 m resp"
    using Cons.prems(3) l from_log_mono by fastforce
  with Cons.IH [OF rest] l show ?case by blast
qed simp

subsection \<open>Properties\<close>

text \<open>whatever requests a caching resolver serves, over any upstream resolver and any clock, each
  answer it gives is an answer the upstream resolver gave to a message with the same question, with
  at most its id and its TTLs changed; nothing is invented and no question gets another's answer.\<close>

theorem cached_answers_come_from_upstream:
  assumes "fold_res (serve_step upstream) ((new_dns_cache, (s, [])), []) reqs = Inr ((c', (s', log)), answers)"
    and "(msg, Inr resp) \<in> set answers"
  shows "\<exists>m0 r0. (m0, r0) \<in> set log \<and> msg_question m0 = msg_question msg \<and> same_answer r0 resp"
proof -
  have "cache_logged [] new_dns_cache" by (simp add: cache_logged_def new_dns_cache_def)
  from serve_logged [OF assms(1) this] assms(2) show ?thesis unfolding from_log_def by fastforce
qed

definition sample_clock :: "instant \<Rightarrow> cache_clock" where
  "sample_clock t = \<lparr>cc_get = t, cc_result = t, cc_put = t\<rparr>"

theorem cached_answers_come_from_upstream_witness:
  "let m = sample_msg [sample_answer 60];
       up = (\<lambda>client msg s. Inr (Inr m, s + 1));
       reqs = [(''c'', m\<lparr>msg_id := 1\<rparr>, sample_clock 0), (''d'', m\<lparr>msg_id := 2\<rparr>, sample_clock (10 * second))] in
   case fold_res (serve_step up) ((new_dns_cache, (0 :: nat, [])), []) reqs of
     Inl panic \<Rightarrow> False
   | Inr ((c, (s, log)), answers) \<Rightarrow> s = 1 \<and> length answers = 2
       \<and> (\<forall>(msg, res) \<in> set answers. \<forall>resp. res = Inr resp \<longrightarrow>
            (\<exists>m0 r0. (m0, r0) \<in> set log \<and> msg_question m0 = msg_question msg \<and> same_answer r0 resp))"
proof -
  let ?m = "sample_msg [sample_answer 60]"
  let ?up = "\<lambda>client msg s. Inr (Inr ?m, s + 1)"
  let ?reqs = "[(''c'', ?m\<lparr>msg_id := 1\<rparr>, sample_clock 0), (''d'', ?m\<lparr>msg_id := 2\<rparr>, sample_clock (10 * second))]"
  have ttls: "positive_ttls (msg_answer ?m) = {60}"
    by (auto simp: positive_ttls_def sample_msg_def sample_answer_def)
  have single: "has_single_question (?m\<lparr>msg_id := i\<rparr>) [type_a]" for i
    by (simp add: has_single_question_def sample_msg_def sample_question_def)
  have q: "msg_question ?m ! 0 = sample_question" by (simp add: sample_msg_def)
  let ?c1 = "\<lparr>dc_entries = [(sample_question, \<lparr>ce_result = ?m, ce_expires = 60 * second\<rparr>)]\<rparr>"
  let ?m1 = "?m\<lparr>msg_id := 1\<rparr>" and ?m2 = "?m\<lparr>msg_id := 2\<rparr>"
  have miss: "cache_get 0 0 new_dns_cache sample_question = None" by (simp add: cache_get_def new_dns_cache_def)
  have put: "cache_put 0 new_dns_cache sample_question ?m = ?c1"
    using cache_put_stores [of ?m 0 new_dns_cache sample_question] by (simp add: ttls new_dns_cache_def)
  obtain r where hit: "cache_get (10 * second) (10 * second) ?c1 sample_question = Some r"
    by (simp add: cache_get_def entry_expired_def time_after_def second_def)
  have 1: "serve_step ?up ((new_dns_cache, (0 :: nat, [])), []) (''c'', ?m1, sample_clock 0)
      = Inr ((?c1, (1, [(?m1, ?m)])), [(?m1, Inr ?m)])"
    using single [of 1] by (simp add: serve_step_def cached_resolve_def recording_def q miss put sample_clock_def Let_def)
  have 2: "serve_step ?up ((?c1, (1, [(?m1, ?m)])), [(?m1, Inr ?m)]) (''d'', ?m2, sample_clock (10 * second))
      = Inr ((?c1, (1, [(?m1, ?m)])), [(?m1, Inr ?m), (?m2, Inr (r\<lparr>msg_id := 2\<rparr>))])"
    using single [of 2] by (simp add: serve_step_def cached_resolve_def q hit sample_clock_def Let_def)
  have r: "fold_res (serve_step ?up) ((new_dns_cache, (0 :: nat, [])), []) ?reqs =
      Inr ((?c1, (1, [(?m1, ?m)])), [(?m1, Inr ?m), (?m2, Inr (r\<lparr>msg_id := 2\<rparr>))])"
    unfolding fold_res.simps 1 2 sum.case ..
  show ?thesis
    unfolding Let_def r sum.case prod.case
    apply (rule conjI, rule refl)
    apply (rule conjI, simp)
    using cached_answers_come_from_upstream [OF r] by blast
qed

text \<open>A query goes to the mDNS client exactly when it is a single A question for a host below one of
  the configured domains, however many dots the configuration writes around the domain; every other
  message goes to the upstream resolver.\<close>

theorem mdns_dispatch:
  "mdns_resolve (mdns_normalize cfg) mdns_client upstream client msg s =
     (if (\<exists>q. msg_question msg = [q] \<and> q_type q = type_a
            \<and> (\<exists>d \<in> set (md_domains cfg). \<exists>host. q_name q = host @ ''.'' @ trim d ''.'' @ ''.''))
      then mdns_client client msg s else upstream client msg s)"
proof -
  have "match_domain ds name \<longleftrightarrow> (\<exists>d \<in> set ds. has_suffix name d)" for ds name
    by (induction ds) auto
  then have "should_process_query (mdns_normalize cfg) msg \<longleftrightarrow>
      (\<exists>q. msg_question msg = [q] \<and> q_type q = type_a
            \<and> (\<exists>d \<in> set (md_domains cfg). \<exists>host. q_name q = host @ ''.'' @ trim d ''.'' @ ''.''))"
    by (cases "msg_question msg")
      (auto simp: should_process_query_def has_single_question_def mdns_normalize_def has_suffix_iff)
  then show ?thesis by (simp add: mdns_resolve_def)
qed

text \<open>\<open>capped on ttl r r'\<close>: \<open>r'\<close> is \<open>r\<close> with, when \<open>on\<close>, the TTL of an A record capped at \<open>ttl\<close>.\<close>

definition capped :: "bool \<Rightarrow> duration \<Rightarrow> rr \<Rightarrow> rr \<Rightarrow> bool" where
  "capped on ttl r r' \<longleftrightarrow> r' = set_rr_ttl (rr_ttl r') r
     \<and> uint (rr_ttl r') = (case r of
          RR_A h a \<Rightarrow> if on then min (uint (hdr_ttl h)) (ttl div second) else uint (hdr_ttl h)
        | _ \<Rightarrow> uint (rr_ttl r))"

lemma capped_off [simp]: "capped False ttl r r"
  by (cases r) (simp_all add: capped_def)

lemma capped_override:
  assumes "second \<le> ttl" and "ttl < 2 ^ 32 * second"
  shows "capped True ttl r (override_ttl (secs_u32 ttl) r)"
proof -
  have "uint (secs_u32 ttl) = ttl div second"
    using assms by (intro uint_secs_u32) (auto simp: second_def)
  then show ?thesis by (cases r) (auto simp: capped_def min_def word_le_def)
qed

text \<open>The TTL override caps the TTL of every A record of an answer to an A question at the configured
  number of whole seconds and changes nothing else; an override below one second changes nothing at
  all, and errors pass through.\<close>

theorem ttl_override_bounds:
  assumes "ttl < 2 ^ 32 * second"
  shows "case upstream client msg s of
      Inr (Inr m, s') \<Rightarrow> (\<exists>resp. new_ttl_overriding_resolver upstream ttl client msg s = Inr (Inr resp, s')
        \<and> resp = m\<lparr>msg_answer := msg_answer resp\<rparr>
        \<and> list_all2 (capped (has_single_question msg [type_a] \<and> second \<le> ttl) ttl) (msg_answer m) (msg_answer resp))
    | failed \<Rightarrow> new_ttl_overriding_resolver upstream ttl client msg s = failed"
proof (cases "\<exists>m s'. upstream client msg s = Inr (Inr m, s')")
  case True
  then obtain m s' where m: "upstream client msg s = Inr (Inr m, s')" by blast
  show ?thesis
  proof (cases "has_single_question msg [type_a] \<and> second \<le> ttl")
    case on: True
    have "0 < ttl" using on by (simp add: second_def)
    have "uint (secs_u32 ttl) = ttl div second"
      using on assms by (intro uint_secs_u32) (auto simp: second_def)
    with on have pos: "0 < secs_u32 ttl" by (simp add: word_less_def second_def pos_imp_zdiv_pos_iff)
    show ?thesis
      using on assms pos m \<open>0 < ttl\<close>
      by (simp add: new_ttl_overriding_resolver_def ttl_overriding_resolve_def Let_def list_all2_map2
          list_all2_same capped_override)
  next
    case off: False
    have z: "\<not> 0 < secs_u32 ttl" if "0 < ttl" "ttl < second"
      using that by (simp add: secs_u32_def)
    have "new_ttl_overriding_resolver upstream ttl client msg s = Inr (Inr m, s')"
      using off z m by (auto simp: new_ttl_overriding_resolver_def ttl_overriding_resolve_def Let_def)
    then show ?thesis using off m by (auto simp: list_all2_same)
  qed
next
  case False
  then show ?thesis
    by (auto simp: new_ttl_overriding_resolver_def ttl_overriding_resolve_def split: sum.splits prod.splits)
qed

theorem ttl_override_bounds_witness:
  "\<exists>resp. new_ttl_overriding_resolver (\<lambda>client msg s. Inr (Inr (sample_msg [sample_answer 300]), s)) (90 * second)
              [] (sample_msg []) () = Inr (Inr resp, ())
     \<and> list_all2 (capped True (90 * second)) [sample_answer 300] (msg_answer resp)"
proof -
  have ttl: "(90 * second :: int) < 2 ^ 32 * second" by (simp add: second_def)
  have on: "(has_single_question (sample_msg []) [type_a] \<and> second \<le> 90 * second) = True"
    by (simp add: has_single_question_def sample_msg_def sample_question_def second_def)
  have m: "msg_answer (sample_msg [sample_answer 300]) = [sample_answer 300]" by (simp add: sample_msg_def)
  show ?thesis
    using ttl_override_bounds [OF ttl, of "\<lambda>client msg s. Inr (Inr (sample_msg [sample_answer 300]), s)" "[]" "sample_msg []" "()"]
    unfolding sum.case prod.case m on by blast
qed

text \<open>The DoH client answers exactly when the message could be packed, the URL was accepted, the
  server answered with status 200 and a readable body, and the body unpacks: then with what it
  unpacks to. Every other outcome is an error, never a panic, and nothing is sent for a message that
  cannot be packed.\<close>

theorem doh_client_answers:
  "(doh_client_resolve pack new_request post unpack url client msg s = Inr (Inr res, s') \<longleftrightarrow>
      (\<exists>req_body resp_body. pack msg = Inr req_body \<and> new_request url = None
         \<and> post url req_body s = (Inr (200, Inr resp_body), s') \<and> unpack resp_body = Inr res))
   \<and> (if \<not> isl (pack msg) \<and> new_request url = None
      then \<exists>r s2. doh_client_resolve pack new_request post unpack url client msg s = Inr (r, s2)
      else \<exists>err. doh_client_resolve pack new_request post unpack url client msg s = Inr (Inl err, s))"
  by (auto simp: doh_client_resolve_def split: sum.splits option.splits prod.splits)

end
