(* ===== verification/HTTPApi.thy ===== *)
theory HTTPApi
  imports Logging IPRoutes DNSMsg Resolver
begin

text \<open>
  The HTTP handlers of \<open>dns-server/internal/dns_server_http.go\<close>: the lists of logs, queries and raw queries with
  their filters and page links, the list of routes, and DNS over HTTP. A handler is a function of what it reads from
  the request; \<open>net/http\<close>, the JSON encoder and the printing of URLs are parameters. The lemmas show which
  entries a page holds, that pages join without loss, how routes are sorted, and what the DNS over HTTP client gets
  from this server.
\<close>

subsection \<open>Query parameters\<close>

type_synonym url_values = "(string, string list) gomap"

definition values_has :: "url_values \<Rightarrow> string \<Rightarrow> bool" where
  "values_has q k = gm_has q k"

definition values_get :: "url_values \<Rightarrow> string \<Rightarrow> string" where
  "values_get q k = (case gm_get q k of Some (v # vs) \<Rightarrow> v | _ \<Rightarrow> [])"

definition query_param_set :: "url_values \<Rightarrow> string \<Rightarrow> bool" where
  "query_param_set q name =
     (if values_has q name then
        let v = values_get q name in v = [] \<or> v = ''1'' \<or> to_lower v = ''true''
      else False)"

text \<open>\<open>updateURLQuery\<close>: a value of one zero byte deletes the key; \<open>url_text\<close> prints the URL with the
  values as its query. The keys are distinct, so the order of the range does not matter.\<close>

definition update_url_value :: "string \<times> string \<Rightarrow> url_values \<Rightarrow> url_values" where
  "update_url_value = (\<lambda>(k, v) q. if v = [CHR 0x00] then gm_delete q k else gm_set q k [v])"

definition update_url_query :: "(url_values \<Rightarrow> string) \<Rightarrow> url_values \<Rightarrow> (string \<times> string) list \<Rightarrow> string" where
  "update_url_query url_text q values = url_text (fold update_url_value values q)"

subsection \<open>Filters\<close>

definition filter_logs :: "url_values \<Rightarrow> (log_entry \<Rightarrow> bool) option" where
  "filter_logs query =
     (let levels = filter (\<lambda>s. s \<noteq> []) (split_on CHR '','' (values_get query ''level'')) in
      if length levels = 0 then None
      else let level_set = fold (\<lambda>level m. gm_set m level True) levels [] in
           Some (\<lambda>val. gm_get level_set (le_level val) = Some True))"

text \<open>\<open>lookup\<close> is the controller's \<open>LookupHost\<close>.\<close>

definition filter_queries :: "(string \<Rightarrow> string) \<Rightarrow> url_values \<Rightarrow> (dns_query \<Rightarrow> bool) option" where
  "filter_queries lookup query =
     (let domain = trim_space (values_get query ''domain'');
          search = trim_space (values_get query ''search'');
          exclude_routed = query_param_set query ''exclude_routed''
      in if domain = [] \<and> search = [] \<and> \<not> exclude_routed then None
         else Some (\<lambda>val.
                if exclude_routed \<and> lookup (dq_domain val) \<noteq> [] then False
                else if search \<noteq> [] \<and> \<not> str_contains (dq_domain val) search then False
                else if domain \<noteq> [] \<and> dq_domain val \<noteq> domain then False
                else True))"

definition filter_raw_queries :: "url_values \<Rightarrow> (dns_raw_query \<Rightarrow> bool) option" where
  "filter_raw_queries query =
     (let search = trim_space (values_get query ''search'');
          only_responses = query_param_set query ''only_responses''
      in if search = [] \<and> \<not> only_responses then None
         else Some (\<lambda>val.
                if only_responses \<and> \<not> rq_response val then False
                else if search \<noteq> [] \<and> \<not> str_contains (rq_text val) search then False
                else True))"

subsection \<open>Lists\<close>

text \<open>What \<open>createListHandler\<close> reads from the query: direction, mode, cursor and count. A cursor or count that
  does not parse is what the parser returns beside its error.\<close>

record list_request =
  lq_backward :: bool
  lq_after :: bool
  lq_cursor :: cursor
  lq_count :: int

definition list_request_of :: "url_values \<Rightarrow> list_request" where
  "list_request_of query =
     (let backward = query_param_set query ''backward'';
          (cursor, after_mode) =
            (if values_has query ''after'' then (fst (parse_cursor (values_get query ''after'')), True)
             else if values_has query ''before'' then (fst (parse_cursor (values_get query ''before'')), False)
             else if backward then (- 1, True)
             else (0, True));
          cnt = (if values_has query ''count'' then max 1 (fst (atoi (values_get query ''count''))) else 50)
      in \<lparr>lq_backward = backward, lq_after = after_mode, lq_cursor = cursor, lq_count = cnt\<rparr>)"

record 'a list_page =
  lp_result :: "'a query_result"
  lp_prev_url :: string
  lp_next_url :: string

definition list_handler ::
  "int \<Rightarrow> (url_values \<Rightarrow> string) \<Rightarrow> (url_values \<Rightarrow> ('a \<Rightarrow> bool) option) \<Rightarrow> ('a, 'l) buffered \<Rightarrow> url_values \<Rightarrow> 'a list_page panicking"
where
  "list_handler max_cap url_text filter_factory st query =
     (let predicate = filter_factory query;
          r = list_request_of query
      in case (if lq_backward r = lq_after r
               then stream_query_backward max_cap st (lq_cursor r) (lq_count r) predicate
               else stream_query max_cap st (lq_cursor r) (lq_count r) predicate) of
           Inl panic \<Rightarrow> Inl panic
         | Inr res \<Rightarrow>
             let res = (if \<not> lq_after r then qr_reverse res else res) in
             Inr \<lparr>lp_result = res,
                  lp_prev_url = update_url_query url_text query
                    [(''after'', [CHR 0x00]), (''before'', cursor_string (qr_first res))],
                  lp_next_url = update_url_query url_text query
                    [(''after'', cursor_string (qr_last res)), (''before'', [CHR 0x00])]\<rparr>)"

subsection \<open>Routes\<close>

definition route_compare :: "ip_route_dns \<Rightarrow> ip_route_dns \<Rightarrow> int" where
  "route_compare a b =
     (let ap = has_ip_prefix (rt_addr a); bp = has_ip_prefix (rt_addr b) in
      if ap \<noteq> bp then (if ap then 1 else -1)
      else if rt_addr a < rt_addr b then -1 else if rt_addr b < rt_addr a then 1 else 0)"

text \<open>\<open>slices.SortFunc\<close> does not say in which order it leaves equal elements; this sort keeps it.\<close>

fun insert_by :: "('a \<Rightarrow> 'a \<Rightarrow> int) \<Rightarrow> 'a \<Rightarrow> 'a list \<Rightarrow> 'a list" where
  "insert_by cmp x [] = [x]"
| "insert_by cmp x (y # ys) = (if cmp x y \<le> 0 then x # y # ys else y # insert_by cmp x ys)"

definition sort_func :: "('a \<Rightarrow> 'a \<Rightarrow> int) \<Rightarrow> 'a list \<Rightarrow> 'a list" where
  "sort_func cmp xs = foldr (insert_by cmp) xs []"

definition handle_routes ::
  "ip_route order \<Rightarrow> (ip_route \<Rightarrow> (string \<times> dns_record) order) \<Rightarrow> (ip_route \<Rightarrow> dns_record \<Rightarrow> instant) \<Rightarrow> ip_ctl \<Rightarrow> ip_route_dns list"
where
  "handle_routes ord lookup clock s = sort_func route_compare (ctl_routes ord lookup clock s)"

subsection \<open>DNS over HTTP\<close>

definition dns_message_media_type :: string where
  "dns_message_media_type = ''application/dns-message''"

record http_request =
  hq_content_type :: string
  hq_accept :: string
  hq_body :: "string + string"
  hq_remote_addr :: string

record http_reply =
  hr_status :: int
  hr_headers :: "(string \<times> string) list"
  hr_body :: string

text \<open>\<open>handleDNSQuery\<close>: a reply, or the status and text of an error. \<open>unpack\<close> and \<open>pack\<close> are the message
  codec; the body is what reading it gives.\<close>

definition handle_dns_query ::
  "(string \<Rightarrow> string + dns_msg) \<Rightarrow> (dns_msg \<Rightarrow> string + string) \<Rightarrow> 's resolver \<Rightarrow> http_request \<Rightarrow> 's
     \<Rightarrow> (((int \<times> string) + http_reply) \<times> 's) panicking"
where
  "handle_dns_query unpack pack resolve req s =
     (if hq_content_type req \<noteq> dns_message_media_type \<or> hq_accept req \<noteq> dns_message_media_type then
        Inr (Inl (400, ''http: unexpected request format''), s)
      else
        (case hq_body req of
           Inl err \<Rightarrow> Inr (Inl (500, ''http: failed to read body: '' @ err), s)
         | Inr body \<Rightarrow>
             (case unpack body of
                Inl err \<Rightarrow> Inr (Inl (400, ''http: failed to unpack DNS request: '' @ err), s)
              | Inr dns_req \<Rightarrow>
                  (case resolve (hq_remote_addr req) dns_req s of
                     Inl panic \<Rightarrow> Inl panic
                   | Inr (Inl err, s) \<Rightarrow> Inr (Inl (500, ''http: failed to send DNS request: '' @ err), s)
                   | Inr (Inr dns_resp, s) \<Rightarrow>
                       (case pack dns_resp of
                          Inl err \<Rightarrow> Inr (Inl (500, ''http: failed to pack DNS response: '' @ err), s)
                        | Inr resp_bytes \<Rightarrow>
                            Inr (Inr \<lparr>hr_status = 200,
                                   hr_headers = [(''Content-Type'', dns_message_media_type),
                                                 (''Content-Length'', itoa (length resp_bytes))],
                                   hr_body = resp_bytes\<rparr>, s))))))"

text \<open>\<open>wrapHandler\<close>: an error becomes a reply with its status and no body.\<close>

definition wrap_handler :: "(((int \<times> string) + http_reply) \<times> 's) panicking \<Rightarrow> (http_reply \<times> 's) panicking" where
  "wrap_handler r =
     (case r of
        Inl panic \<Rightarrow> Inl panic
      | Inr (Inl (status_code, err), s) \<Rightarrow> Inr (\<lparr>hr_status = status_code, hr_headers = [], hr_body = []\<rparr>, s)
      | Inr (Inr reply, s) \<Rightarrow> Inr (reply, s))"

subsection \<open>Pages in the order shown\<close>

text \<open>The order in which a list is shown, and which entries come after a cursor in it.\<close>

definition shown :: "bool \<Rightarrow> 'a list \<Rightarrow> 'a list" where
  "shown backward es = (if backward then rev es else es)"

definition beyond :: "bool \<Rightarrow> cursor \<Rightarrow> 'a stream_entry \<Rightarrow> bool" where
  "beyond backward c e \<longleftrightarrow> (if backward then se_cursor e < c else c < se_cursor e)"

text \<open>The entries of a page: next to the cursor on the side asked for, in the order shown.\<close>

definition page_entries :: "list_request \<Rightarrow> ('a \<Rightarrow> bool) option \<Rightarrow> 'a stream_entry list \<Rightarrow> 'a stream_entry list" where
  "page_entries r predicate es =
     (let ms = matching predicate (shown (lq_backward r) es) in
      if lq_after r then take (nat (lq_count r)) (filter (beyond (lq_backward r) (lq_cursor r)) ms)
      else last_n (nat (lq_count r)) (filter (beyond (\<not> lq_backward r) (lq_cursor r)) ms))"

lemma rev_take_rev: "rev (take n (rev xs)) = last_n n xs"
  by (simp add: last_n_def take_rev)

lemma first_last_page:
  "qr_first (page_of c cnt es) = (if take (nat cnt) es = [] then c else se_cursor (hd (take (nat cnt) es)))"
  "qr_last (page_of c cnt es) = (if take (nat cnt) es = [] then c else se_cursor (last (take (nat cnt) es)))"
  by (simp_all add: page_of_def Let_def)

lemma list_result:
  assumes "stream_inv st" and "lq_count r \<le> max_cap"
  shows "\<exists>res. (if lq_backward r = lq_after r
               then stream_query_backward max_cap st (lq_cursor r) (lq_count r) predicate
               else stream_query max_cap st (lq_cursor r) (lq_count r) predicate) = Inr res
     \<and> (let res' = (if \<not> lq_after r then qr_reverse res else res); page = page_entries r predicate (stream_entries st) in
         qr_items res' = map se_val page
         \<and> qr_first res' = (if page = [] then lq_cursor r else se_cursor (hd page))
         \<and> qr_last res' = (if page = [] then lq_cursor r else se_cursor (last page)))"
proof -
  let ?es = "stream_entries st" and ?c = "lq_cursor r" and ?n = "lq_count r"
  let ?up = "matching predicate (filter (\<lambda>e. ?c < se_cursor e) ?es)"
  let ?down = "matching predicate (rev (filter (\<lambda>e. se_cursor e < ?c) ?es))"
  note f = query_forward_page [OF assms, where c = ?c and predicate = predicate]
  note b = query_backward_page [OF assms, where c = ?c and predicate = predicate]
  have up: "filter (beyond False ?c) (matching predicate ?es) = ?up"
    "filter (beyond False ?c) (matching predicate (rev ?es)) = rev ?up"
    by (simp_all add: beyond_def rev_filter conj_commute)
  have down: "filter (beyond True ?c) (matching predicate (rev ?es)) = ?down"
    "filter (beyond True ?c) (matching predicate ?es) = rev ?down"
    by (simp_all add: beyond_def rev_filter conj_commute)
  show ?thesis
  proof (cases "lq_after r")
    case True
    show ?thesis
      using f b up(1) down(1) True
      by (cases "lq_backward r") (simp_all add: page_entries_def shown_def Let_def first_last_page del: filter_filter)
  next
    case False
    have rev_page: "qr_reverse (page_of c n es) = \<lparr>qr_items = map se_val (rev (take (nat n) es)),
        qr_first = (if take (nat n) es = [] then c else se_cursor (last (take (nat n) es))),
        qr_last = (if take (nat n) es = [] then c else se_cursor (hd (take (nat n) es))),
        qr_has_more = (nat n < length es)\<rparr>" for c n and es :: "'a stream_entry list"
      by (simp add: qr_reverse_def page_of_def Let_def rev_map)
    have lastn: "last_n (nat ?n) (rev xs) = rev (take (nat ?n) xs)" for xs :: "'a stream_entry list"
      using rev_take_rev [of "nat ?n" "rev xs"] by simp
    show ?thesis
      using f b up(2) down(2) False
      by (cases "lq_backward r")
        (simp_all add: page_entries_def shown_def Let_def rev_page lastn hd_rev last_rev del: filter_filter)
  qed
qed

subsection \<open>Sorting\<close>

lemma insert_by_mset: "mset (insert_by cmp x ys) = add_mset x (mset ys)"
  by (induction ys) simp_all

lemma sort_func_mset: "mset (sort_func cmp xs) = mset xs"
  by (induction xs) (simp_all add: sort_func_def insert_by_mset)

lemma insert_by_sorted:
  assumes "\<And>a b. cmp a b \<le> 0 \<or> cmp b a \<le> 0" and "\<And>a b c. cmp a b \<le> 0 \<Longrightarrow> cmp b c \<le> 0 \<Longrightarrow> cmp a c \<le> 0"
    and "sorted_wrt (\<lambda>a b. cmp a b \<le> 0) ys"
  shows "sorted_wrt (\<lambda>a b. cmp a b \<le> (0 :: int)) (insert_by cmp x ys)"
  using assms(3)
proof (induction ys)
  case (Cons y ys)
  have set: "set (insert_by cmp x zs) = insert x (set zs)" for zs
    by (induction zs) auto
  show ?case
  proof (cases "cmp x y \<le> 0")
    case True
    with Cons.prems assms(2) show ?thesis by auto
  next
    case False
    with assms(1) have "cmp y x \<le> 0" by blast
    with False Cons show ?thesis by (auto simp: set)
  qed
qed simp

lemma sort_func_sorted:
  assumes "\<And>a b. cmp a b \<le> 0 \<or> cmp b a \<le> 0" and "\<And>a b c. cmp a b \<le> 0 \<Longrightarrow> cmp b c \<le> 0 \<Longrightarrow> cmp a c \<le> 0"
  shows "sorted_wrt (\<lambda>a b. cmp a b \<le> (0 :: int)) (sort_func cmp xs)"
proof (induction xs)
  case (Cons x xs)
  with insert_by_sorted [OF assms] show ?case by (simp add: sort_func_def)
qed (simp add: sort_func_def)

lemma route_compare_le:
  "route_compare a b \<le> 0 \<longleftrightarrow> (\<not> has_ip_prefix (rt_addr a) \<and> has_ip_prefix (rt_addr b))
     \<or> (has_ip_prefix (rt_addr a) = has_ip_prefix (rt_addr b) \<and> rt_addr a \<le> rt_addr b)"
  by (auto simp: route_compare_def Let_def)

subsection \<open>What the query says\<close>

lemma values_has_set [simp]: "values_has (gm_set q k [v]) k' \<longleftrightarrow> k' = k \<or> values_has q k'"
  by (simp add: values_has_def)

lemma values_has_delete [simp]: "values_has (gm_delete q k) k' \<longleftrightarrow> k' \<noteq> k \<and> values_has q k'"
  by (simp add: values_has_def)

lemma values_get_set [simp]: "values_get (gm_set q k [v]) k' = (if k' = k then v else values_get q k')"
  by (simp add: values_get_def)

lemma values_get_delete [simp]: "k' \<noteq> k \<Longrightarrow> values_get (gm_delete q k) k' = values_get q k'"
  by (simp add: values_get_def)

lemma cursor_parses [simp]: "parse_cursor (cursor_string c) = (c, None)"
proof -
  have "unat c < 2 ^ 64" using unsigned_less [of c] by simp
  then show ?thesis by (simp add: parse_cursor_def cursor_string_def parse_format_016x)
qed

lemma cursor_string_nonzero [simp]: "cursor_string c \<noteq> [CHR 0x00]"
proof
  assume "cursor_string c = [CHR 0x00]"
  moreover have "unat c < 2 ^ 64" using unsigned_less [of c] by simp
  ultimately show False using format_016x_length [of "unat c"] by (simp add: cursor_string_def)
qed

text \<open>The query behind the link to the next page, and to the one before.\<close>

definition next_query :: "cursor \<Rightarrow> url_values \<Rightarrow> url_values" where
  "next_query c query = gm_delete (gm_set query ''after'' [cursor_string c]) ''before''"

definition prev_query :: "cursor \<Rightarrow> url_values \<Rightarrow> url_values" where
  "prev_query c query = gm_set (gm_delete query ''after'') ''before'' [cursor_string c]"

lemma update_next:
  "update_url_query url_text query [(''after'', cursor_string c), (''before'', [CHR 0x00])] = url_text (next_query c query)"
  by (simp add: update_url_query_def update_url_value_def next_query_def)

lemma update_prev:
  "update_url_query url_text query [(''after'', [CHR 0x00]), (''before'', cursor_string c)] = url_text (prev_query c query)"
  by (simp add: update_url_query_def update_url_value_def prev_query_def)

lemma list_request_next: "list_request_of (next_query c query) = (list_request_of query)\<lparr>lq_after := True, lq_cursor := c\<rparr>"
  by (simp add: list_request_of_def next_query_def query_param_set_def Let_def)

lemma list_request_prev: "list_request_of (prev_query c query) = (list_request_of query)\<lparr>lq_after := False, lq_cursor := c\<rparr>"
  by (simp add: list_request_of_def prev_query_def query_param_set_def Let_def)

lemma list_request_count: "1 \<le> lq_count (list_request_of query)"
  by (simp add: list_request_of_def Let_def split: if_splits prod.splits)

text \<open>The filters of the three lists do not look at the cursor.\<close>

lemma filters_ignore_cursor:
  "filter_logs (next_query c query) = filter_logs query" "filter_logs (prev_query c query) = filter_logs query"
  "filter_queries lookup (next_query c query) = filter_queries lookup query"
  "filter_queries lookup (prev_query c query) = filter_queries lookup query"
  "filter_raw_queries (next_query c query) = filter_raw_queries query"
  "filter_raw_queries (prev_query c query) = filter_raw_queries query"
  by (simp_all add: filter_logs_def filter_queries_def filter_raw_queries_def next_query_def prev_query_def query_param_set_def)

lemma list_handler_page:
  fixes filter_factory :: "url_values \<Rightarrow> ('a \<Rightarrow> bool) option" and st :: "('a, 'l) buffered"
  assumes "stream_inv st" and "lq_count (list_request_of query) \<le> max_cap"
  defines "page \<equiv> page_entries (list_request_of query) (filter_factory query) (stream_entries st)"
  defines "first \<equiv> if page = [] then lq_cursor (list_request_of query) else se_cursor (hd page)"
  defines "last' \<equiv> if page = [] then lq_cursor (list_request_of query) else se_cursor (last page)"
  shows "\<exists>p. list_handler max_cap url_text filter_factory st query = Inr p
    \<and> qr_items (lp_result p) = map se_val page
    \<and> qr_first (lp_result p) = first \<and> qr_last (lp_result p) = last'
    \<and> lp_prev_url p = url_text (prev_query first query) \<and> lp_next_url p = url_text (next_query last' query)"
proof -
  let ?r = "list_request_of query"
  from list_result [OF assms(1,2), of "filter_factory query"] obtain res where
    res: "(if lq_backward ?r = lq_after ?r
               then stream_query_backward max_cap st (lq_cursor ?r) (lq_count ?r) (filter_factory query)
               else stream_query max_cap st (lq_cursor ?r) (lq_count ?r) (filter_factory query)) = Inr res"
    and sel: "qr_items (if \<not> lq_after ?r then qr_reverse res else res) = map se_val page"
      "qr_first (if \<not> lq_after ?r then qr_reverse res else res) = first"
      "qr_last (if \<not> lq_after ?r then qr_reverse res else res) = last'"
    by (auto simp: Let_def page_def first_def last'_def)
  show ?thesis
    unfolding list_handler_def Let_def res using sel
    by (simp add: update_next update_prev)
qed

text \<open>Two pages one after the other.\<close>

lemma entries_sorted_rev_beyond:
  assumes "entries_sorted es" and "n \<le> length es" and "0 < n"
  shows "filter (\<lambda>e. se_cursor e < se_cursor (last (take n (rev es)))) (rev es) = drop n (rev es)"
proof -
  let ?k = "length es - n"
  have split: "es = take ?k es @ drop ?k es" by simp
  have ne: "drop ?k es \<noteq> []" using assms(2,3) by simp
  then obtain x xs where x: "drop ?k es = x # xs" by (cases "drop ?k es") auto
  have "take n (rev es) = rev (drop ?k es)" by (simp add: take_rev)
  then have last: "last (take n (rev es)) = x" by (simp add: x last_rev)
  have "entries_sorted (take ?k es @ x # xs)" using assms(1) x split by metis
  then have lt: "\<forall>e \<in> set (take ?k es). se_cursor e < se_cursor x" and gt: "\<forall>e \<in> set xs. se_cursor x < se_cursor e"
    by (auto simp: entries_sorted_def sorted_wrt_append)
  have "filter (\<lambda>e. se_cursor e < se_cursor x) (take ?k es @ x # xs) = take ?k es"
    using lt gt by (auto simp: filter_id_conv filter_empty_conv dest: less_asym)
  then have "filter (\<lambda>e. se_cursor e < se_cursor x) es = take ?k es" using x split by metis
  then show ?thesis unfolding last by (simp add: rev_filter [symmetric] drop_rev)
qed

lemma page_entries_next:
  assumes "entries_sorted es" and "lq_after r" and "0 \<le> lq_count r"
    and "p = page_entries r predicate es" and "p \<noteq> []"
  shows "p @ page_entries (r\<lparr>lq_cursor := se_cursor (last p)\<rparr>) predicate es = page_entries (r\<lparr>lq_count := 2 * lq_count r\<rparr>) predicate es"
proof -
  define ms where "ms = filter (beyond (lq_backward r) (lq_cursor r)) (matching predicate (shown (lq_backward r) es))"
  define n where "n = min (nat (lq_count r)) (length ms)"
  have p: "p = take n ms" unfolding assms(4) n_def
    by (simp add: page_entries_def Let_def assms(2) ms_def min_def del: filter_filter)
  have n: "0 < n" "n \<le> length ms" using assms(5) p by (auto simp: n_def)
  have last_in: "last p \<in> set ms" using assms(5) p by (metis in_set_takeD last_in_set)
  have rest: "filter (beyond (lq_backward r) (se_cursor (last p))) ms = drop n ms"
  proof (cases "lq_backward r")
    case False
    then have "entries_sorted ms" using assms(1) by (simp add: ms_def shown_def entries_sorted_filter del: filter_filter)
    then show ?thesis using entries_sorted_after_take [of ms n] n False by (simp add: p beyond_def [abs_def])
  next
    case True
    have ms: "ms = rev (filter (beyond True (lq_cursor r)) (matching predicate es))"
      by (simp add: ms_def shown_def True rev_filter del: filter_filter)
    have "entries_sorted (filter (beyond True (lq_cursor r)) (matching predicate es))"
      by (intro entries_sorted_filter assms(1))
    from entries_sorted_rev_beyond [OF this, of n, folded ms] n True show ?thesis
      by (simp add: p beyond_def [abs_def] ms del: filter_filter)
  qed
  have "filter (beyond (lq_backward r) (se_cursor (last p))) (matching predicate (shown (lq_backward r) es))
    = filter (beyond (lq_backward r) (se_cursor (last p))) ms"
    using last_in by (auto simp: ms_def beyond_def filter_filter intro!: filter_cong split: if_splits)
  with rest have "page_entries (r\<lparr>lq_cursor := se_cursor (last p)\<rparr>) predicate es = take (nat (lq_count r)) (drop n ms)"
    by (simp add: page_entries_def Let_def assms(2) del: filter_filter)
  moreover have "page_entries (r\<lparr>lq_count := 2 * lq_count r\<rparr>) predicate es = take (nat (2 * lq_count r)) ms"
    by (simp add: page_entries_def Let_def assms(2) ms_def del: filter_filter)
  moreover have "take n ms @ take (nat (lq_count r)) (drop n ms) = take (nat (2 * lq_count r)) ms"
  proof (cases "nat (lq_count r) \<le> length ms")
    case True
    then have "n = nat (lq_count r)" by (simp add: n_def)
    moreover have "nat (2 * lq_count r) = nat (lq_count r) + nat (lq_count r)" using assms(3) by simp
    ultimately show ?thesis by (simp only: take_add)
  qed (simp add: n_def)
  ultimately show ?thesis using p by simp
qed

subsection \<open>Properties of the lists\<close>

text \<open>A page of any of the lists holds exactly the entries next to the cursor, on the side asked for, that
  the filter lets through, in the order shown, at least one entry being asked for; its links carry the cursors of
  its first and last entry. It does not panic while the count asked for can be allocated.\<close>

theorem list_handler_pages:
  fixes filter_factory :: "url_values \<Rightarrow> ('a \<Rightarrow> bool) option" and st :: "('a, 'l) buffered"
  assumes "stream_inv st" and "lq_count (list_request_of query) \<le> max_cap"
  shows "1 \<le> lq_count (list_request_of query)
    \<and> (let r = list_request_of query; page = page_entries r (filter_factory query) (stream_entries st);
           c1 = (if page = [] then lq_cursor r else se_cursor (hd page));
           c2 = (if page = [] then lq_cursor r else se_cursor (last page)) in
       \<exists>more. list_handler max_cap url_text filter_factory st query
         = Inr \<lparr>lp_result = \<lparr>qr_items = map se_val page, qr_first = c1, qr_last = c2, qr_has_more = more\<rparr>,
                lp_prev_url = url_text (prev_query c1 query), lp_next_url = url_text (next_query c2 query)\<rparr>)"
proof -
  define page where "page = page_entries (list_request_of query) (filter_factory query) (stream_entries st)"
  define c1 where "c1 = (if page = [] then lq_cursor (list_request_of query) else se_cursor (hd page))"
  define c2 where "c2 = (if page = [] then lq_cursor (list_request_of query) else se_cursor (last page))"
  from list_handler_page [OF assms, of url_text filter_factory, folded page_def, folded c1_def c2_def]
  obtain p where p: "list_handler max_cap url_text filter_factory st query = Inr p"
    "qr_items (lp_result p) = map se_val page" "qr_first (lp_result p) = c1" "qr_last (lp_result p) = c2"
    "lp_prev_url p = url_text (prev_query c1 query)" "lp_next_url p = url_text (next_query c2 query)"
    by blast
  have "\<exists>more. list_handler max_cap url_text filter_factory st query
      = Inr \<lparr>lp_result = \<lparr>qr_items = map se_val page, qr_first = c1, qr_last = c2, qr_has_more = more\<rparr>,
             lp_prev_url = url_text (prev_query c1 query), lp_next_url = url_text (next_query c2 query)\<rparr>"
    using p by (intro exI [of _ "qr_has_more (lp_result p)"]) (cases p; cases "lp_result p"; simp)
  then show ?thesis
    unfolding Let_def page_def [symmetric] c1_def [symmetric] c2_def [symmetric]
    using list_request_count [of query] by blast
qed

definition sample_query :: url_values where
  "sample_query = [(''count'', [''1'']), (''after'', [''a''])]"

lemma sample_request: "list_request_of sample_query = \<lparr>lq_backward = False, lq_after = True, lq_cursor = 10, lq_count = 1\<rparr>"
  by (simp add: list_request_of_def sample_query_def values_has_def values_get_def query_param_set_def Let_def
      parse_cursor_def parse_uint_def atoi_def digit_value_def)

lemma sample_page:
  "page_entries \<lparr>lq_backward = False, lq_after = True, lq_cursor = 10, lq_count = 1\<rparr> None (stream_entries sample_stream)
     = [\<lparr>se_cursor = 20, se_val = 2\<rparr>]"
  by (simp add: sample_stream_entries page_entries_def shown_def beyond_def passes_def)

theorem list_handler_pages_witness:
  "\<exists>more. list_handler 100 (\<lambda>q. values_get q ''after'') (\<lambda>q. None) sample_stream sample_query
     = Inr \<lparr>lp_result = \<lparr>qr_items = [2], qr_first = 20, qr_last = 20, qr_has_more = more\<rparr>,
            lp_prev_url = [], lp_next_url = ''0000000000000014''\<rparr>"
proof -
  have "values_get (prev_query 20 sample_query) ''after'' = []" "values_get (next_query 20 sample_query) ''after'' = ''0000000000000014''"
    by code_simp+
  then show ?thesis
    using list_handler_pages [OF sample_stream_inv, of sample_query 100 "\<lambda>q. None" "\<lambda>q. values_get q ''after''"]
    by (simp add: sample_request sample_page Let_def)
qed



text \<open>The routes are listed with their live records, every route once: first the addresses without a prefix,
  then those with one, each group in the order of the addresses.\<close>

theorem routes_listed_sorted:
  "mset (handle_routes ord lookup clock s) = mset (ctl_routes ord lookup clock s)
   \<and> (let rs = handle_routes ord lookup clock s;
          hosts = filter (\<lambda>r. \<not> has_ip_prefix (rt_addr r)) rs; nets = filter (\<lambda>r. has_ip_prefix (rt_addr r)) rs in
      rs = hosts @ nets \<and> sorted (map rt_addr hosts) \<and> sorted (map rt_addr nets))"
proof -
  let ?rs = "handle_routes ord lookup clock s"
  have sorted: "sorted_wrt (\<lambda>a b. route_compare a b \<le> 0) ?rs"
    unfolding handle_routes_def by (intro sort_func_sorted) (auto simp: route_compare_le)
  have "rs = filter (\<lambda>r. \<not> has_ip_prefix (rt_addr r)) rs @ filter (\<lambda>r. has_ip_prefix (rt_addr r)) rs
     \<and> sorted (map rt_addr (filter (\<lambda>r. \<not> has_ip_prefix (rt_addr r)) rs)) \<and> sorted (map rt_addr (filter (\<lambda>r. has_ip_prefix (rt_addr r)) rs))"
    if "sorted_wrt (\<lambda>a b. route_compare a b \<le> 0) rs" for rs
    using that
  proof (induction rs)
    case (Cons x rs)
    then show ?case
      by (cases "has_ip_prefix (rt_addr x)") (auto simp: route_compare_le filter_empty_conv filter_id_conv)
  qed simp
  from this [OF sorted] show ?thesis by (simp add: handle_routes_def sort_func_mset Let_def)
qed

subsection \<open>DNS over HTTP from end to end\<close>

text \<open>What the client of \<open>doh_client.go\<close> gets when its request is served by this server: \<open>net/http\<close> turns a
  panic of the handler into an error of the request, after which the state is \<open>crashed s\<close>.\<close>

definition serve_post ::
  "('s \<Rightarrow> 's) \<Rightarrow> (string \<Rightarrow> string + dns_msg) \<Rightarrow> (dns_msg \<Rightarrow> string + string) \<Rightarrow> 's resolver \<Rightarrow> string
     \<Rightarrow> string \<Rightarrow> string \<Rightarrow> 's \<Rightarrow> (string + int \<times> (string + string)) \<times> 's"
where
  "serve_post crashed unpack pack resolve remote url body s =
     (case wrap_handler (handle_dns_query unpack pack resolve
             \<lparr>hq_content_type = dns_message_media_type, hq_accept = dns_message_media_type,
              hq_body = Inr body, hq_remote_addr = remote\<rparr> s) of
        Inl panic \<Rightarrow> (Inl ''EOF'', crashed s)
      | Inr (reply, s') \<Rightarrow> (Inr (hr_status reply, Inr (hr_body reply)), s'))"

text \<open>C39: A query that the DNS over HTTP client sends to this server gets exactly the answer of the server's resolver,
  asked with the address of the client, once the codec reads back what it wrote; an error or a panic of the resolver
  is an error of the client.\<close>

theorem doh_end_to_end:
  assumes "pack msg = Inr body" and "unpack body = Inr msg" and "new_request url = None"
    and "\<And>res s'. resolve remote msg s = Inr (Inr res, s') \<Longrightarrow> \<exists>bytes. pack res = Inr bytes \<and> unpack bytes = Inr res"
  shows "case resolve remote msg s of
      Inl panic \<Rightarrow> doh_client_resolve pack new_request (serve_post crashed unpack pack resolve remote) unpack url client msg s
        = Inr (Inl ''doh_client: failed to send request: EOF'', crashed s)
    | Inr (Inl err, s') \<Rightarrow> doh_client_resolve pack new_request (serve_post crashed unpack pack resolve remote) unpack url client msg s
        = Inr (Inl ''doh_client: unexpected status code: 500'', s')
    | Inr (Inr res, s') \<Rightarrow> doh_client_resolve pack new_request (serve_post crashed unpack pack resolve remote) unpack url client msg s
        = Inr (Inr res, s')"
proof -
  have i: "itoa 500 = ''500''" by code_simp
  show ?thesis
  proof (cases "resolve remote msg s")
    case (Inl p)
    then show ?thesis
      by (simp add: doh_client_resolve_def serve_post_def wrap_handler_def handle_dns_query_def assms(1-3))
  next
    case (Inr r)
    show ?thesis
    proof (cases "fst r")
      case (Inl err)
      with Inr show ?thesis
        by (cases r) (simp add: doh_client_resolve_def serve_post_def wrap_handler_def handle_dns_query_def assms(1-3) i)
    next
      case inner: (Inr res)
      with Inr assms(4) [of res "snd r"] obtain bytes where "pack res = Inr bytes" "unpack bytes = Inr res"
        by (cases r) auto
      with Inr inner show ?thesis
        by (cases r) (simp add: doh_client_resolve_def serve_post_def wrap_handler_def handle_dns_query_def assms(1-3))
    qed
  qed
qed

definition sample_doh_msg :: dns_msg where
  "sample_doh_msg = \<lparr>msg_id = 7, msg_response = False, msg_rcode = 0,
     msg_question = [\<lparr>q_name = ''a.'', q_type = type_a, q_class = class_inet\<rparr>], msg_answer = [], msg_other = []\<rparr>"

theorem doh_end_to_end_witness:
  "doh_client_resolve (\<lambda>m. Inr []) (\<lambda>u. None)
     (serve_post id (\<lambda>b. Inr sample_doh_msg) (\<lambda>m. Inr []) (\<lambda>c m s. Inr (Inr m, Suc s)) ''10.0.0.2:5000'')
     (\<lambda>b. Inr sample_doh_msg) ''http://dns/dns-query'' ''10.0.0.1:53'' sample_doh_msg 0 = Inr (Inr sample_doh_msg, 1)"
  using doh_end_to_end [where pack = "\<lambda>m. Inr []" and unpack = "\<lambda>b. Inr sample_doh_msg" and new_request = "\<lambda>u. None"
      and resolve = "\<lambda>c m s. Inr (Inr m, Suc s)" and remote = "''10.0.0.2:5000''" and msg = sample_doh_msg and s = "0 :: nat"
      and url = "''http://dns/dns-query''" and client = "''10.0.0.1:53''" and crashed = id and body = "[]"]
  by simp

end
