(* ===== verification/LiveUpdates.thy ===== *)
theory LiveUpdates
  imports HTTPApi
begin

text \<open>
  The websocket handlers of \<open>dns-server/internal/dns_server_http.go\<close>: \<open>createStreamHandler\<close> with the messages
  it sends, and \<open>debounceUpdateChannel\<close> with its two timers. The lemmas show that a client is sent exactly the
  entries after its start, in order, and bound the delay of an update.
\<close>

subsection \<open>Live updates\<close>

text \<open>A connection of \<open>createStreamHandler\<close>: the cursor it has sent up to and the messages written.\<close>

record 'a ws_client =
  ws_cursor :: cursor
  ws_sent :: "'a list list"

definition ws_open :: "int \<Rightarrow> ('a, 'l) buffered \<Rightarrow> 'a ws_client panicking" where
  "ws_open max_cap st =
     (case stream_query_backward max_cap st (- 1) 1 None of
        Inl panic \<Rightarrow> Inl panic
      | Inr res \<Rightarrow> Inr \<lparr>ws_cursor = qr_first res, ws_sent = []\<rparr>)"

text \<open>One debounced update; \<open>write_ok\<close> says whether the message could be written.\<close>

definition ws_update ::
  "int \<Rightarrow> ('a \<Rightarrow> bool) option \<Rightarrow> 'a ws_client \<Rightarrow> ('a, 'l) buffered \<times> bool \<Rightarrow> 'a ws_client panicking"
where
  "ws_update max_cap predicate c = (\<lambda>(st, write_ok).
     case stream_query max_cap st (ws_cursor c) 1000 predicate of
       Inl panic \<Rightarrow> Inl panic
     | Inr res \<Rightarrow>
         if 0 < length (qr_items res) then
           if \<not> write_ok then Inr c
           else Inr (c\<lparr>ws_sent := ws_sent c @ [qr_items res], ws_cursor := qr_last res\<rparr>)
         else Inr c)"

subsection \<open>Debouncing\<close>

text \<open>The timers of \<open>debounceUpdateChannel\<close> (a \<open>nil\<close> channel is \<open>None\<close>), set for the time they fire.\<close>

record debounce =
  db_min_timer :: "instant option"
  db_max_timer :: "instant option"

definition new_debounce :: debounce where
  "new_debounce = \<lparr>db_min_timer = None, db_max_timer = None\<rparr>"

definition db_signal :: "duration \<Rightarrow> duration \<Rightarrow> instant \<Rightarrow> debounce \<Rightarrow> debounce" where
  "db_signal min_interval max_interval now d =
     d\<lparr>db_min_timer := Some (now + min_interval),
       db_max_timer := (case db_max_timer d of None \<Rightarrow> Some (now + max_interval) | Some m \<Rightarrow> Some m)\<rparr>"

definition db_send_update :: "debounce \<Rightarrow> debounce" where
  "db_send_update d = d\<lparr>db_min_timer := None, db_max_timer := None\<rparr>"

definition db_due :: "debounce \<Rightarrow> instant \<Rightarrow> bool" where
  "db_due d now \<longleftrightarrow> db_min_timer d = Some now \<or> db_max_timer d = Some now"

subsection \<open>Updates of a websocket client\<close>

text \<open>What a client has been sent, when the stream has lost none of the entries since it connected: the first
  \<open>n\<close> matching entries after the cursor \<open>c0\<close> it began with.\<close>

definition ws_upto :: "('a \<Rightarrow> bool) option \<Rightarrow> cursor \<Rightarrow> 'a stream_entry list \<Rightarrow> 'a ws_client \<Rightarrow> nat \<Rightarrow> bool" where
  "ws_upto predicate c0 es c n \<longleftrightarrow>
     (let ms = matching predicate (filter (\<lambda>e. c0 < se_cursor e) es) in
      n \<le> length ms \<and> concat (ws_sent c) = map se_val (take n ms)
      \<and> ws_cursor c = (if n = 0 then c0 else se_cursor (ms ! (n - 1))))"

lemma ws_upto_extend:
  "ws_upto predicate c0 es c n \<Longrightarrow> ws_upto predicate c0 (es @ new) c n"
  by (auto simp: ws_upto_def Let_def nth_append)

lemma last_take: "0 < n \<Longrightarrow> n \<le> length xs \<Longrightarrow> last (take n xs) = xs ! (n - 1)"
  by (cases xs) (auto simp: last_conv_nth min_def)

lemma rest_after_cursor:
  assumes "entries_sorted es" and "ws_upto predicate c0 es c n"
  shows "matching predicate (filter (\<lambda>e. ws_cursor c < se_cursor e) es)
    = drop n (matching predicate (filter (\<lambda>e. c0 < se_cursor e) es))"
proof (cases "n = 0")
  case True
  with assms(2) show ?thesis by (simp add: ws_upto_def Let_def)
next
  case False
  let ?ms = "matching predicate (filter (\<lambda>e. c0 < se_cursor e) es)"
  have n: "n \<le> length ?ms" and cur: "ws_cursor c = se_cursor (?ms ! (n - 1))"
    using assms(2) False by (simp_all add: ws_upto_def Let_def)
  have sorted: "entries_sorted ?ms" by (intro entries_sorted_filter assms(1))
  have last: "last (take n ?ms) = ?ms ! (n - 1)" using n False by (intro last_take) (simp_all del: filter_filter)
  have "?ms ! (n - 1) \<in> set ?ms" using n False by (intro nth_mem) (simp del: filter_filter)
  then have c0: "c0 < ws_cursor c" by (simp add: cur)
  have "matching predicate (filter (\<lambda>e. ws_cursor c < se_cursor e) es) = filter (\<lambda>e. ws_cursor c < se_cursor e) ?ms"
    using c0 by (auto simp: filter_filter intro!: filter_cong)
  also have "\<dots> = drop n ?ms"
    using entries_sorted_after_take [OF sorted _ n] False unfolding last cur by simp
  finally show ?thesis .
qed

lemma ws_update_upto:
  assumes "stream_inv st" and "1000 \<le> max_cap" and "ws_upto predicate c0 (stream_entries st) c n"
  shows "\<exists>c' n'. ws_update max_cap predicate c (st, ok) = Inr c' \<and> ws_upto predicate c0 (stream_entries st) c' n'
    \<and> n' = (if ok then min (n + 1000) (length (matching predicate (filter (\<lambda>e. c0 < se_cursor e) (stream_entries st)))) else n)"
proof -
  define ms where "ms = matching predicate (filter (\<lambda>e. c0 < se_cursor e) (stream_entries st))"
  have sorted: "entries_sorted (stream_entries st)" using assms(1) by (simp add: stream_inv_def)
  note rest = rest_after_cursor [OF sorted assms(3), folded ms_def]
  have q: "stream_query max_cap st (ws_cursor c) 1000 predicate = Inr (page_of (ws_cursor c) 1000 (drop n ms))"
    using query_forward_page [OF assms(1,2), of "ws_cursor c" predicate] unfolding rest .
  have n: "n \<le> length ms" and sent: "concat (ws_sent c) = map se_val (take n ms)"
    using assms(3) by (simp_all add: ws_upto_def Let_def ms_def)
  have "\<exists>c' n'. ws_update max_cap predicate c (st, ok) = Inr c' \<and> ws_upto predicate c0 (stream_entries st) c' n'
    \<and> n' = (if ok then min (n + 1000) (length ms) else n)"
  proof (cases "ok \<and> n < length ms")
    case False
    have "ws_update max_cap predicate c (st, ok) = Inr c"
      using False n by (cases ok) (simp_all add: ws_update_def q)
    moreover have "n = (if ok then min (n + 1000) (length ms) else n)" using False n by simp
    ultimately show ?thesis using assms(3) by blast
  next
    case True
    let ?n = "min (n + 1000) (length ms)"
    let ?page = "take 1000 (drop n ms)"
    let ?c = "c\<lparr>ws_sent := ws_sent c @ [map se_val ?page], ws_cursor := se_cursor (last ?page)\<rparr>"
    have ne: "?page \<noteq> []" using True by (simp )
    have n': "?n \<noteq> 0" "n < ?n" using True by linarith+
    have "take n ms @ ?page = take ?n ms"
      by (simp add: take_add [symmetric] min_def )
    then have "concat (ws_sent ?c) = map se_val (take ?n ms)" using sent by (simp flip: map_append )
    moreover have "last ?page = ms ! (?n - 1)"
    proof -
      have "last ?page = last (take ?n ms)" using \<open>take n ms @ ?page = take ?n ms\<close> ne by (metis last_append)
      also have "\<dots> = ms ! (?n - 1)" using n'(1) by (intro last_take) simp_all
      finally show ?thesis .
    qed
    ultimately have "ws_upto predicate c0 (stream_entries st) ?c ?n"
      using n' unfolding ws_upto_def Let_def ms_def [symmetric] by (auto simp: min_def)
    moreover have "ws_update max_cap predicate c (st, ok) = Inr ?c"
      using True ne q by (simp add: ws_update_def first_last_page )
    ultimately show ?thesis using True by (intro exI [of _ ?c] exI [of _ ?n]) simp
  qed
  then show ?thesis unfolding ms_def .
qed

text \<open>A connection over time: the stream at each update, and whether the message could be written.\<close>

definition ws_run :: "int \<Rightarrow> ('a \<Rightarrow> bool) option \<Rightarrow> 'a ws_client \<Rightarrow> (('a, 'l) buffered \<times> bool) list \<Rightarrow> 'a ws_client panicking" where
  "ws_run max_cap predicate c updates = fold_res (ws_update max_cap predicate) c updates"

text \<open>The stream only grows: nothing is overwritten between the updates.\<close>

fun growing :: "'a stream_entry list \<Rightarrow> (('a, 'l) buffered \<times> bool) list \<Rightarrow> bool" where
  "growing es [] = True"
| "growing es ((st, ok) # us) \<longleftrightarrow> stream_inv st \<and> (\<exists>new. stream_entries st = es @ new) \<and> growing (stream_entries st) us"

fun last_entries :: "'a stream_entry list \<Rightarrow> (('a, 'l) buffered \<times> bool) list \<Rightarrow> 'a stream_entry list" where
  "last_entries es [] = es"
| "last_entries es ((st, ok) # us) = last_entries (stream_entries st) us"

lemma ws_run_upto:
  assumes "growing es updates" and "1000 \<le> max_cap" and "ws_upto predicate c0 es c n"
  shows "\<exists>c' n'. ws_run max_cap predicate c updates = Inr c' \<and> ws_upto predicate c0 (last_entries es updates) c' n'"
  using assms(1,3)
proof (induction updates arbitrary: es c n)
  case Nil
  then show ?case by (auto simp: ws_run_def)
next
  case (Cons u updates)
  obtain st ok where u: "u = (st, ok)" by (cases u)
  from Cons.prems(1) obtain new where st: "stream_inv st" "stream_entries st = es @ new" "growing (stream_entries st) updates"
    by (auto simp: u)
  have "ws_upto predicate c0 (stream_entries st) c n" unfolding st(2) using Cons.prems(2) by (rule ws_upto_extend)
  from ws_update_upto [OF st(1) assms(2) this, of ok] obtain c1 n1
    where 1: "ws_update max_cap predicate c (st, ok) = Inr c1" "ws_upto predicate c0 (stream_entries st) c1 n1" by blast
  from Cons.IH [OF st(3) 1(2)] 1(1) show ?case by (simp add: ws_run_def u)
qed

lemma ws_open_cursor:
  assumes "stream_inv st" and "1 \<le> max_cap" and "\<forall>e \<in> set (stream_entries st). se_cursor e < - 1"
  shows "ws_open max_cap st = Inr \<lparr>ws_cursor = (if stream_entries st = [] then - 1 else se_cursor (last (stream_entries st))), ws_sent = []\<rparr>"
proof -
  have all: "filter (\<lambda>e. se_cursor e < - 1) (stream_entries st) = stream_entries st"
    using assms(3) by (simp add: filter_id_conv)
  have "stream_query_backward max_cap st (- 1) 1 None = Inr (page_of (- 1) 1 (rev (stream_entries st)))"
    using query_backward_page [OF assms(1,2), of "- 1" None] by (simp add: all passes_def)
  then show ?thesis by (cases "stream_entries st" rule: rev_cases) (simp_all add: ws_open_def page_of_def Let_def)
qed

subsection \<open>Debouncing over time\<close>

text \<open>A run of the debouncer with a receiver that is always ready: time passes up to the next timer, signals
  arrive, and a timer that is due fires at its time. \<open>dr_signals\<close> and \<open>dr_updates\<close> are the times so far.\<close>

record db_run =
  dr_now :: instant
  dr_state :: debounce
  dr_signals :: "instant list"
  dr_updates :: "instant list"

definition db_may_wait :: "debounce \<Rightarrow> instant \<Rightarrow> bool" where
  "db_may_wait d t \<longleftrightarrow> (case db_min_timer d of None \<Rightarrow> True | Some m \<Rightarrow> t \<le> m)
     \<and> (case db_max_timer d of None \<Rightarrow> True | Some m \<Rightarrow> t \<le> m)"

inductive db_step :: "duration \<Rightarrow> duration \<Rightarrow> db_run \<Rightarrow> db_run \<Rightarrow> bool" for min_interval max_interval where
  pass: "dr_now r \<le> t \<Longrightarrow> db_may_wait (dr_state r) t \<Longrightarrow> db_step min_interval max_interval r (r\<lparr>dr_now := t\<rparr>)"
| signal: "db_step min_interval max_interval r
     (r\<lparr>dr_state := db_signal min_interval max_interval (dr_now r) (dr_state r), dr_signals := dr_signals r @ [dr_now r]\<rparr>)"
| fire: "db_due (dr_state r) (dr_now r) \<Longrightarrow> db_step min_interval max_interval r
     (r\<lparr>dr_state := db_send_update (dr_state r), dr_updates := dr_updates r @ [dr_now r]\<rparr>)"

definition db_start :: "instant \<Rightarrow> db_run" where
  "db_start t = \<lparr>dr_now = t, dr_state = new_debounce, dr_signals = [], dr_updates = []\<rparr>"

text \<open>The signals since the last update are pending: \<open>first\<close> and \<open>last\<close> set the timers.\<close>

definition db_inv :: "duration \<Rightarrow> duration \<Rightarrow> db_run \<Rightarrow> bool" where
  "db_inv min_interval max_interval r \<longleftrightarrow>
     (\<exists>answered pending. dr_signals r = answered @ pending
        \<and> (\<forall>s \<in> set answered. \<exists>u \<in> set (dr_updates r). s \<le> u \<and> u \<le> s + max_interval)
        \<and> sorted (dr_signals r) \<and> (\<forall>s \<in> set (dr_signals r). s \<le> dr_now r)
        \<and> (case pending of
             [] \<Rightarrow> dr_state r = new_debounce
           | p # ps \<Rightarrow> db_min_timer (dr_state r) = Some (last pending + min_interval)
                     \<and> db_max_timer (dr_state r) = Some (p + max_interval)
                     \<and> dr_now r \<le> last pending + min_interval \<and> dr_now r \<le> p + max_interval))
   \<and> (\<forall>u \<in> set (dr_updates r). \<exists>s \<in> set (dr_signals r). u = s + min_interval \<or> u = s + max_interval)"

lemma db_inv_start: "db_inv mi ma (db_start t)"
  by (simp add: db_inv_def db_start_def)

lemma db_inv_cases:
  assumes "db_inv mi ma r"
  obtains answered pending where "dr_signals r = answered @ pending"
    and "\<forall>s \<in> set answered. \<exists>u \<in> set (dr_updates r). s \<le> u \<and> u \<le> s + ma"
    and "sorted (dr_signals r)" and "\<forall>s \<in> set (dr_signals r). s \<le> dr_now r"
    and "pending = [] \<Longrightarrow> dr_state r = new_debounce"
    and "pending \<noteq> [] \<Longrightarrow> db_min_timer (dr_state r) = Some (last pending + mi) \<and> db_max_timer (dr_state r) = Some (hd pending + ma)
          \<and> dr_now r \<le> last pending + mi \<and> dr_now r \<le> hd pending + ma"
    and "\<forall>u \<in> set (dr_updates r). \<exists>s \<in> set (dr_signals r). u = s + mi \<or> u = s + ma"
proof -
  from assms obtain answered pending where p: "dr_signals r = answered @ pending"
    "\<forall>s \<in> set answered. \<exists>u \<in> set (dr_updates r). s \<le> u \<and> u \<le> s + ma"
    "sorted (dr_signals r)" "\<forall>s \<in> set (dr_signals r). s \<le> dr_now r"
    "case pending of
             [] \<Rightarrow> dr_state r = new_debounce
           | p # ps \<Rightarrow> db_min_timer (dr_state r) = Some (last pending + mi)
                     \<and> db_max_timer (dr_state r) = Some (p + ma)
                     \<and> dr_now r \<le> last pending + mi \<and> dr_now r \<le> p + ma"
    and u: "\<forall>u \<in> set (dr_updates r). \<exists>s \<in> set (dr_signals r). u = s + mi \<or> u = s + ma"
    unfolding db_inv_def by blast
  show ?thesis
    by (rule that [OF p(1-4) _ _ u]) (use p(5) in \<open>cases pending; simp\<close>)+
qed

lemma db_invI:
  assumes "dr_signals r = answered @ pending"
    and "\<forall>s \<in> set answered. \<exists>u \<in> set (dr_updates r). s \<le> u \<and> u \<le> s + ma"
    and "sorted (dr_signals r)" and "\<forall>s \<in> set (dr_signals r). s \<le> dr_now r"
    and "pending = [] \<Longrightarrow> dr_state r = new_debounce"
    and "pending \<noteq> [] \<Longrightarrow> db_min_timer (dr_state r) = Some (last pending + mi) \<and> db_max_timer (dr_state r) = Some (hd pending + ma)
          \<and> dr_now r \<le> last pending + mi \<and> dr_now r \<le> hd pending + ma"
    and "\<forall>u \<in> set (dr_updates r). \<exists>s \<in> set (dr_signals r). u = s + mi \<or> u = s + ma"
  shows "db_inv mi ma r"
proof -
  have "case pending of
             [] \<Rightarrow> dr_state r = new_debounce
           | p # ps \<Rightarrow> db_min_timer (dr_state r) = Some (last pending + mi)
                     \<and> db_max_timer (dr_state r) = Some (p + ma)
                     \<and> dr_now r \<le> last pending + mi \<and> dr_now r \<le> p + ma"
    using assms(5,6) by (cases pending) simp_all
  with assms(1-4,7) show ?thesis unfolding db_inv_def by blast
qed

lemma db_signal_inv:
  assumes "db_inv mi ma r" and "0 \<le> mi" and "0 \<le> ma"
  shows "db_inv mi ma (r\<lparr>dr_state := db_signal mi ma (dr_now r) (dr_state r), dr_signals := dr_signals r @ [dr_now r]\<rparr>)"
  using assms(1)
proof (cases rule: db_inv_cases)
  case (1 answered pending)
  show ?thesis
  proof (rule db_invI [where answered = answered and pending = "pending @ [dr_now r]"])
    show "db_min_timer (dr_state (r\<lparr>dr_state := db_signal mi ma (dr_now r) (dr_state r), dr_signals := dr_signals r @ [dr_now r]\<rparr>))
        = Some (last (pending @ [dr_now r]) + mi)
      \<and> db_max_timer (dr_state (r\<lparr>dr_state := db_signal mi ma (dr_now r) (dr_state r), dr_signals := dr_signals r @ [dr_now r]\<rparr>))
        = Some (hd (pending @ [dr_now r]) + ma)
      \<and> dr_now (r\<lparr>dr_state := db_signal mi ma (dr_now r) (dr_state r), dr_signals := dr_signals r @ [dr_now r]\<rparr>)
          \<le> last (pending @ [dr_now r]) + mi
      \<and> dr_now (r\<lparr>dr_state := db_signal mi ma (dr_now r) (dr_state r), dr_signals := dr_signals r @ [dr_now r]\<rparr>)
          \<le> hd (pending @ [dr_now r]) + ma"
      using 1(5,6) assms(2,3) by (cases "pending = []") (simp_all add: db_signal_def new_debounce_def)
  qed (use 1(1,2,3,4,7) in \<open>auto simp: sorted_append\<close>)
qed

lemma db_fire_inv:
  assumes "db_inv mi ma r" and "db_due (dr_state r) (dr_now r)" and "0 \<le> mi" and "0 \<le> ma"
  shows "db_inv mi ma (r\<lparr>dr_state := db_send_update (dr_state r), dr_updates := dr_updates r @ [dr_now r]\<rparr>)"
  using assms(1)
proof (cases rule: db_inv_cases)
  case (1 answered pending)
  have ne: "pending \<noteq> []" using 1(5) assms(2) by (auto simp: db_due_def new_debounce_def)
  note t = 1(6) [OF ne]
  have first: "hd pending \<le> s" if "s \<in> set pending" for s
    using 1(1,3) that by (cases pending) (auto simp: sorted_append)
  have mem: "last pending \<in> set (dr_signals r)" "hd pending \<in> set (dr_signals r)" using ne 1(1) by auto
  show ?thesis
  proof (rule db_invI [where answered = "dr_signals r" and pending = "[]"])
    show "\<forall>s \<in> set (dr_signals r). \<exists>u \<in> set (dr_updates (r\<lparr>dr_state := db_send_update (dr_state r), dr_updates := dr_updates r @ [dr_now r]\<rparr>)).
        s \<le> u \<and> u \<le> s + ma"
    proof
      fix s assume s: "s \<in> set (dr_signals r)"
      show "\<exists>u \<in> set (dr_updates (r\<lparr>dr_state := db_send_update (dr_state r), dr_updates := dr_updates r @ [dr_now r]\<rparr>)). s \<le> u \<and> u \<le> s + ma"
      proof (cases "s \<in> set answered")
        case True
        with 1(2) show ?thesis by auto
      next
        case False
        with s 1(1) have "s \<in> set pending" by auto
        with first t 1(4) s show ?thesis by force
      qed
    qed
    show "\<forall>u \<in> set (dr_updates (r\<lparr>dr_state := db_send_update (dr_state r), dr_updates := dr_updates r @ [dr_now r]\<rparr>)).
        \<exists>s \<in> set (dr_signals (r\<lparr>dr_state := db_send_update (dr_state r), dr_updates := dr_updates r @ [dr_now r]\<rparr>)). u = s + mi \<or> u = s + ma"
    proof -
      have "dr_now r = last pending + mi \<or> dr_now r = hd pending + ma"
        using t assms(2) by (auto simp: db_due_def)
      then have "\<exists>s \<in> set (dr_signals r). dr_now r = s + mi \<or> dr_now r = s + ma" using mem by blast
      with 1(7) show ?thesis by simp
    qed
  qed (use 1(3,4) in \<open>simp_all add: db_send_update_def new_debounce_def\<close>)
qed

lemma db_step_inv:
  assumes "db_step mi ma r r'" and "db_inv mi ma r" and "0 \<le> mi" and "0 \<le> ma"
  shows "db_inv mi ma r'"
  using assms(1)
proof cases
  case (pass t)
  from assms(2) show ?thesis
  proof (cases rule: db_inv_cases)
    case (1 answered pending)
    have "\<forall>s \<in> set (dr_signals r). s \<le> t" using 1(4) pass(2) order_trans by blast
    moreover have "t \<le> last pending + mi \<and> t \<le> hd pending + ma" if "pending \<noteq> []"
      using 1(6) [OF that] pass(3) by (simp add: db_may_wait_def)
    ultimately show ?thesis unfolding pass(1)
      by (intro db_invI [where answered = answered and pending = pending]) (use 1 in simp_all)
  qed
next
  case signal
  then show ?thesis using db_signal_inv assms(2-4) by simp
next
  case fire
  then show ?thesis using db_fire_inv assms(2-4) by simp
qed

lemma db_reach_inv: "(db_step mi ma)\<^sup>*\<^sup>* (db_start t) r \<Longrightarrow> 0 \<le> mi \<Longrightarrow> 0 \<le> ma \<Longrightarrow> db_inv mi ma r"
  by (induction rule: rtranclp_induct) (auto simp: db_inv_start intro: db_step_inv)

subsection \<open>Properties of the live updates\<close>

lemma ws_open_upto:
  assumes "stream_inv st" and "1 \<le> max_cap" and "\<forall>e \<in> set (stream_entries st). se_cursor e < - 1"
  shows "\<exists>c. ws_open max_cap st = Inr c
    \<and> ws_upto predicate (if stream_entries st = [] then - 1 else se_cursor (last (stream_entries st))) (stream_entries st) c 0"
  using ws_open_cursor [OF assms] by (simp add: ws_upto_def)

lemma growing_snoc:
  "growing es (us @ [(st, ok)]) \<longleftrightarrow> growing es us \<and> stream_inv st \<and> (\<exists>new. stream_entries st = last_entries es us @ new)"
  by (induction es us rule: growing.induct) auto

lemma last_entries_snoc: "last_entries es (us @ [(st, ok)]) = stream_entries st"
  by (induction es us rule: last_entries.induct) auto

text \<open>C36: A connection to a stream with entries is sent, in order and without gap or repetition, the matching entries
  that came after it connected, whatever writes fail; after a write that succeeds nothing is missing unless more than
  1000 entries matched. (The stream is assumed to have overwritten nothing since.)\<close>

theorem websocket_delivers:
  fixes updates :: "(('a, 'l) buffered \<times> bool) list" and predicate :: "('a \<Rightarrow> bool) option"
  assumes "stream_inv st" and "1000 \<le> max_cap" and "\<forall>e \<in> set (stream_entries st). se_cursor e < - 1"
    and "stream_entries st \<noteq> []" and "growing (stream_entries st) updates"
  defines "ms \<equiv> matching predicate (filter (\<lambda>e. se_cursor (last (stream_entries st)) < se_cursor e)
      (last_entries (stream_entries st) updates))"
  shows "\<exists>c0 c n. ws_open max_cap st = Inr c0 \<and> ws_run max_cap predicate c0 updates = Inr c
    \<and> n \<le> length ms \<and> concat (ws_sent c) = map se_val (take n ms)
    \<and> (if updates \<noteq> [] \<and> snd (last updates) \<and> length ms \<le> 1000 then n = length ms else True)"
proof -
  let ?c0 = "se_cursor (last (stream_entries st))"
  obtain c0 where c0: "ws_open max_cap st = Inr c0" "ws_upto predicate ?c0 (stream_entries st) c0 0"
    using ws_open_upto [OF assms(1) _ assms(3), of max_cap predicate] assms(2,4) by auto
  show ?thesis
  proof (cases updates rule: rev_cases)
    case Nil
    with c0 show ?thesis by (auto simp: ws_run_def ws_upto_def Let_def ms_def)
  next
    case (snoc us u)
    obtain st' ok where u: "u = (st', ok)" by (cases u)
    have g: "growing (stream_entries st) us" "stream_inv st'"
      "\<exists>new. stream_entries st' = last_entries (stream_entries st) us @ new"
      "last_entries (stream_entries st) updates = stream_entries st'"
      using assms(5) growing_snoc last_entries_snoc unfolding snoc u by metis+
    obtain c1 n1 where c1: "ws_run max_cap predicate c0 us = Inr c1"
      "ws_upto predicate ?c0 (last_entries (stream_entries st) us) c1 n1"
      using ws_run_upto [OF g(1) assms(2) c0(2)] by blast
    have "ws_upto predicate ?c0 (stream_entries st') c1 n1" using g(3) c1(2) by (metis ws_upto_extend)
    from ws_update_upto [OF g(2) assms(2) this, of ok, folded g(4), folded ms_def]
    obtain c n where c: "ws_update max_cap predicate c1 (st', ok) = Inr c"
      "ws_upto predicate ?c0 (last_entries (stream_entries st) updates) c n"
      "n = (if ok then min (n1 + 1000) (length ms) else n1)" by blast
    have "ws_run max_cap predicate c0 updates = Inr c"
      using c1(1) c(1) by (simp add: ws_run_def snoc u fold_res_append)
    moreover have "n \<le> length ms" "concat (ws_sent c) = map se_val (take n ms)"
      using c(2) by (simp_all add: ws_upto_def Let_def ms_def)
    moreover have "if updates \<noteq> [] \<and> snd (last updates) \<and> length ms \<le> 1000 then n = length ms else True"
      using c(3) by (simp add: snoc u)
    ultimately show ?thesis using c0(1) by blast
  qed
qed

definition shorter_stream :: "(nat, nat) buffered" where
  "shorter_stream = \<lparr>bs_buf = \<lparr>rb_start = 0, rb_end = 1, rb_size = 2,
       rb_buf = [\<lparr>se_cursor = 10, se_val = 1\<rparr>, \<lparr>se_cursor = 20, se_val = 2\<rparr>, \<lparr>se_cursor = 0, se_val = 0\<rparr>]\<rparr>,
     bs_index = 2, bs_listeners = [], bs_next_listener = 0\<rparr>"

lemma shorter_stream_inv: "stream_inv shorter_stream"
  and shorter_stream_entries: "stream_entries shorter_stream = [\<lparr>se_cursor = 10, se_val = 1\<rparr>, \<lparr>se_cursor = 20, se_val = 2\<rparr>]"
proof -
  show es: "stream_entries shorter_stream = [\<lparr>se_cursor = 10, se_val = 1\<rparr>, \<lparr>se_cursor = 20, se_val = 2\<rparr>]"
    by (simp add: shorter_stream_def rb_list_def rb_cap_def upt_rec numeral_eq_Suc)
  have "rb_inv (bs_buf shorter_stream)" by (simp add: shorter_stream_def rb_inv_def rb_cap_def)
  then show "stream_inv shorter_stream" by (simp add: stream_inv_def es entries_sorted_def)
qed

theorem websocket_delivers_witness:
  "\<exists>c0 c n. ws_open 1000 shorter_stream = Inr c0
    \<and> ws_run 1000 None c0 [(sample_stream, True)] = Inr c \<and> concat (ws_sent c) = map se_val (take n [\<lparr>se_cursor = 30, se_val = 3\<rparr>])
    \<and> n = 1"
  using websocket_delivers [OF shorter_stream_inv, of 1000 "[(sample_stream, True)]" None]
  by (simp add: shorter_stream_entries sample_stream_entries sample_stream_inv passes_def)

text \<open>A connection made while the stream is empty starts at the largest cursor and is never sent anything,
  whatever is appended later.\<close>

theorem ws_blind_on_empty_stream:
  fixes updates :: "(('a, 'l) buffered \<times> bool) list" and predicate :: "('a \<Rightarrow> bool) option"
  assumes "stream_inv st" and "1000 \<le> max_cap" and "stream_entries st = []" and "growing [] updates"
  shows "\<exists>c0 c. ws_open max_cap st = Inr c0 \<and> ws_run max_cap predicate c0 updates = Inr c \<and> concat (ws_sent c) = []"
proof -
  obtain c0 where c0: "ws_open max_cap st = Inr c0" "ws_upto predicate (- 1) [] c0 0"
    using ws_open_upto [OF assms(1), of max_cap predicate] assms(2,3) by auto
  obtain c n where c: "ws_run max_cap predicate c0 updates = Inr c" "ws_upto predicate (- 1) (last_entries [] updates) c n"
    using ws_run_upto [OF assms(4,2) c0(2)] by blast
  have "filter (\<lambda>e. - 1 < se_cursor e) es = []" for es :: "'a stream_entry list"
    by (simp add: filter_empty_conv not_less)
  then have "concat (ws_sent c) = []" using c(2) by (simp add: ws_upto_def Let_def)
  with c0(1) c(1) show ?thesis by blast
qed

definition empty_stream :: "(nat, nat) buffered" where
  "empty_stream = \<lparr>bs_buf = \<lparr>rb_start = 0, rb_end = - 1, rb_size = 0, rb_buf = [\<lparr>se_cursor = 0, se_val = 0\<rparr>]\<rparr>,
     bs_index = 0, bs_listeners = [], bs_next_listener = 0\<rparr>"

lemma empty_stream_inv: "stream_inv empty_stream"
  and empty_stream_entries: "stream_entries empty_stream = []"
proof -
  show es: "stream_entries empty_stream = []"
    by (simp add: empty_stream_def rb_list_def)
  have "rb_inv (bs_buf empty_stream)" by (simp add: empty_stream_def rb_inv_def rb_cap_def)
  then show "stream_inv empty_stream" by (simp add: stream_inv_def es entries_sorted_def)
qed

theorem ws_blind_on_empty_stream_witness:
  "\<exists>c0 c. ws_open 1000 empty_stream = Inr c0 \<and> ws_run 1000 None c0 [(sample_stream, True)] = Inr c \<and> concat (ws_sent c) = []"
  by (rule ws_blind_on_empty_stream [OF empty_stream_inv]) (simp_all add: empty_stream_entries sample_stream_inv)

text \<open>C38: The debouncer with a receiver that is always ready: every signal is answered by an update no later than
  the maximum interval after it (or that time has not come yet), and every update comes a minimum or a maximum interval
  after some signal.\<close>

theorem debounce_bounds:
  assumes "(db_step min_interval max_interval)\<^sup>*\<^sup>* (db_start t) r" and "0 \<le> min_interval" and "0 \<le> max_interval"
  shows "(\<forall>s \<in> set (dr_signals r). (\<exists>u \<in> set (dr_updates r). s \<le> u \<and> u \<le> s + max_interval) \<or> dr_now r \<le> s + max_interval)
    \<and> (\<forall>u \<in> set (dr_updates r). \<exists>s \<in> set (dr_signals r). u = s + min_interval \<or> u = s + max_interval)"
  using db_reach_inv [OF assms]
proof (cases rule: db_inv_cases)
  case (1 answered pending)
  have "dr_now r \<le> s + max_interval" if s: "s \<in> set pending" for s
  proof -
    from s have ne: "pending \<noteq> []" by auto
    have "hd pending \<le> s" using 1(1,3) s by (cases pending) (auto simp: sorted_append)
    with 1(6) [OF ne] show ?thesis by linarith
  qed
  with 1(1,2,7) show ?thesis by auto
qed

theorem debounce_bounds_witness:
  "\<exists>r. (db_step 2 5)\<^sup>*\<^sup>* (db_start 0) r \<and> dr_updates r = [2] \<and> (\<exists>s \<in> set (dr_signals r). 2 = s + 2 \<or> 2 = s + 5)"
proof -
  let ?r0 = "db_start 0"
  let ?r1 = "?r0\<lparr>dr_state := db_signal 2 5 0 new_debounce, dr_signals := [0]\<rparr>"
  let ?r2 = "?r1\<lparr>dr_now := 2\<rparr>"
  let ?r3 = "?r2\<lparr>dr_state := db_send_update (dr_state ?r2), dr_updates := [2]\<rparr>"
  have "db_step 2 5 ?r0 ?r1" using db_step.signal [of 2 5 ?r0] by (simp add: db_start_def)
  moreover have "db_step 2 5 ?r1 ?r2"
    by (rule db_step.pass) (simp_all add: db_start_def db_may_wait_def db_signal_def new_debounce_def)
  moreover have "db_step 2 5 ?r2 ?r3"
    using db_step.fire [of ?r2 2 5] by (simp add: db_start_def db_due_def db_signal_def new_debounce_def)
  ultimately have run: "(db_step 2 5)\<^sup>*\<^sup>* (db_start 0) ?r3" by (intro rtranclp.rtrancl_into_rtrancl [OF rtranclp.rtrancl_into_rtrancl
        [OF rtranclp.rtrancl_into_rtrancl [OF rtranclp.rtrancl_refl]]])
  have "dr_updates ?r3 = [2]" by simp
  moreover have "\<exists>s \<in> set (dr_signals ?r3). 2 = s + 2 \<or> 2 = s + 5"
    using debounce_bounds [OF run] by simp
  ultimately show ?thesis using run by blast
qed

end
