(* ===== verification/LiveRun.thy ===== *)
theory LiveRun
  imports LiveUpdates
begin

text \<open>
  One websocket connection (\<open>createStreamHandler\<close> and the goroutine of \<open>debounceUpdateChannel\<close>,
  \<open>dns-server/internal/dns_server_http.go\<close>) while other goroutines append to the stream: the handler, the debouncer
  and the listener that \<open>Append\<close> calls, with the send that does not block. The queries and timers are those of
  \<open>LiveUpdates\<close>; a timer that is set may fire at any time.
\<close>

subsection \<open>The state of one connection\<close>

text \<open>Where the handler is: between taking the cursor and \<open>Listen\<close>, at its \<open>select\<close>, querying the stream, writing
  (with the client as it is once the message is written), or returned.\<close>

datatype 'a ws_pc = WConnected | WSelect | WQuery | WWrite "'a ws_client" | WClosed

text \<open>Where the goroutine of \<open>debounceUpdateChannel\<close> is: not started, at its \<open>select\<close>, about to set the timers, in
  \<open>sendUpdate\<close>, on the way back to the \<open>select\<close>, or returned.\<close>

datatype db_pc = DStart | DSelect | DArm | DSend | DResume | DStop

text \<open>\<open>lv_missed\<close> is no variable of the code: it tells that entries may be unsent with nobody told about them.\<close>

record ('a, 'l) live =
  lv_stream :: "('a, 'l) buffered"
  lv_done :: bool
  lv_handler :: "'a ws_pc"
  lv_client :: "'a ws_client"
  lv_debouncer :: db_pc
  lv_timers :: debounce
  lv_missed :: bool

definition live_open :: "int \<Rightarrow> ('a, 'l) buffered \<Rightarrow> ('a, 'l) live panicking" where
  "live_open max_cap st =
     (case ws_open max_cap st of
        Inl panic \<Rightarrow> Inl panic
      | Inr c \<Rightarrow> Inr \<lparr>lv_stream = st, lv_done = False, lv_handler = WConnected, lv_client = c,
                       lv_debouncer = DStart, lv_timers = new_debounce, lv_missed = False\<rparr>)"

text \<open>The listener: its send on \<open>updateCh\<close> succeeds only while the debouncer waits at its \<open>select\<close>.\<close>

definition live_signal :: "('a, 'l) live \<Rightarrow> ('a, 'l) live" where
  "live_signal lc =
     (if lv_handler lc = WConnected \<or> lv_handler lc = WClosed then lc\<lparr>lv_missed := True\<rparr>
      else case lv_debouncer lc of
        DSelect \<Rightarrow> lc\<lparr>lv_debouncer := DArm\<rparr>
      | DArm \<Rightarrow> lc
      | DSend \<Rightarrow> lc
      | _ \<Rightarrow> lc\<lparr>lv_missed := True\<rparr>)"

text \<open>\<open>Append\<close> calls the listeners under its lock, so no query comes between the entry and the signal.\<close>

definition live_append ::
  "(cursor \<Rightarrow> 'a \<Rightarrow> 'a) \<Rightarrow> (u16 \<times> 'l) order \<Rightarrow> int \<Rightarrow> 'a \<Rightarrow> ('a, 'l) live \<Rightarrow> ('a, 'l) live panicking"
where
  "live_append set_cursor ord millis v lc =
     (case stream_append set_cursor ord millis (lv_stream lc) v of
        Inl panic \<Rightarrow> Inl panic
      | Inr (st, calls) \<Rightarrow> Inr (live_signal (lc\<lparr>lv_stream := st\<rparr>)))"

definition behind :: "('a \<Rightarrow> bool) option \<Rightarrow> ('a, 'l) buffered \<Rightarrow> 'a ws_client \<Rightarrow> 'a stream_entry list" where
  "behind predicate st c = matching predicate (filter (\<lambda>e. ws_cursor c < se_cursor e) (stream_entries st))"

text \<open>The steps of the handler and of the debouncer.\<close>

inductive live_inner :: "int \<Rightarrow> ('a \<Rightarrow> bool) option \<Rightarrow> duration \<Rightarrow> duration \<Rightarrow> ('a, 'l) live \<Rightarrow> ('a, 'l) live \<Rightarrow> bool"
  for max_cap predicate min_interval max_interval where
  start: "lv_debouncer lc = DStart \<Longrightarrow> live_inner max_cap predicate min_interval max_interval lc (lc\<lparr>lv_debouncer := DSelect\<rparr>)"
| arm: "lv_debouncer lc = DArm \<Longrightarrow> live_inner max_cap predicate min_interval max_interval lc
     (lc\<lparr>lv_debouncer := DSelect, lv_timers := db_signal min_interval max_interval now (lv_timers lc)\<rparr>)"
| fire: "lv_debouncer lc = DSelect \<Longrightarrow> lv_timers lc \<noteq> new_debounce \<Longrightarrow> live_inner max_cap predicate min_interval max_interval lc
     (lc\<lparr>lv_debouncer := DSend, lv_timers := db_send_update (lv_timers lc)\<rparr>)"
| update: "lv_debouncer lc = DSend \<Longrightarrow> lv_handler lc = WSelect \<Longrightarrow> live_inner max_cap predicate min_interval max_interval lc
     (lc\<lparr>lv_debouncer := DResume, lv_handler := WQuery\<rparr>)"
| give_up: "lv_debouncer lc = DSend \<Longrightarrow> lv_done lc \<Longrightarrow> live_inner max_cap predicate min_interval max_interval lc
     (lc\<lparr>lv_debouncer := DResume\<rparr>)"
| resume: "lv_debouncer lc = DResume \<Longrightarrow> live_inner max_cap predicate min_interval max_interval lc (lc\<lparr>lv_debouncer := DSelect\<rparr>)"
| stop: "lv_debouncer lc = DSelect \<Longrightarrow> lv_done lc \<Longrightarrow> live_inner max_cap predicate min_interval max_interval lc
     (lc\<lparr>lv_debouncer := DStop\<rparr>)"
| listen: "lv_handler lc = WConnected \<Longrightarrow> live_inner max_cap predicate min_interval max_interval lc (lc\<lparr>lv_handler := WSelect\<rparr>)"
| query: "lv_handler lc = WQuery \<Longrightarrow> ws_update max_cap predicate (lv_client lc) (lv_stream lc, ok) = Inr c
     \<Longrightarrow> rest = behind predicate (lv_stream lc) (lv_client lc)
     \<Longrightarrow> live_inner max_cap predicate min_interval max_interval lc
       (lc\<lparr>lv_handler := WWrite c, lv_missed := rest \<noteq> [] \<and> (\<not> ok \<or> 1000 < length rest)\<rparr>)"
| sent: "lv_handler lc = WWrite c \<Longrightarrow> live_inner max_cap predicate min_interval max_interval lc
     (lc\<lparr>lv_handler := WSelect, lv_client := c\<rparr>)"
| close: "lv_handler lc = WSelect \<Longrightarrow> lv_done lc \<Longrightarrow> live_inner max_cap predicate min_interval max_interval lc
     (lc\<lparr>lv_handler := WClosed\<rparr>)"

text \<open>With the rest of the server: entries are appended in the order of their cursors, and the context may end; from then
  on the listener may also see that and signal nothing.\<close>

inductive live_step ::
  "int \<Rightarrow> ('a \<Rightarrow> bool) option \<Rightarrow> duration \<Rightarrow> duration \<Rightarrow> (cursor \<Rightarrow> 'a \<Rightarrow> 'a) \<Rightarrow> (u16 \<times> 'l) order \<Rightarrow> ('a, 'l) live \<Rightarrow> ('a, 'l) live \<Rightarrow> bool"
  for max_cap predicate min_interval max_interval set_cursor ord where
  inner: "live_inner max_cap predicate min_interval max_interval lc lc'
     \<Longrightarrow> live_step max_cap predicate min_interval max_interval set_cursor ord lc lc'"
| append: "live_append set_cursor ord millis v lc = Inr lc' \<Longrightarrow> stream_inv (lv_stream lc')
     \<Longrightarrow> live_step max_cap predicate min_interval max_interval set_cursor ord lc lc'"
| append_done: "lv_done lc \<Longrightarrow> stream_append set_cursor ord millis (lv_stream lc) v = Inr (st, calls) \<Longrightarrow> stream_inv st
     \<Longrightarrow> live_step max_cap predicate min_interval max_interval set_cursor ord lc (lc\<lparr>lv_stream := st\<rparr>)"
| cancel: "live_step max_cap predicate min_interval max_interval set_cursor ord lc (lc\<lparr>lv_done := True\<rparr>)"

inductive_cases live_innerE [consumes 1, case_names start arm fire update give_up resume stop listen query sent close]:
  "live_inner max_cap predicate min_interval max_interval lc lc'"

inductive_cases live_stepE [consumes 1, case_names inner append append_done cancel]:
  "live_step max_cap predicate min_interval max_interval set_cursor ord lc lc'"

subsection \<open>Entries unsent are announced\<close>

fun ws_target :: "'a ws_pc \<Rightarrow> 'a ws_client \<Rightarrow> 'a ws_client" where
  "ws_target (WWrite c) _ = c"
| "ws_target _ c = c"

definition live_target :: "('a, 'l) live \<Rightarrow> 'a ws_client" where
  "live_target lc = ws_target (lv_handler lc) (lv_client lc)"

definition live_pending :: "('a, 'l) live \<Rightarrow> bool" where
  "live_pending lc \<longleftrightarrow> lv_timers lc \<noteq> new_debounce \<or> lv_debouncer lc \<in> {DArm, DSend} \<or> lv_handler lc = WQuery"

definition live_inv :: "('a \<Rightarrow> bool) option \<Rightarrow> ('a, 'l) live \<Rightarrow> bool" where
  "live_inv predicate lc \<longleftrightarrow> stream_inv (lv_stream lc)
     \<and> (lv_debouncer lc \<in> {DStart, DSend, DResume} \<longrightarrow> lv_timers lc = new_debounce)
     \<and> (\<not> lv_done lc \<longrightarrow> lv_handler lc \<noteq> WClosed \<and> lv_debouncer lc \<noteq> DStop
          \<and> (\<not> lv_missed lc \<longrightarrow> behind predicate (lv_stream lc) (live_target lc) \<noteq> [] \<longrightarrow> live_pending lc))"

lemma ws_update_caught_up:
  assumes "stream_inv st" and "1000 \<le> max_cap" and "ws_update max_cap predicate c (st, ok) = Inr c'"
  shows "c' = (if ok \<and> behind predicate st c \<noteq> [] then
        c\<lparr>ws_sent := ws_sent c @ [map se_val (take 1000 (behind predicate st c))],
          ws_cursor := se_cursor (last (take 1000 (behind predicate st c)))\<rparr> else c)"
proof -
  have "stream_query max_cap st (ws_cursor c) 1000 predicate = Inr (page_of (ws_cursor c) 1000 (behind predicate st c))"
    using query_forward_page [OF assms(1,2), of "ws_cursor c" predicate] by (simp add: behind_def)
  with assms(3) show ?thesis
    by (cases "behind predicate st c = []") (auto simp: ws_update_def first_last_page split: if_splits)
qed

lemma behind_last:
  assumes "stream_inv st" and "behind predicate st c \<noteq> []" and "length (behind predicate st c) \<le> 1000"
  shows "behind predicate st (c\<lparr>ws_sent := s, ws_cursor := se_cursor (last (take 1000 (behind predicate st c)))\<rparr>) = []"
proof -
  let ?b = "behind predicate st c"
  have "entries_sorted (stream_entries st)" using assms(1) by (simp add: stream_inv_def)
  then have sorted: "entries_sorted ?b" unfolding behind_def by (intro entries_sorted_filter)
  have last: "last (take 1000 ?b) = last ?b" using assms(3) by simp
  have "se_cursor (last ?b) \<ge> se_cursor e" if "e \<in> set ?b" for e
  proof -
    from that obtain i where i: "i < length ?b" "e = ?b ! i" by (metis in_set_conv_nth)
    show ?thesis
    proof (cases "i = length ?b - 1")
      case True
      then show ?thesis using i assms(2) by (simp add: last_conv_nth)
    next
      case False
      then have "se_cursor (?b ! i) < se_cursor (?b ! (length ?b - 1))"
        using sorted i by (simp add: entries_sorted_def sorted_wrt_iff_nth_less)
      then show ?thesis using i assms(2) by (simp add: last_conv_nth)
    qed
  qed
  moreover have "ws_cursor c < se_cursor (last ?b)" using last_in_set [OF assms(2)] by (auto simp: behind_def)
  ultimately have "e \<notin> set (stream_entries st) \<or> \<not> passes predicate (se_val e) \<or> se_cursor e \<le> se_cursor (last ?b)" for e
    by (cases "ws_cursor c < se_cursor e") (auto simp: behind_def)
  then show ?thesis unfolding last by (auto simp: behind_def filter_empty_conv not_less)
qed

lemma db_send_update_new [simp]: "db_send_update d = new_debounce"
  by (simp add: db_send_update_def new_debounce_def)

lemma db_signal_set [simp]: "db_signal mi ma now d \<noteq> new_debounce"
  by (cases d) (simp add: db_signal_def new_debounce_def)

lemma live_append_cases:
  assumes "live_append sc ord ms v lc = Inr lc'"
  obtains st calls where "stream_append sc ord ms (lv_stream lc) v = Inr (st, calls)" and "lc' = live_signal (lc\<lparr>lv_stream := st\<rparr>)"
  using assms by (auto simp: live_append_def split: sum.splits prod.splits)

lemma live_signal_sel [simp]:
  "lv_stream (live_signal lc) = lv_stream lc" "lv_done (live_signal lc) = lv_done lc" "lv_handler (live_signal lc) = lv_handler lc"
  "lv_client (live_signal lc) = lv_client lc" "lv_timers (live_signal lc) = lv_timers lc"
  by (simp_all add: live_signal_def split: db_pc.split)

lemma live_signal_pc:
  "lv_debouncer (live_signal lc) = (if lv_handler lc \<noteq> WConnected \<and> lv_handler lc \<noteq> WClosed \<and> lv_debouncer lc = DSelect then DArm else lv_debouncer lc)"
  by (simp add: live_signal_def split: db_pc.split)

lemma live_signal_told: "\<not> lv_missed (live_signal lc) \<Longrightarrow> live_pending (live_signal lc)"
  by (auto simp: live_signal_def live_pending_def split: db_pc.splits if_splits)

lemma live_open_inv:
  assumes "stream_inv st" and "1 \<le> max_cap" and "\<forall>e \<in> set (stream_entries st). se_cursor e < - 1" and "live_open max_cap st = Inr lc"
  shows "live_inv predicate lc \<and> \<not> lv_done lc"
proof -
  note o = ws_open_cursor [OF assms(1-3)]
  define c where "c = (if stream_entries st = [] then - 1 else se_cursor (last (stream_entries st)))"
  have lc: "lc = \<lparr>lv_stream = st, lv_done = False, lv_handler = WConnected, lv_client = \<lparr>ws_cursor = c, ws_sent = []\<rparr>,
                       lv_debouncer = DStart, lv_timers = new_debounce, lv_missed = False\<rparr>"
    using assms(4) o by (simp add: live_open_def c_def)
  have "se_cursor e \<le> c" if e: "e \<in> set (stream_entries st)" for e
  proof -
    have sorted: "sorted_wrt (<) (map se_cursor (stream_entries st))"
      using assms(1) by (simp add: stream_inv_def entries_sorted_def)
    from e have ne: "stream_entries st \<noteq> []" by auto
    then obtain es l where es: "stream_entries st = es @ [l]" by (cases "stream_entries st" rule: rev_cases) auto
    with sorted e show ?thesis by (auto simp: c_def sorted_wrt_append)
  qed
  then have "filter (\<lambda>e. c < se_cursor e) (stream_entries st) = []" by (auto simp: filter_empty_conv not_less)
  then have "behind predicate st \<lparr>ws_cursor = c, ws_sent = []\<rparr> = []" unfolding behind_def by (simp del: filter_filter)
  then show ?thesis using assms(1) by (simp add: lc live_inv_def live_target_def)
qed

lemma live_inner_inv:
  assumes "live_inner max_cap predicate mi ma lc lc'" and "live_inv predicate lc" and "1000 \<le> max_cap"
  shows "live_inv predicate lc' \<and> lv_stream lc' = lv_stream lc \<and> lv_done lc' = lv_done lc"
  using assms(1)
proof (cases rule: live_innerE)
  case start
  then show ?thesis using assms(2) by (auto simp: live_inv_def live_pending_def live_target_def)
next
  case (arm now)
  then show ?thesis using assms(2) by (auto simp: live_inv_def live_pending_def live_target_def)
next
  case fire
  then show ?thesis using assms(2) by (auto simp: live_inv_def live_pending_def live_target_def)
next
  case update
  then show ?thesis using assms(2) by (auto simp: live_inv_def live_pending_def live_target_def)
next
  case give_up
  then show ?thesis using assms(2) by (auto simp: live_inv_def live_pending_def live_target_def)
next
  case resume
  then show ?thesis using assms(2) by (auto simp: live_inv_def live_pending_def live_target_def)
next
  case stop
  then show ?thesis using assms(2) by (auto simp: live_inv_def live_pending_def live_target_def)
next
  case listen
  then show ?thesis using assms(2) by (auto simp: live_inv_def live_pending_def live_target_def)
next
  case (query ok c)
  let ?rest = "behind predicate (lv_stream lc) (lv_client lc)"
  have st: "stream_inv (lv_stream lc)" using assms(2) by (simp add: live_inv_def)
  note c = ws_update_caught_up [OF st assms(3) query(3)]
  have "behind predicate (lv_stream lc) c = []" if "\<not> (?rest \<noteq> [] \<and> (\<not> ok \<or> 1000 < length ?rest))"
  proof (cases "?rest = []")
    case True
    with c show ?thesis by simp
  next
    case False
    with that c behind_last [OF st, of predicate "lv_client lc"] show ?thesis by simp
  qed
  then show ?thesis using assms(2) query(1) by (auto simp: live_inv_def live_target_def)
next
  case (sent c)
  then show ?thesis using assms(2) by (auto simp: live_inv_def live_pending_def live_target_def)
next
  case close
  then show ?thesis using assms(2) by (auto simp: live_inv_def live_pending_def live_target_def)
qed

lemma live_step_inv:
  assumes "live_step max_cap predicate mi ma sc ord lc lc'" and "live_inv predicate lc" and "1000 \<le> max_cap"
  shows "live_inv predicate lc'"
  using assms(1)
proof (cases rule: live_stepE)
  case inner
  then show ?thesis using live_inner_inv assms(2,3) by blast
next
  case (append ms v)
  from append(1) show ?thesis
  proof (cases rule: live_append_cases)
    case (1 st calls)
    have "\<not> lv_missed lc' \<longrightarrow> live_pending lc'" using live_signal_told unfolding 1 by blast
    then show ?thesis using assms(2) append(2) unfolding live_inv_def 1(2) by (auto simp: live_signal_pc)
  qed
next
  case (append_done ms v st calls)
  then show ?thesis using assms(2) by (auto simp: live_inv_def)
next
  case cancel
  then show ?thesis using assms(2) by (simp add: live_inv_def)
qed

lemma live_steps_inv:
  "(live_step max_cap predicate mi ma sc ord)\<^sup>*\<^sup>* lc lc' \<Longrightarrow> live_inv predicate lc \<Longrightarrow> 1000 \<le> max_cap \<Longrightarrow> live_inv predicate lc'"
  by (induction rule: rtranclp_induct) (auto intro: live_step_inv)

abbreviation live_inners :: "int \<Rightarrow> ('a \<Rightarrow> bool) option \<Rightarrow> duration \<Rightarrow> duration \<Rightarrow> ('a, 'l) live \<Rightarrow> ('a, 'l) live \<Rightarrow> bool" where
  "live_inners max_cap predicate mi ma \<equiv> (live_inner max_cap predicate mi ma)\<^sup>*\<^sup>*"

text \<open>A query under way is answered and its message written.\<close>

lemma query_answered:
  assumes "lv_handler lc = WQuery" and "stream_inv (lv_stream lc)" and "1000 \<le> max_cap"
    and "length (behind predicate (lv_stream lc) (lv_client lc)) \<le> 1000"
  shows "\<exists>lc'. live_inners max_cap predicate mi ma lc lc' \<and> lv_stream lc' = lv_stream lc \<and> lv_handler lc' = WSelect
    \<and> behind predicate (lv_stream lc) (lv_client lc') = []
    \<and> concat (ws_sent (lv_client lc')) = concat (ws_sent (lv_client lc)) @ map se_val (behind predicate (lv_stream lc) (lv_client lc))"
proof -
  let ?rest = "behind predicate (lv_stream lc) (lv_client lc)"
  have "\<exists>c. ws_update max_cap predicate (lv_client lc) (lv_stream lc, True) = Inr c"
    unfolding ws_update_def prod.case query_forward_page [OF assms(2,3)] by simp
  then obtain c where c: "ws_update max_cap predicate (lv_client lc) (lv_stream lc, True) = Inr c" ..
  note eq = ws_update_caught_up [OF assms(2,3) c]
  let ?lc1 = "lc\<lparr>lv_handler := WWrite c, lv_missed := ?rest \<noteq> [] \<and> (\<not> True \<or> 1000 < length ?rest)\<rparr>"
  let ?lc2 = "?lc1\<lparr>lv_handler := WSelect, lv_client := c\<rparr>"
  have "live_inner max_cap predicate mi ma lc ?lc1" by (rule live_inner.query [OF assms(1) c refl])
  moreover have "live_inner max_cap predicate mi ma ?lc1 ?lc2" by (rule live_inner.sent) simp
  ultimately have "live_inners max_cap predicate mi ma lc ?lc2" by (rule converse_rtranclp_into_rtranclp [OF _ r_into_rtranclp])
  moreover have "behind predicate (lv_stream lc) c = []"
    using behind_last [OF assms(2) _ assms(4)] by (cases "?rest = []") (simp_all add: eq)
  moreover have "concat (ws_sent c) = concat (ws_sent (lv_client lc)) @ map se_val ?rest"
    using assms(4) by (cases "?rest = []") (simp_all add: eq)
  ultimately show ?thesis by (intro exI [of _ ?lc2]) simp
qed

text \<open>A pending update reaches the handler that waits for it.\<close>

lemma pending_reaches_handler:
  assumes "lv_handler lc = WSelect" and "live_pending lc" and "lv_debouncer lc \<noteq> DStop"
    and "lv_debouncer lc \<in> {DStart, DSend, DResume} \<longrightarrow> lv_timers lc = new_debounce"
  shows "\<exists>lc'. live_inners max_cap predicate mi ma lc lc' \<and> lv_stream lc' = lv_stream lc \<and> lv_handler lc' = WQuery
    \<and> lv_client lc' = lv_client lc"
proof -
  let ?R = "live_inner max_cap predicate mi ma"
  have send: "\<exists>lc'. live_inners max_cap predicate mi ma l lc' \<and> lv_stream lc' = lv_stream l \<and> lv_handler lc' = WQuery
      \<and> lv_client lc' = lv_client l" if "lv_debouncer l = DSend" "lv_handler l = WSelect" for l :: "('a, 'b) live"
    using live_inner.update [OF that] by (intro exI [of _ "l\<lparr>lv_debouncer := DResume, lv_handler := WQuery\<rparr>"]) auto
  have select: "\<exists>lc'. live_inners max_cap predicate mi ma l lc' \<and> lv_stream lc' = lv_stream l \<and> lv_handler lc' = WQuery
      \<and> lv_client lc' = lv_client l"
    if l: "lv_debouncer l = DSelect" "lv_timers l \<noteq> new_debounce" "lv_handler l = WSelect" for l :: "('a, 'b) live"
  proof -
    let ?l = "l\<lparr>lv_debouncer := DSend, lv_timers := db_send_update (lv_timers l)\<rparr>"
    have "?R l ?l" by (rule live_inner.fire [OF l(1,2)])
    with send [of ?l] l(3) show ?thesis by (auto dest: converse_rtranclp_into_rtranclp)
  qed
  show ?thesis
  proof (cases "lv_debouncer lc")
    case DArm
    let ?l = "lc\<lparr>lv_debouncer := DSelect, lv_timers := db_signal mi ma 0 (lv_timers lc)\<rparr>"
    have "?R lc ?l" by (rule live_inner.arm [OF DArm])
    with select [of ?l] assms(1) show ?thesis by (auto dest: converse_rtranclp_into_rtranclp)
  qed (use assms select send in \<open>auto simp: live_pending_def\<close>)
qed

text \<open>A handler that is about to listen, or that is writing, comes to its \<open>select\<close>.\<close>

lemma handler_comes_to_select:
  assumes "lv_handler lc \<noteq> WQuery" and "lv_handler lc \<noteq> WClosed"
  shows "\<exists>lc'. live_inners max_cap predicate mi ma lc lc' \<and> lc' = lc\<lparr>lv_handler := WSelect, lv_client := live_target lc\<rparr>"
proof (cases "lv_handler lc")
  case WConnected
  then show ?thesis using live_inner.listen [OF WConnected] by (auto simp: live_target_def)
next
  case WSelect
  then have "lc\<lparr>lv_handler := WSelect, lv_client := live_target lc\<rparr> = lc" by (simp add: live_target_def)
  then show ?thesis by auto
next
  case (WWrite c)
  then show ?thesis using live_inner.sent [OF WWrite] by (auto simp: live_target_def)
qed (use assms in simp_all)

lemma live_catches_up:
  assumes "live_inv predicate lc" and "1000 \<le> max_cap" and "\<not> lv_done lc" and "\<not> lv_missed lc"
    and "length (behind predicate (lv_stream lc) (live_target lc)) \<le> 1000"
  shows "\<exists>lc'. live_inners max_cap predicate mi ma lc lc' \<and> lv_stream lc' = lv_stream lc
    \<and> behind predicate (lv_stream lc) (lv_client lc') = []
    \<and> concat (ws_sent (lv_client lc')) = concat (ws_sent (live_target lc)) @ map se_val (behind predicate (lv_stream lc) (live_target lc))"
proof (cases "lv_handler lc = WQuery")
  case True
  then have "live_target lc = lv_client lc" by (simp add: live_target_def)
  then show ?thesis using query_answered [OF True _ assms(2), of predicate mi ma] assms(1,5) unfolding live_inv_def by metis
next
  case False
  note inv = assms(1) [unfolded live_inv_def]
  have alive: "lv_handler lc \<noteq> WClosed" "lv_debouncer lc \<noteq> DStop" using inv assms(3) by blast+
  define l1 where "l1 = lc\<lparr>lv_handler := WSelect, lv_client := live_target lc\<rparr>"
  have l1: "live_inners max_cap predicate mi ma lc l1"
    using handler_comes_to_select [OF False alive(1)] unfolding l1_def by blast
  show ?thesis
  proof (cases "behind predicate (lv_stream lc) (live_target lc) = []")
    case True
    with l1 show ?thesis by (intro exI [of _ l1]) (simp add: l1_def)
  next
    case behind: False
    then have "live_pending l1" using inv assms(3,4) False by (simp add: live_pending_def l1_def)
    moreover have "lv_handler l1 = WSelect" "lv_debouncer l1 \<noteq> DStop"
      "lv_debouncer l1 \<in> {DStart, DSend, DResume} \<longrightarrow> lv_timers l1 = new_debounce"
      using inv alive(2) by (simp_all add: l1_def)
    ultimately obtain l2 where l2: "live_inners max_cap predicate mi ma l1 l2" "lv_stream l2 = lv_stream l1" "lv_handler l2 = WQuery"
        "lv_client l2 = lv_client l1"
      using pending_reaches_handler [of l1 max_cap predicate mi ma] by blast
    have eq: "lv_stream l2 = lv_stream lc" "lv_client l2 = live_target lc" using l2 by (simp_all add: l1_def)
    have "stream_inv (lv_stream l2)" "length (behind predicate (lv_stream l2) (lv_client l2)) \<le> 1000"
      using inv assms(5) by (simp_all add: eq)
    from query_answered [OF l2(3) this(1) assms(2) this(2), of mi ma] obtain l3 where
      l3: "live_inners max_cap predicate mi ma l2 l3" "lv_stream l3 = lv_stream l2" "behind predicate (lv_stream l2) (lv_client l3) = []"
        "concat (ws_sent (lv_client l3)) = concat (ws_sent (lv_client l2)) @ map se_val (behind predicate (lv_stream l2) (lv_client l2))"
      by blast
    have "live_inners max_cap predicate mi ma lc l3" using l1 l2(1) l3(1) by (meson rtranclp_trans)
    with l3(2-4) show ?thesis unfolding eq by blast
  qed
qed

text \<open>What came after the connection is sent or still to send: no entry of the stream is passed over.\<close>

definition live_covers :: "('a \<Rightarrow> bool) option \<Rightarrow> cursor \<Rightarrow> ('a, 'l) buffered \<Rightarrow> 'a ws_client \<Rightarrow> bool" where
  "live_covers predicate c0 st c \<longleftrightarrow> stream_entries st \<noteq> [] \<and> ws_cursor c \<le> se_cursor (last (stream_entries st))
     \<and> (\<forall>e \<in> set (stream_entries st). c0 < se_cursor e \<longrightarrow> passes predicate (se_val e) \<longrightarrow>
          se_val e \<in> set (concat (ws_sent c)) \<or> e \<in> set (behind predicate st c))"

lemma last_cursor_max:
  assumes "stream_inv st" and "e \<in> set (stream_entries st)"
  shows "se_cursor e \<le> se_cursor (last (stream_entries st))"
proof (cases "stream_entries st" rule: rev_cases)
  case (snoc es l)
  with assms show ?thesis by (auto simp: stream_inv_def entries_sorted_def sorted_wrt_append)
qed (use assms in simp)

lemma covers_update:
  assumes "stream_inv st" and "1000 \<le> max_cap" and "ws_update max_cap predicate c (st, ok) = Inr c'"
    and cov: "live_covers predicate c0 st c"
  shows "live_covers predicate c0 st c'"
proof (cases "ok \<and> behind predicate st c \<noteq> []")
  case False
  with ws_update_caught_up [OF assms(1-3)] cov show ?thesis by simp
next
  case True
  let ?b = "behind predicate st c"
  let ?page = "take 1000 ?b"
  have c': "ws_sent c' = ws_sent c @ [map se_val ?page]" "ws_cursor c' = se_cursor (last ?page)"
    using ws_update_caught_up [OF assms(1-3)] True by simp_all
  have ne: "?page \<noteq> []" using True by simp
  have sub: "e \<in> set (stream_entries st)" if "e \<in> set ?b" for e using that by (auto simp: behind_def)
  have last: "last ?page \<in> set ?b" using last_in_set [OF ne] in_set_takeD by fast
  have "sorted_wrt (\<lambda>e e'. se_cursor e < se_cursor e') (stream_entries st)"
    using assms(1) by (simp add: stream_inv_def entries_sorted_def sorted_wrt_map)
  then have "sorted_wrt (\<lambda>e e'. se_cursor e < se_cursor e') ?b" unfolding behind_def by (intro sorted_wrt_filter)
  then have "sorted_wrt (\<lambda>e e'. se_cursor e < se_cursor e') (?page @ drop 1000 ?b)" by simp
  then have later: "se_cursor (last ?page) < se_cursor e" if "e \<in> set (drop 1000 ?b)" for e
    using that last_in_set [OF ne] unfolding sorted_wrt_append by blast
  have "se_val e \<in> set (concat (ws_sent c')) \<or> e \<in> set (behind predicate st c')"
    if e: "e \<in> set (stream_entries st)" "c0 < se_cursor e" "passes predicate (se_val e)" for e
  proof -
    from cov e consider "se_val e \<in> set (concat (ws_sent c))" | "e \<in> set (?page @ drop 1000 ?b)"
      unfolding live_covers_def append_take_drop_id by blast
    then show ?thesis
    proof cases
      case 1
      then show ?thesis by (simp add: c'(1))
    next
      case 2
      then consider "e \<in> set ?page" | "e \<in> set (drop 1000 ?b)" unfolding set_append by blast
      then show ?thesis
      proof cases
        case 1
        then have "se_val e \<in> set (map se_val ?page)" unfolding set_map by (rule imageI)
        then show ?thesis unfolding c'(1) concat_append set_append by simp
      next
        case 2
        from later [OF this] e have "e \<in> set (behind predicate st c')" by (simp add: behind_def c'(2))
        then show ?thesis by blast
      qed
    qed
  qed
  moreover have "ws_cursor c' \<le> se_cursor (last (stream_entries st))"
    unfolding c'(2) by (rule last_cursor_max [OF assms(1) sub [OF last]])
  ultimately show ?thesis using cov unfolding live_covers_def by blast
qed

lemma covers_append:
  assumes cov: "live_covers predicate c0 st c" and inv: "stream_inv st" "stream_inv st'" and cap: "1 < rb_cap (bs_buf st)"
    and app: "stream_append sc ord ms st v = Inr (st', calls)"
  shows "live_covers predicate c0 st' c \<and> rb_cap (bs_buf st') = rb_cap (bs_buf st)"
proof -
  have rb: "rb_inv (bs_buf st)" using inv(1) by (simp add: stream_inv_def)
  let ?es = "stream_entries st"
  from stream_append_ok [OF rb, of sc ord ms v] app obtain x where
    x: "stream_entries st' = last_n (nat (rb_cap (bs_buf st))) (?es @ [x])" "rb_cap (bs_buf st') = rb_cap (bs_buf st)" by auto
  have ne: "?es \<noteq> []" using cov by (simp add: live_covers_def)
  then obtain es l where es: "?es = es @ [l]" by (cases ?es rule: rev_cases) auto
  define n where "n = nat (rb_cap (bs_buf st)) - 2"
  have n: "nat (rb_cap (bs_buf st)) = Suc (Suc n)" using cap unfolding n_def by linarith
  define pre where "pre = drop (length es - n) es"
  have st': "stream_entries st' = pre @ [l, x]"
    by (simp add: x(1) n es last_n_def pre_def Suc_diff_le)
  have lt: "se_cursor l < se_cursor x" using inv(2) by (simp add: stream_inv_def entries_sorted_def st' sorted_wrt_append)
  have le: "ws_cursor c \<le> se_cursor l" using cov by (simp add: live_covers_def es)
  have later: "ws_cursor c < se_cursor x" using le lt by (rule le_less_trans)
  have old: "e \<in> set ?es" if "e \<in> set (pre @ [l])" for e using that by (auto simp: es pre_def dest: in_set_dropD)
  have "se_val e \<in> set (concat (ws_sent c)) \<or> e \<in> set (behind predicate st' c)"
    if e: "e \<in> set (stream_entries st')" "c0 < se_cursor e" "passes predicate (se_val e)" for e
  proof (cases "e = x")
    case True
    with later e show ?thesis by (simp add: behind_def)
  next
    case False
    with e(1) have "e \<in> set ?es" by (intro old) (simp add: st')
    with cov e(2,3) have "se_val e \<in> set (concat (ws_sent c)) \<or> e \<in> set (behind predicate st c)" unfolding live_covers_def by blast
    with e(1) show ?thesis by (auto simp: behind_def)
  qed
  moreover have "ws_cursor c \<le> se_cursor (last (stream_entries st'))" using later by (simp add: st')
  ultimately show ?thesis using x(2) by (simp add: live_covers_def st')
qed

definition live_covered :: "('a \<Rightarrow> bool) option \<Rightarrow> cursor \<Rightarrow> ('a, 'l) live \<Rightarrow> bool" where
  "live_covered predicate c0 lc \<longleftrightarrow>
     1 < rb_cap (bs_buf (lv_stream lc)) \<and> live_covers predicate c0 (lv_stream lc) (live_target lc)"

lemma live_step_covered:
  assumes "live_step max_cap predicate mi ma sc ord lc lc'" and "live_inv predicate lc" and "1000 \<le> max_cap"
    and cov: "live_covered predicate c0 lc"
  shows "live_covered predicate c0 lc'"
proof -
  have st: "stream_inv (lv_stream lc)" using assms(2) by (simp add: live_inv_def)
  have c: "live_covers predicate c0 (lv_stream lc) (live_target lc)" "1 < rb_cap (bs_buf (lv_stream lc))"
    using cov by (simp_all add: live_covered_def)
  show ?thesis
    using assms(1)
  proof (cases rule: live_stepE)
    case inner
    then show ?thesis
    proof (cases rule: live_innerE)
      case (query ok c)
      with cov covers_update [OF st assms(3) query(3)] show ?thesis by (simp add: live_covered_def live_target_def)
    qed (use cov in \<open>auto simp: live_covered_def live_target_def\<close>)
  next
    case (append ms v)
    from append(1) show ?thesis
    proof (cases rule: live_append_cases)
      case (1 st' calls)
      have "stream_inv st'" using append(2) unfolding 1(2) by simp
      from covers_append [OF c(1) st this c(2) 1(1)] c(2) show ?thesis
        unfolding 1(2) live_covered_def by (simp add: live_target_def)
    qed
  next
    case (append_done ms v st' calls)
    from covers_append [OF c(1) st append_done(4) c(2) append_done(3)] c(2) show ?thesis
      unfolding append_done(1) live_covered_def by (simp add: live_target_def)
  next
    case cancel
    with cov show ?thesis by (simp add: live_covered_def live_target_def)
  qed
qed

lemma live_steps_covered:
  "(live_step max_cap predicate mi ma sc ord)\<^sup>*\<^sup>* lc lc' \<Longrightarrow> live_inv predicate lc \<Longrightarrow> 1000 \<le> max_cap
   \<Longrightarrow> live_covered predicate c0 lc \<Longrightarrow> live_covered predicate c0 lc'"
  by (induction rule: rtranclp_induct) (auto intro: live_step_covered live_steps_inv)

lemma live_open_covered:
  assumes "stream_inv st" and "1 \<le> max_cap" and "\<forall>e \<in> set (stream_entries st). se_cursor e < - 1"
    and "stream_entries st \<noteq> []" and "1 < rb_cap (bs_buf st)" and "live_open max_cap st = Inr lc"
  shows "live_covered predicate (se_cursor (last (stream_entries st))) lc"
proof -
  have lc: "lv_stream lc = st" "live_target lc = \<lparr>ws_cursor = se_cursor (last (stream_entries st)), ws_sent = []\<rparr>"
    using assms(4,6) ws_open_cursor [OF assms(1-3)] by (auto simp: live_open_def live_target_def)
  show ?thesis using assms(4,5) by (auto simp: live_covered_def live_covers_def lc behind_def)
qed

text \<open>C10: A connection to a stream that had entries when it was opened (and that keeps at least two) passes over
  none of the later ones, in whatever order the appending threads, the debouncer and the handler move: while it lasts and no
  signal was missed since the last complete page (a page of more than 1000 entries or a failed write counts as one), every
  matching entry that came after the connection and is still in the stream is sent or left to send;
  while entries are left, a timer runs, an update is under way or the handler is about to query; and once handler and
  debouncer move on without further appends, exactly the entries left are sent, when they are at most 1000. (Entries are appended in
  the order of their cursors, all below the largest.)\<close>

theorem live_entries_arrive:
  assumes "stream_inv st" and "1000 \<le> max_cap" and "\<forall>e \<in> set (stream_entries st). se_cursor e < - 1"
    and "stream_entries st \<noteq> []" and "1 < rb_cap (bs_buf st)"
    and "live_open max_cap st = Inr lc0" and "(live_step max_cap predicate min_interval max_interval set_cursor ord)\<^sup>*\<^sup>* lc0 lc"
    and "\<not> lv_done lc" and "\<not> lv_missed lc"
  shows "(\<forall>e \<in> set (stream_entries (lv_stream lc)). se_cursor (last (stream_entries st)) < se_cursor e \<longrightarrow> passes predicate (se_val e) \<longrightarrow>
          se_val e \<in> set (concat (ws_sent (live_target lc))) \<or> e \<in> set (behind predicate (lv_stream lc) (live_target lc)))
    \<and> (behind predicate (lv_stream lc) (live_target lc) \<noteq> [] \<longrightarrow> live_pending lc)
    \<and> (length (behind predicate (lv_stream lc) (live_target lc)) \<le> 1000 \<longrightarrow>
       (\<exists>lc'. (live_inner max_cap predicate min_interval max_interval)\<^sup>*\<^sup>* lc lc' \<and> lv_stream lc' = lv_stream lc
         \<and> behind predicate (lv_stream lc) (lv_client lc') = []
         \<and> concat (ws_sent (lv_client lc'))
             = concat (ws_sent (live_target lc)) @ map se_val (behind predicate (lv_stream lc) (live_target lc))))"
proof -
  have inv0: "live_inv predicate lc0" using live_open_inv [OF assms(1) _ assms(3,6)] assms(2) by simp
  then have inv: "live_inv predicate lc" by (rule live_steps_inv [OF assms(7) _ assms(2)])
  have "live_covered predicate (se_cursor (last (stream_entries st))) lc0"
    using live_open_covered [OF assms(1) _ assms(3-6)] assms(2) by simp
  then have "live_covered predicate (se_cursor (last (stream_entries st))) lc"
    by (rule live_steps_covered [OF assms(7) inv0 assms(2)])
  then show ?thesis using live_catches_up [OF inv assms(2,8,9)] inv assms(8,9)
    unfolding live_inv_def live_covered_def live_covers_def by blast
qed

subsection \<open>The signal that is lost\<close>

definition live_quiet :: "('a, 'l) live \<Rightarrow> bool" where
  "live_quiet lc \<longleftrightarrow> lv_handler lc \<in> {WSelect, WClosed} \<and> lv_debouncer lc \<in> {DResume, DSelect, DStop} \<and> lv_timers lc = new_debounce"

lemma live_quiet_inner:
  "live_inner max_cap predicate mi ma lc lc' \<Longrightarrow> live_quiet lc \<Longrightarrow> live_quiet lc' \<and> lv_client lc' = lv_client lc \<and> lv_stream lc' = lv_stream lc"
  by (cases rule: live_innerE [of max_cap predicate mi ma lc lc']) (auto simp: live_quiet_def)

lemma live_quiet_inners:
  "live_inners max_cap predicate mi ma lc lc' \<Longrightarrow> live_quiet lc \<Longrightarrow> live_quiet lc' \<and> lv_client lc' = lv_client lc \<and> lv_stream lc' = lv_stream lc"
  by (induction rule: rtranclp_induct) (auto dest: live_quiet_inner)

text \<open>C37: An entry appended after the debouncer has handed over an update and before it is back at its \<open>select\<close>, while
  the handler has already answered that update and waits for the next, is announced to nobody: nothing is
  pending, and whatever handler and debouncer do, the entry is not sent until another entry is appended. (Had the
  handler yet to query, the query would find the entry.)\<close>

theorem live_signal_lost:
  assumes "rb_inv (bs_buf (lv_stream lc))" and "lv_handler lc = WSelect" and "lv_debouncer lc = DResume" and "lv_timers lc = new_debounce"
    and "ws_cursor (lv_client lc) < make_cursor millis (bs_index (lv_stream lc))"
    and "passes predicate (set_cursor (make_cursor millis (bs_index (lv_stream lc))) v)"
    and "0 < rb_cap (bs_buf (lv_stream lc))"
  shows "\<exists>lc1. live_append set_cursor ord millis v lc = Inr lc1 \<and> behind predicate (lv_stream lc1) (lv_client lc1) \<noteq> []
    \<and> (\<forall>lc2. (live_inner max_cap predicate min_interval max_interval)\<^sup>*\<^sup>* lc1 lc2 \<longrightarrow>
          \<not> live_pending lc2 \<and> lv_client lc2 = lv_client lc \<and> lv_stream lc2 = lv_stream lc1)"
proof -
  let ?c = "make_cursor millis (bs_index (lv_stream lc))"
  from stream_append_ok [OF assms(1), of set_cursor ord millis v] obtain st calls where
    st: "stream_append set_cursor ord millis (lv_stream lc) v = Inr (st, calls)"
      "stream_entries st = last_n (nat (rb_cap (bs_buf (lv_stream lc)))) (stream_entries (lv_stream lc) @ [\<lparr>se_cursor = ?c, se_val = set_cursor ?c v\<rparr>])"
    by blast
  define lc1 where "lc1 = live_signal (lc\<lparr>lv_stream := st\<rparr>)"
  have run: "live_append set_cursor ord millis v lc = Inr lc1" by (simp add: live_append_def st(1) lc1_def)
  have "\<lparr>se_cursor = ?c, se_val = set_cursor ?c v\<rparr> \<in> set (stream_entries st)"
    using assms(7) by (simp add: st(2) last_n_def)
  then have "behind predicate st (lv_client lc) \<noteq> []"
    using assms(5,6) by (force simp: behind_def filter_empty_conv)
  moreover have "live_quiet lc1" using assms(2-4) by (simp add: lc1_def live_quiet_def live_signal_pc)
  moreover have "\<not> live_pending l" if "live_quiet l" for l :: "('a, 'b) live"
    using that by (auto simp: live_quiet_def live_pending_def)
  ultimately show ?thesis using run live_quiet_inners [of max_cap predicate min_interval max_interval lc1]
    by (intro exI [of _ lc1]) (auto simp: lc1_def)
qed

definition live_sample :: "(nat, nat) live" where
  "live_sample = \<lparr>lv_stream = shorter_stream, lv_done = False, lv_handler = WConnected, lv_client = \<lparr>ws_cursor = 20, ws_sent = []\<rparr>,
     lv_debouncer = DStart, lv_timers = new_debounce, lv_missed = False\<rparr>"

lemma live_sample_open: "live_open 1000 shorter_stream = Inr live_sample"
  using ws_open_cursor [OF shorter_stream_inv, of 1000] by (simp add: live_open_def shorter_stream_entries live_sample_def)

abbreviation sample_live_steps :: "(nat, nat) live \<Rightarrow> (nat, nat) live \<Rightarrow> bool" where
  "sample_live_steps \<equiv> (live_step 1000 None 500 2000 (\<lambda>c v. v) rev)\<^sup>*\<^sup>*"

lemma sample_live_snoc:
  "sample_live_steps a b \<Longrightarrow> live_step 1000 None 500 2000 (\<lambda>c v. v) rev b c \<Longrightarrow> sample_live_steps a c"
  by (rule rtranclp.rtrancl_into_rtrancl)

lemma sample_cursor: "make_cursor 1 2 = 2 ^ 32 + 2"
  by (simp add: make_cursor_def)

text \<open>The sample connection, once it listens, is told about the entry 3.\<close>

lemma live_sample_told:
  obtains st where "stream_inv st" and "rb_inv (bs_buf st)" and "rb_cap (bs_buf st) = 3" and "bs_index st = 3"
    and "stream_entries st = [\<lparr>se_cursor = 10, se_val = 1\<rparr>, \<lparr>se_cursor = 20, se_val = 2\<rparr>, \<lparr>se_cursor = 2 ^ 32 + 2, se_val = 3\<rparr>]"
    and "sample_live_steps live_sample (live_sample\<lparr>lv_debouncer := DArm, lv_handler := WSelect, lv_stream := st\<rparr>)"
proof -
  have inv: "rb_inv (bs_buf shorter_stream)" using shorter_stream_inv by (simp add: stream_inv_def)
  have cap: "rb_cap (bs_buf shorter_stream) = 3" "bs_index shorter_stream = 2" by (simp_all add: shorter_stream_def rb_cap_def)
  obtain st calls where st: "stream_append (\<lambda>c v. v) rev 1 shorter_stream 3 = Inr (st, calls)" "rb_inv (bs_buf st)" "rb_cap (bs_buf st) = 3"
      "bs_index st = 3"
      "stream_entries st = [\<lparr>se_cursor = 10, se_val = 1\<rparr>, \<lparr>se_cursor = 20, se_val = 2\<rparr>, \<lparr>se_cursor = 2 ^ 32 + 2, se_val = 3\<rparr>]"
    using stream_append_ok [OF inv, of "\<lambda>c v. v" rev 1 3] by (auto simp: cap sample_cursor shorter_stream_entries last_n_def)
  have st_inv: "stream_inv st" using st(2) by (simp add: stream_inv_def st(5) entries_sorted_def)
  let ?l1 = "live_sample\<lparr>lv_debouncer := DSelect\<rparr>"
  let ?l2 = "?l1\<lparr>lv_handler := WSelect\<rparr>"
  let ?l3 = "live_signal (?l2\<lparr>lv_stream := st\<rparr>)"
  note step = live_step.inner [where set_cursor = "\<lambda>c v. v" and ord = rev]
  have 1: "live_step 1000 None 500 2000 (\<lambda>c v. v) rev live_sample ?l1"
    by (rule step [OF live_inner.start]) (simp add: live_sample_def)
  have 2: "live_step 1000 None 500 2000 (\<lambda>c v. v) rev ?l1 ?l2"
    by (rule step [OF live_inner.listen]) (simp add: live_sample_def)
  have 3: "live_step 1000 None 500 2000 (\<lambda>c v. v) rev ?l2 ?l3"
    by (rule live_step.append [where millis = 1 and v = 3]) (simp_all add: live_append_def live_sample_def st(1) st_inv)
  have "?l3 = live_sample\<lparr>lv_debouncer := DArm, lv_handler := WSelect, lv_stream := st\<rparr>"
    by (simp add: live_signal_def live_sample_def)
  moreover have "sample_live_steps live_sample ?l3"
    by (rule sample_live_snoc [OF sample_live_snoc [OF sample_live_snoc [OF rtranclp.rtrancl_refl 1] 2] 3])
  ultimately have "sample_live_steps live_sample (live_sample\<lparr>lv_debouncer := DArm, lv_handler := WSelect, lv_stream := st\<rparr>)" by simp
  with st(2-5) st_inv show ?thesis by (intro that)
qed

theorem live_entries_arrive_witness:
  "\<exists>lc lc'. sample_live_steps live_sample lc \<and> live_pending lc
     \<and> (live_inner 1000 None 500 2000)\<^sup>*\<^sup>* lc lc' \<and> concat (ws_sent (lv_client lc')) = [3]"
proof -
  obtain st where st: "stream_entries st = [\<lparr>se_cursor = 10, se_val = 1\<rparr>, \<lparr>se_cursor = 20, se_val = 2\<rparr>, \<lparr>se_cursor = 2 ^ 32 + 2, se_val = 3\<rparr>]"
    "sample_live_steps live_sample (live_sample\<lparr>lv_debouncer := DArm, lv_handler := WSelect, lv_stream := st\<rparr>)"
    by (rule live_sample_told)
  let ?lc = "live_sample\<lparr>lv_debouncer := DArm, lv_handler := WSelect, lv_stream := st\<rparr>"
  have cursors: "\<forall>e \<in> set (stream_entries shorter_stream). se_cursor e < - 1" by (simp add: shorter_stream_entries)
  have target: "live_target ?lc = \<lparr>ws_cursor = 20, ws_sent = []\<rparr>" "lv_stream ?lc = st"
    by (simp_all add: live_target_def live_sample_def)
  have b: "behind None st \<lparr>ws_cursor = 20, ws_sent = []\<rparr> = [\<lparr>se_cursor = 2 ^ 32 + 2, se_val = 3\<rparr>]"
    by (simp add: behind_def st(1) passes_def)
  have "\<not> lv_done ?lc" "\<not> lv_missed ?lc" by (simp_all add: live_sample_def)
  moreover have "stream_entries shorter_stream \<noteq> []" "1 < rb_cap (bs_buf shorter_stream)"
    by (simp add: shorter_stream_entries) (simp add: shorter_stream_def rb_cap_def)
  ultimately have "(behind None st \<lparr>ws_cursor = 20, ws_sent = []\<rparr> \<noteq> [] \<longrightarrow> live_pending ?lc)
    \<and> (\<exists>lc'. (live_inner 1000 None 500 2000)\<^sup>*\<^sup>* ?lc lc' \<and> concat (ws_sent (lv_client lc')) = [3])"
    using live_entries_arrive [OF shorter_stream_inv _ cursors _ _ live_sample_open st(2), unfolded target b] by auto
  then
  show ?thesis using st(2) b by auto
qed

theorem live_signal_lost_witness:
  "\<exists>lc lc1. sample_live_steps live_sample lc \<and> live_append (\<lambda>c v. v) rev 2 4 lc = Inr lc1
     \<and> concat (ws_sent (lv_client lc1)) = [3] \<and> behind None (lv_stream lc1) (lv_client lc1) \<noteq> []
     \<and> (\<forall>lc2. (live_inner 1000 None 500 2000)\<^sup>*\<^sup>* lc1 lc2 \<longrightarrow> concat (ws_sent (lv_client lc2)) = [3])"
proof -
  obtain st where st: "stream_inv st" "rb_inv (bs_buf st)" "rb_cap (bs_buf st) = 3" "bs_index st = 3"
    "stream_entries st = [\<lparr>se_cursor = 10, se_val = 1\<rparr>, \<lparr>se_cursor = 20, se_val = 2\<rparr>, \<lparr>se_cursor = 2 ^ 32 + 2, se_val = 3\<rparr>]"
    "sample_live_steps live_sample (live_sample\<lparr>lv_debouncer := DArm, lv_handler := WSelect, lv_stream := st\<rparr>)"
    by (rule live_sample_told)
  let ?l0 = "live_sample\<lparr>lv_debouncer := DArm, lv_handler := WSelect, lv_stream := st\<rparr>"
  let ?l1 = "?l0\<lparr>lv_debouncer := DSelect, lv_timers := db_signal 500 2000 0 (lv_timers ?l0)\<rparr>"
  let ?l2 = "?l1\<lparr>lv_debouncer := DSend, lv_timers := db_send_update (lv_timers ?l1)\<rparr>"
  let ?l3 = "?l2\<lparr>lv_debouncer := DResume, lv_handler := WQuery\<rparr>"
  let ?c = "\<lparr>ws_cursor = 2 ^ 32 + 2, ws_sent = [[3]]\<rparr>"
  let ?l4 = "?l3\<lparr>lv_handler := WWrite ?c, lv_missed := behind None (lv_stream ?l3) (lv_client ?l3) \<noteq> [] \<and> (\<not> True \<or> 1000 < length (behind None (lv_stream ?l3) (lv_client ?l3)))\<rparr>"
  let ?l5 = "?l4\<lparr>lv_handler := WSelect, lv_client := ?c\<rparr>"
  let ?R = "live_step 1000 None 500 2000 (\<lambda>c v. v) rev"
  note step = live_step.inner [where set_cursor = "\<lambda>c v. v" and ord = rev]
  have 1: "?R ?l0 ?l1" by (rule step [OF live_inner.arm]) simp
  have 2: "?R ?l1 ?l2" by (rule step [OF live_inner.fire]) simp_all
  have 3: "?R ?l2 ?l3" by (rule step [OF live_inner.update]) simp_all
  have sel: "lv_stream ?l3 = st" "lv_client ?l3 = \<lparr>ws_cursor = 20, ws_sent = []\<rparr>" by (simp_all add: live_sample_def)
  have b: "behind None st \<lparr>ws_cursor = 20, ws_sent = []\<rparr> = [\<lparr>se_cursor = 2 ^ 32 + 2, se_val = 3\<rparr>]"
    by (simp add: behind_def st(5) passes_def)
  have "stream_query 1000 st 20 1000 None = Inr (page_of 20 1000 [\<lparr>se_cursor = 2 ^ 32 + 2, se_val = 3\<rparr>])"
    using query_forward_page [OF st(1), of 1000 1000 20 None] b by (simp add: behind_def)
  then have "ws_update 1000 None (lv_client ?l3) (lv_stream ?l3, True) = Inr ?c"
    unfolding sel by (simp add: ws_update_def page_of_def)
  then have 4: "?R ?l3 ?l4" by (intro step live_inner.query [OF _ _ refl]) simp_all
  have 5: "?R ?l4 ?l5" by (rule step [OF live_inner.sent]) simp
  have reach: "sample_live_steps live_sample ?l5"
    by (rule sample_live_snoc [OF sample_live_snoc [OF sample_live_snoc [OF sample_live_snoc [OF sample_live_snoc [OF st(6) 1] 2] 3] 4] 5])
  have lc: "rb_inv (bs_buf (lv_stream ?l5))" "lv_handler ?l5 = WSelect" "lv_debouncer ?l5 = DResume" "lv_timers ?l5 = new_debounce"
    "ws_cursor (lv_client ?l5) < make_cursor 2 (bs_index (lv_stream ?l5))"
    "passes None ((\<lambda>c v. v) (make_cursor 2 (bs_index (lv_stream ?l5))) (4::nat))" "0 < rb_cap (bs_buf (lv_stream ?l5))"
    using st(2-4) by (simp_all add: make_cursor_def passes_def)
  obtain l5 where l5: "sample_live_steps live_sample l5" "lv_client l5 = ?c" and
    lost: "\<exists>lc1. live_append (\<lambda>c v. v) rev 2 4 l5 = Inr lc1 \<and> behind None (lv_stream lc1) (lv_client lc1) \<noteq> []
      \<and> (\<forall>lc2. (live_inner 1000 None 500 2000)\<^sup>*\<^sup>* lc1 lc2 \<longrightarrow>
          \<not> live_pending lc2 \<and> lv_client lc2 = lv_client l5 \<and> lv_stream lc2 = lv_stream lc1)"
    by (rule that [OF reach _ live_signal_lost [where set_cursor = "\<lambda>c v. v", OF lc]]) simp
  from lost obtain lc1 where
    r: "live_append (\<lambda>c v. v) rev 2 4 l5 = Inr lc1" "behind None (lv_stream lc1) (lv_client lc1) \<noteq> []"
      "\<And>lc2. (live_inner 1000 None 500 2000)\<^sup>*\<^sup>* lc1 lc2 \<Longrightarrow> lv_client lc2 = ?c"
    unfolding l5(2) by blast
  have "lv_client lc1 = ?c" using r(3) by blast
  with r l5(1) show ?thesis by (intro exI [of _ l5] exI [of _ lc1]) simp
qed

end
