(* ===== verification/Inflight.thy ===== *)
theory Inflight
  imports DNSMsg
begin

text \<open>
  The merging of concurrent calls, \<open>singleInflightResolver\<close> of \<open>dns-server/internal/dns_resolver.go\<close>: one thread
  per call, with a program counter between the places where it blocks or holds the mutex, and a step relation
  over all of them. The map is from questions to the addresses of the requests in flight. The lemmas
  show its invariant, the properties that no waiter is forgotten, that one call per question asks
  upstream, and where each answer comes from.
\<close>

subsection \<open>State\<close>

text \<open>
  A request in flight is the address of an \<open>inflightRequest\<close>: an index into \<open>si_flights\<close>, whose entry is
  \<open>None\<close> until \<open>Done\<close> is closed and then what \<open>Resp\<close> and \<open>Err\<close> hold. \<open>si_upstream\<close> only records what
  the resolver below has answered.
\<close>

datatype thread_pc =
    Idle
  | Waiting dns_msg nat
  | Retrying dns_msg
  | Leading dns_msg nat
  | Resolved dns_msg nat
  | Direct dns_msg
  | Panicked dns_msg nat
  | Returned dns_msg "string + dns_msg"

record inflight =
  si_requests :: "question \<Rightarrow> nat option"
  si_flights :: "(string + dns_msg) option list"
  si_pc :: "nat \<Rightarrow> thread_pc"
  si_upstream :: "(dns_msg \<times> (string + dns_msg)) list"

definition new_single_inflight :: inflight where
  "new_single_inflight = \<lparr>si_requests = \<lambda>q. None, si_flights = [], si_pc = \<lambda>t. Idle, si_upstream = []\<rparr>"

definition req_key :: "dns_msg \<Rightarrow> question" where
  "req_key msg = msg_question msg ! 0"

definition goto :: "nat \<Rightarrow> thread_pc \<Rightarrow> inflight \<Rightarrow> inflight" where
  "goto t pc s = s\<lparr>si_pc := (si_pc s)(t := pc)\<rparr>"

subsection \<open>Resolve, one critical section at a time\<close>

text \<open>The allocation of a request and its entry in the map, with the lock held.\<close>

definition sf_register :: "nat \<Rightarrow> dns_msg \<Rightarrow> inflight \<Rightarrow> inflight" where
  "sf_register t msg s =
     (let req = length (si_flights s) in
      goto t (Leading msg req)
        (s\<lparr>si_flights := si_flights s @ [None], si_requests := (si_requests s)(req_key msg := Some req)\<rparr>))"

definition sf_begin :: "nat \<Rightarrow> dns_msg \<Rightarrow> inflight \<Rightarrow> inflight" where
  "sf_begin t msg s =
     (if \<not> has_single_question msg [] then goto t (Direct msg) s
      else case si_requests s (req_key msg) of
             Some req \<Rightarrow> goto t (Waiting msg req) s
           | None \<Rightarrow> sf_register t msg s)"

definition follower_answer :: "dns_msg \<Rightarrow> dns_msg \<Rightarrow> dns_msg" where
  "follower_answer msg resp = msg\<lparr>msg_response := True, msg_answer := msg_answer resp\<rparr>"

text \<open>A waiter finds \<open>Done\<close> closed: it copies the answer, or goes on to send a request of its own.\<close>

definition sf_wake :: "nat \<Rightarrow> dns_msg \<Rightarrow> string + dns_msg \<Rightarrow> inflight \<Rightarrow> inflight" where
  "sf_wake t msg res s =
     (case res of
        Inr resp \<Rightarrow> goto t (Returned msg (Inr (follower_answer msg resp))) s
      | Inl err \<Rightarrow> goto t (Retrying msg) s)"

text \<open>The resolver below has answered: the result is stored and \<open>Done\<close> closed.\<close>

definition sf_done :: "nat \<Rightarrow> dns_msg \<Rightarrow> nat \<Rightarrow> string + dns_msg \<Rightarrow> inflight \<Rightarrow> inflight" where
  "sf_done t msg req res s =
     goto t (Resolved msg req)
       (s\<lparr>si_flights := (si_flights s)[req := Some res], si_upstream := si_upstream s @ [(msg, res)]\<rparr>)"

text \<open>The leader takes its own entry out of the map and returns.\<close>

definition sf_finish :: "nat \<Rightarrow> dns_msg \<Rightarrow> nat \<Rightarrow> string + dns_msg \<Rightarrow> inflight \<Rightarrow> inflight" where
  "sf_finish t msg req res s =
     goto t (Returned msg res)
       (if si_requests s (req_key msg) = Some req then s\<lparr>si_requests := (si_requests s)(req_key msg := None)\<rparr> else s)"

definition sf_direct :: "nat \<Rightarrow> dns_msg \<Rightarrow> string + dns_msg \<Rightarrow> inflight \<Rightarrow> inflight" where
  "sf_direct t msg res s = goto t (Returned msg res) (s\<lparr>si_upstream := si_upstream s @ [(msg, res)]\<rparr>)"

text \<open>
  The steps of concurrent calls. The mutex is held over each of \<open>sf_begin\<close>, \<open>sf_register\<close> and
  \<open>sf_finish\<close>, which do not block, so each is atomic. The resolver below may answer anything, at any
  time, or panic (\<open>net/http\<close> recovers a panicking handler and the process goes on).
\<close>

inductive sf_step :: "inflight \<Rightarrow> inflight \<Rightarrow> bool" where
  call: "si_pc s t = Idle \<Longrightarrow> sf_step s (sf_begin t msg s)"
| direct: "si_pc s t = Direct msg \<Longrightarrow> sf_step s (sf_direct t msg res s)"
| cancel: "si_pc s t = Waiting msg req \<Longrightarrow> sf_step s (goto t (Returned msg (Inl ctx_err)) s)"
| wake: "si_pc s t = Waiting msg req \<Longrightarrow> si_flights s ! req = Some res \<Longrightarrow> sf_step s (sf_wake t msg res s)"
| retry: "si_pc s t = Retrying msg \<Longrightarrow> sf_step s (sf_register t msg s)"
| upstream: "si_pc s t = Leading msg req \<Longrightarrow> sf_step s (sf_done t msg req res s)"
| upstream_panic: "si_pc s t = Leading msg req \<Longrightarrow> sf_step s (goto t (Panicked msg req) s)"
| finish: "si_pc s t = Resolved msg req \<Longrightarrow> si_flights s ! req = Some res \<Longrightarrow> sf_step s (sf_finish t msg req res s)"

inductive_cases sf_stepE [consumes 1, case_names call direct cancel wake retry upstream upstream_panic finish]:
  "sf_step s s'"

abbreviation sf_reach :: "inflight \<Rightarrow> bool" where
  "sf_reach s \<equiv> sf_step\<^sup>*\<^sup>* new_single_inflight s"

subsection \<open>The invariant\<close>

text \<open>\<open>holds s t msg req\<close>: thread \<open>t\<close> allocated the request \<open>req\<close> and has not returned.\<close>

definition holds :: "inflight \<Rightarrow> nat \<Rightarrow> dns_msg \<Rightarrow> nat \<Rightarrow> bool" where
  "holds s t msg req \<longleftrightarrow> si_pc s t = Leading msg req \<or> si_pc s t = Resolved msg req \<or> si_pc s t = Panicked msg req"

fun pc_single :: "thread_pc \<Rightarrow> bool" where
  "pc_single (Waiting m r) = has_single_question m []"
| "pc_single (Retrying m) = has_single_question m []"
| "pc_single (Leading m r) = has_single_question m []"
| "pc_single (Resolved m r) = has_single_question m []"
| "pc_single (Panicked m r) = has_single_question m []"
| "pc_single _ = True"

definition flights_inv :: "inflight \<Rightarrow> bool" where
  "flights_inv s \<longleftrightarrow>
     (\<forall>t. pc_single (si_pc s t))
   \<and> (\<forall>q req. si_requests s q = Some req \<longrightarrow> (\<exists>t m. holds s t m req \<and> req_key m = q))
   \<and> (\<forall>t m req. holds s t m req \<longrightarrow> req < length (si_flights s) \<and> (\<forall>t' m'. holds s t' m' req \<longrightarrow> t' = t)
        \<and> (si_flights s ! req = None \<longleftrightarrow> (\<forall>m'. si_pc s t \<noteq> Resolved m' req)))
   \<and> (\<forall>t m req. si_pc s t = Waiting m req \<longrightarrow> req < length (si_flights s)
        \<and> (si_flights s ! req = None \<longrightarrow> (\<exists>t' m'. holds s t' m' req)))"

lemma flights_invD:
  assumes "flights_inv s"
  shows "pc_single (si_pc s t)"
    and "si_requests s q = Some req \<Longrightarrow> \<exists>t m. holds s t m req \<and> req_key m = q"
    and "holds s t m req \<Longrightarrow> req < length (si_flights s)"
    and "holds s t m req \<Longrightarrow> holds s t' m' req \<Longrightarrow> t' = t"
    and "holds s t m req \<Longrightarrow> si_flights s ! req = None \<longleftrightarrow> (\<forall>m'. si_pc s t \<noteq> Resolved m' req)"
    and "si_pc s t = Waiting m req \<Longrightarrow> req < length (si_flights s)"
    and "si_pc s t = Waiting m req \<Longrightarrow> si_flights s ! req = None \<Longrightarrow> \<exists>t' m'. holds s t' m' req"
  using assms unfolding flights_inv_def by blast+

lemma flights_inv_new: "flights_inv new_single_inflight"
  by (simp add: flights_inv_def new_single_inflight_def holds_def)

lemma goto_sel [simp]:
  "si_pc (goto t pc s) = (si_pc s)(t := pc)" "si_requests (goto t pc s) = si_requests s"
  "si_flights (goto t pc s) = si_flights s" "si_upstream (goto t pc s) = si_upstream s"
  by (simp_all add: goto_def)

text \<open>A thread that holds no request may go anywhere it waits for one that is in the map, or leaves.\<close>

fun pc_idle :: "thread_pc \<Rightarrow> bool" where
  "pc_idle (Leading m r) = False"
| "pc_idle (Resolved m r) = False"
| "pc_idle (Panicked m r) = False"
| "pc_idle _ = True"

lemma holds_goto_idle:
  "pc_idle (si_pc s t) \<Longrightarrow> pc_idle pc \<Longrightarrow> holds (goto t pc s) = holds s"
  by (rule ext)+ (auto simp: holds_def)

lemma flights_goto_idle:
  assumes "flights_inv s" and "pc_idle (si_pc s t)" and "pc_idle pc" and "pc_single pc"
    and "\<forall>m req. pc = Waiting m req \<longrightarrow> req < length (si_flights s) \<and> (si_flights s ! req = None \<longrightarrow> (\<exists>t' m'. holds s t' m' req))"
  shows "flights_inv (goto t pc s)"
  using assms(1,4,5) holds_goto_idle [OF assms(2,3)] assms(2,3)
  unfolding flights_inv_def by (auto simp: holds_def)

lemma flights_register:
  assumes inv: "flights_inv s" and "pc_idle (si_pc s t)" and "has_single_question msg []"
  shows "flights_inv (sf_register t msg s)"
proof -
  let ?s = "sf_register t msg s" and ?n = "length (si_flights s)"
  have h: "holds ?s t' m' r \<longleftrightarrow> (if t' = t then m' = msg \<and> r = ?n else holds s t' m' r)" for t' m' r
    by (auto simp: sf_register_def holds_def Let_def)
  have idle: "\<not> holds s t m' r" for m' r using assms(2) by (auto simp: holds_def)
  have lt: "r < ?n" if "holds s t' m' r" for t' m' r using flights_invD(3) [OF inv that] .
  have req: "si_requests ?s = (si_requests s)(req_key msg := Some ?n)" "si_flights ?s = si_flights s @ [None]"
    "si_pc ?s = (si_pc s)(t := Leading msg ?n)"
    by (simp_all add: sf_register_def Let_def)
  show ?thesis
    unfolding flights_inv_def
  proof (intro conjI allI impI)
    show "pc_single (si_pc ?s t')" for t' using flights_invD(1) [OF inv] assms(3) by (simp add: req)
  next
    fix q r assume "si_requests ?s q = Some r"
    then consider "q = req_key msg" "r = ?n" | "q \<noteq> req_key msg" "si_requests s q = Some r"
      by (auto simp: req split: if_splits)
    then show "\<exists>t' m'. holds ?s t' m' r \<and> req_key m' = q"
    proof cases
      case 1
      then show ?thesis using h by auto
    next
      case 2
      from flights_invD(2) [OF inv 2(2)] obtain t' m' where "holds s t' m' r" "req_key m' = q" by blast
      moreover from this idle have "t' \<noteq> t" by blast
      ultimately show ?thesis using h by auto
    qed
  next
    fix t' m' r assume H: "holds ?s t' m' r"
    show "r < length (si_flights ?s)" using H h lt by (auto simp: req split: if_splits intro: less_SucI)
    show "t'' = t'" if "holds ?s t'' m'' r" for t'' m''
    proof -
      have "\<not> holds s t'' m'' ?n" for t'' m'' using lt by blast
      then show ?thesis using H that flights_invD(4) [OF inv] unfolding h by (metis (full_types))
    qed
    show "si_flights ?s ! r = None \<longleftrightarrow> (\<forall>m'. si_pc ?s t' \<noteq> Resolved m' r)"
      using H h lt flights_invD(5) [OF inv] by (auto simp: req nth_append split: if_splits)
  next
    fix t' m' r assume W: "si_pc ?s t' = Waiting m' r"
    then have W: "t' \<noteq> t" "si_pc s t' = Waiting m' r" by (auto simp: req split: if_splits)
    note r = flights_invD(6) [OF inv W(2)]
    then show "r < length (si_flights ?s)" by (simp add: req)
    assume "si_flights ?s ! r = None"
    with r have "si_flights s ! r = None" by (simp add: req nth_append)
    from flights_invD(7) [OF inv W(2) this] obtain t2 m2 where "holds s t2 m2 r" by blast
    moreover from this idle have "t2 \<noteq> t" by blast
    ultimately show "\<exists>t' m'. holds ?s t' m' r" using h by auto
  qed
qed

lemma flights_begin:
  assumes "flights_inv s" and "si_pc s t = Idle"
  shows "flights_inv (sf_begin t msg s)"
proof -
  have idle: "pc_idle (si_pc s t)" using assms(2) by simp
  show ?thesis
  proof (cases "has_single_question msg []")
    case False
    with assms(1) idle show ?thesis by (auto simp: sf_begin_def intro: flights_goto_idle)
  next
    case True
    show ?thesis
    proof (cases "si_requests s (req_key msg)")
      case None
      with True assms(1) idle show ?thesis by (simp add: sf_begin_def flights_register)
    next
      case (Some r)
      with flights_invD(2) [OF assms(1) Some] flights_invD(3) [OF assms(1)] True assms(1) idle
      show ?thesis by (auto simp: sf_begin_def intro!: flights_goto_idle)
    qed
  qed
qed

lemma flights_leader:
  assumes inv: "flights_inv s" and lead: "si_pc s t = Leading msg req"
    and s': "si_requests s' = si_requests s" "si_pc s' = (si_pc s)(t := pc)"
    and pc: "pc = Resolved msg req \<and> (\<exists>res. si_flights s' = (si_flights s)[req := Some res])
              \<or> pc = Panicked msg req \<and> si_flights s' = si_flights s"
  shows "flights_inv s'"
proof -
  have h: "holds s' = holds s" using lead s' pc by (intro ext) (auto simp: holds_def)
  have ht: "holds s t msg req" using lead by (simp add: holds_def)
  have len: "length (si_flights s') = length (si_flights s)" using pc by auto
  have none: "si_flights s ! req = None" using flights_invD(5) [OF inv ht] lead by simp
  show ?thesis
    unfolding flights_inv_def h s'(1) len
  proof (intro conjI allI impI)
    show "pc_single (si_pc s' t')" for t' using flights_invD(1) [OF inv, of t'] flights_invD(1) [OF inv, of t] lead pc by (auto simp: s')
  next
    show "\<exists>t m. holds s t m r \<and> req_key m = q" if "si_requests s q = Some r" for q r
      using flights_invD(2) [OF inv that] .
  next
    fix t' m' r assume H: "holds s t' m' r"
    show "r < length (si_flights s)" using flights_invD(3) [OF inv H] .
    show "t'' = t'" if "holds s t'' m'' r" for t'' m'' using flights_invD(4) [OF inv H that] .
    show "si_flights s' ! r = None \<longleftrightarrow> (\<forall>m'. si_pc s' t' \<noteq> Resolved m' r)"
    proof (cases "t' = t")
      case True
      then have "r = req" using H lead by (auto simp: holds_def)
      with True pc none flights_invD(3) [OF inv ht] show ?thesis by (auto simp: s')
    next
      case False
      then have "r \<noteq> req" using flights_invD(4) [OF inv ht] H by blast
      with False pc flights_invD(5) [OF inv H] show ?thesis by (auto simp: s')
    qed
  next
    fix t' m' r assume "si_pc s' t' = Waiting m' r"
    then have W: "si_pc s t' = Waiting m' r" using pc by (auto simp: s' split: if_splits)
    show "r < length (si_flights s)" using flights_invD(6) [OF inv W] .
    assume "si_flights s' ! r = None"
    then have "si_flights s ! r = None" using pc flights_invD(6) [OF inv W] by (cases "r = req") auto
    then show "\<exists>t' m'. holds s t' m' r" using flights_invD(7) [OF inv W] by blast
  qed
qed

lemma flights_finish:
  assumes inv: "flights_inv s" and pc: "si_pc s t = Resolved msg req" and "si_flights s ! req = Some res"
  shows "flights_inv (sf_finish t msg req res s)"
proof -
  let ?s = "sf_finish t msg req res s"
  have h: "holds ?s t' m' r \<longleftrightarrow> t' \<noteq> t \<and> holds s t' m' r" for t' m' r
    by (auto simp: sf_finish_def holds_def)
  have ht: "holds s t msg req" using pc by (simp add: holds_def)
  have f: "si_flights ?s = si_flights s" "si_pc ?s = (si_pc s)(t := Returned msg res)" by (simp_all add: sf_finish_def)
  have rq: "si_requests ?s q = Some r \<Longrightarrow> si_requests s q = Some r \<and> (q, r) \<noteq> (req_key msg, req)" for q r
    by (auto simp: sf_finish_def split: if_splits)
  show ?thesis
    unfolding flights_inv_def f(1)
  proof (intro conjI allI impI)
    show "pc_single (si_pc ?s t')" for t' using flights_invD(1) [OF inv] by (simp add: f)
  next
    fix q r assume "si_requests ?s q = Some r"
    with rq have r: "si_requests s q = Some r" "(q, r) \<noteq> (req_key msg, req)" by blast+
    from flights_invD(2) [OF inv r(1)] obtain t' m' where H: "holds s t' m' r" "req_key m' = q" by blast
    have "t' \<noteq> t"
    proof
      assume "t' = t"
      then have "r = req" "m' = msg" using H(1) pc by (auto simp: holds_def)
      with r(2) H(2) show False by simp
    qed
    with H h show "\<exists>t' m'. holds ?s t' m' r \<and> req_key m' = q" by blast
  next
    fix t' m' r assume H: "holds ?s t' m' r"
    then have H': "t' \<noteq> t" "holds s t' m' r" using h by blast+
    show "r < length (si_flights s)" using flights_invD(3) [OF inv H'(2)] .
    show "t'' = t'" if "holds ?s t'' m'' r" for t'' m'' using that h flights_invD(4) [OF inv H'(2)] by blast
    show "si_flights s ! r = None \<longleftrightarrow> (\<forall>m'. si_pc ?s t' \<noteq> Resolved m' r)"
      using flights_invD(5) [OF inv H'(2)] H'(1) by (simp add: f)
  next
    fix t' m' r assume "si_pc ?s t' = Waiting m' r"
    then have W: "si_pc s t' = Waiting m' r" by (auto simp: f split: if_splits)
    show "r < length (si_flights s)" using flights_invD(6) [OF inv W] .
    assume none: "si_flights s ! r = None"
    from flights_invD(7) [OF inv W none] obtain t2 m2 where H: "holds s t2 m2 r" by blast
    have "t2 \<noteq> t" using H pc none assms(3) by (auto simp: holds_def)
    with H h show "\<exists>t' m'. holds ?s t' m' r" by blast
  qed
qed

lemma flights_step:
  assumes "sf_step s s'" and "flights_inv s"
  shows "flights_inv s'"
  using assms(1)
proof (cases rule: sf_stepE)
  case (call t msg)
  then show ?thesis using flights_begin assms(2) by simp
next
  case (direct t msg res)
  have "flights_inv (s\<lparr>si_upstream := si_upstream s @ [(msg, res)]\<rparr>)"
    using assms(2) by (simp add: flights_inv_def holds_def)
  then show ?thesis using direct by (simp add: sf_direct_def flights_goto_idle)
next
  case (cancel t msg req ctx_err)
  then show ?thesis using assms(2) by (simp add: flights_goto_idle)
next
  case (wake t msg req res)
  then show ?thesis using assms(2) flights_invD(1) [OF assms(2), of t]
    by (auto simp: sf_wake_def intro!: flights_goto_idle split: sum.splits)
next
  case (retry t msg)
  then show ?thesis using flights_register assms(2) flights_invD(1) [OF assms(2), of t] by simp
next
  case (upstream t msg req res)
  show ?thesis by (rule flights_leader [OF assms(2) upstream(2)]) (use upstream(1) in \<open>auto simp: sf_done_def\<close>)
next
  case (upstream_panic t msg req)
  show ?thesis by (rule flights_leader [OF assms(2) upstream_panic(2)]) (use upstream_panic(1) in auto)
next
  case (finish t msg req res)
  then show ?thesis using flights_finish assms(2) by simp
qed

lemma flights_reach: "sf_reach s \<Longrightarrow> flights_inv s"
  by (induction rule: rtranclp_induct) (auto simp: flights_inv_new intro: flights_step)

subsection \<open>What callers get\<close>

text \<open>\<open>answered log msg res\<close>: \<open>res\<close> is what the resolver below gave for this very message, or an answer
  to another message with the same question, copied for this one.\<close>

definition answered :: "(dns_msg \<times> (string + dns_msg)) list \<Rightarrow> dns_msg \<Rightarrow> dns_msg \<Rightarrow> bool" where
  "answered log msg resp \<longleftrightarrow> (msg, Inr resp) \<in> set log
     \<or> (\<exists>m r. (m, Inr r) \<in> set log \<and> msg_question m = msg_question msg \<and> resp = follower_answer msg r)"

definition answers_inv :: "inflight \<Rightarrow> bool" where
  "answers_inv s \<longleftrightarrow>
     (\<forall>t m req t' m'. si_pc s t = Waiting m req \<longrightarrow> holds s t' m' req \<longrightarrow> req_key m' = req_key m)
   \<and> (\<forall>req res. req < length (si_flights s) \<longrightarrow> si_flights s ! req = Some res \<longrightarrow>
        (\<exists>m'. (m', res) \<in> set (si_upstream s) \<and> has_single_question m' []
           \<and> (\<forall>t m. (si_pc s t = Waiting m req \<longrightarrow> req_key m' = req_key m) \<and> (si_pc s t = Resolved m req \<longrightarrow> m' = m))))
   \<and> (\<forall>t m resp. si_pc s t = Returned m (Inr resp) \<longrightarrow> answered (si_upstream s) m resp)"

lemma answers_invD:
  assumes "answers_inv s"
  shows "si_pc s t = Waiting m req \<Longrightarrow> holds s t' m' req \<Longrightarrow> req_key m' = req_key m"
    and "req < length (si_flights s) \<Longrightarrow> si_flights s ! req = Some res \<Longrightarrow>
      \<exists>m'. (m', res) \<in> set (si_upstream s) \<and> has_single_question m' []
         \<and> (\<forall>t m. (si_pc s t = Waiting m req \<longrightarrow> req_key m' = req_key m) \<and> (si_pc s t = Resolved m req \<longrightarrow> m' = m))"
    and "si_pc s t = Returned m (Inr resp) \<Longrightarrow> answered (si_upstream s) m resp"
  using assms unfolding answers_inv_def by blast+

lemma answers_inv_new: "answers_inv new_single_inflight"
  by (simp add: answers_inv_def new_single_inflight_def)

lemma single_question: "has_single_question m [] \<Longrightarrow> msg_question m = [req_key m]"
  by (auto elim: has_single_questionE simp: req_key_def)

lemma answered_mono: "answered log m r \<Longrightarrow> set log \<subseteq> set log' \<Longrightarrow> answered log' m r"
  unfolding answered_def by blast

lemma answers_goto_idle:
  assumes "answers_inv s" and "pc_idle (si_pc s t)" and "pc_idle pc"
    and "\<And>m req t' m'. pc = Waiting m req \<Longrightarrow> holds s t' m' req \<Longrightarrow> req_key m' = req_key m"
    and "\<And>m req. pc = Waiting m req \<Longrightarrow> si_flights s ! req = None \<or> si_pc s t = Waiting m req
           \<or> (\<exists>t' m'. si_pc s t' = Resolved m' req \<and> req_key m' = req_key m)"
    and "\<And>m resp. pc = Returned m (Inr resp) \<Longrightarrow> answered (si_upstream s) m resp"
  shows "answers_inv (goto t pc s)"
proof -
  note h = holds_goto_idle [OF assms(2,3)]
  have "\<exists>m'. (m', res) \<in> set (si_upstream s) \<and> has_single_question m' []
      \<and> (\<forall>t' m. (((si_pc s)(t := pc)) t' = Waiting m req \<longrightarrow> req_key m' = req_key m)
              \<and> (((si_pc s)(t := pc)) t' = Resolved m req \<longrightarrow> m' = m))"
    if "req < length (si_flights s)" "si_flights s ! req = Some res" for req res
  proof -
    from answers_invD(2) [OF assms(1) that] obtain m' where m': "(m', res) \<in> set (si_upstream s)" "has_single_question m' []"
      "\<And>t m. si_pc s t = Waiting m req \<Longrightarrow> req_key m' = req_key m" "\<And>t m. si_pc s t = Resolved m req \<Longrightarrow> m' = m" by blast
    have "req_key m' = req_key m" if "pc = Waiting m req" for m
      using assms(5) [OF that] m'(3,4) \<open>si_flights s ! req = Some res\<close> by fastforce
    moreover have "pc \<noteq> Resolved m req" for m using assms(3) by auto
    ultimately show ?thesis using m' by (intro exI [of _ m']) auto
  qed
  moreover have "req_key m' = req_key m" if "((si_pc s)(t := pc)) u = Waiting m req" "holds s t' m' req" for u m req t' m'
  proof (cases "u = t")
    case True
    with that(1) show ?thesis by (intro assms(4) [OF _ that(2)]) simp
  next
    case False
    with that(1) show ?thesis by (intro answers_invD(1) [OF assms(1) _ that(2)]) simp
  qed
  moreover have "answered (si_upstream s) m resp" if "((si_pc s)(t := pc)) u = Returned m (Inr resp)" for u m resp
    using that assms(6) answers_invD(3) [OF assms(1)] by (cases "u = t") simp_all
  ultimately show ?thesis
    unfolding answers_inv_def h goto_sel by blast
qed

lemma answers_log:
  assumes "answers_inv s"
  shows "answers_inv (s\<lparr>si_upstream := si_upstream s @ l\<rparr>)"
proof -
  have h: "holds (s\<lparr>si_upstream := si_upstream s @ l\<rparr>) = holds s" by (intro ext) (simp add: holds_def)
  have sub: "set (si_upstream s) \<subseteq> set (si_upstream s @ l)" by simp
  have "answered (si_upstream s @ l) m resp" if "si_pc s t = Returned m (Inr resp)" for t m resp
    using answered_mono [OF answers_invD(3) [OF assms that] sub] .
  moreover have "\<exists>m'. (m', res) \<in> set (si_upstream s @ l) \<and> has_single_question m' []
      \<and> (\<forall>t m. (si_pc s t = Waiting m req \<longrightarrow> req_key m' = req_key m) \<and> (si_pc s t = Resolved m req \<longrightarrow> m' = m))"
    if "req < length (si_flights s)" "si_flights s ! req = Some res" for req res
    using answers_invD(2) [OF assms that] sub by blast
  ultimately show ?thesis using assms unfolding answers_inv_def h by simp
qed

lemma answers_register:
  assumes inv: "flights_inv s" "answers_inv s" and idle: "pc_idle (si_pc s t)"
  shows "answers_inv (sf_register t msg s)"
proof -
  let ?s = "sf_register t msg s" and ?n = "length (si_flights s)"
  have h: "holds ?s t' m' r \<longleftrightarrow> (if t' = t then m' = msg \<and> r = ?n else holds s t' m' r)" for t' m' r
    by (auto simp: sf_register_def holds_def Let_def)
  have f: "si_flights ?s = si_flights s @ [None]" "si_pc ?s = (si_pc s)(t := Leading msg ?n)" "si_upstream ?s = si_upstream s"
    by (simp_all add: sf_register_def Let_def)
  have w: "r < ?n" if "si_pc s t' = Waiting m' r" for t' m' r using flights_invD(6) [OF inv(1) that] .
  show ?thesis
    unfolding answers_inv_def f
  proof (intro conjI allI impI)
    fix t1 m r t' m'
    assume "((si_pc s)(t := Leading msg ?n)) t1 = Waiting m r" "holds ?s t' m' r"
    then show "req_key m' = req_key m" using w h answers_invD(1) [OF inv(2)] by (auto split: if_splits)
  next
    fix r res assume "r < length (si_flights s @ [None])" "(si_flights s @ [None]) ! r = Some res"
    then have "r < ?n" "si_flights s ! r = Some res" by (auto simp: nth_append split: if_splits)
    from answers_invD(2) [OF inv(2) this] show
      "\<exists>m'. (m', res) \<in> set (si_upstream s) \<and> has_single_question m' [] \<and>
         (\<forall>t' m. (((si_pc s)(t := Leading msg ?n)) t' = Waiting m r \<longrightarrow> req_key m' = req_key m) \<and>
                (((si_pc s)(t := Leading msg ?n)) t' = Resolved m r \<longrightarrow> m' = m))" by (auto split: if_splits)
  next
    fix t' m resp assume "((si_pc s)(t := Leading msg ?n)) t' = Returned m (Inr resp)"
    then show "answered (si_upstream s) m resp" using answers_invD(3) [OF inv(2)] by (auto split: if_splits)
  qed
qed

lemma answers_done:
  assumes inv: "flights_inv s" "answers_inv s" and lead: "si_pc s t = Leading msg req"
  shows "answers_inv (sf_done t msg req res s)"
proof -
  let ?s = "sf_done t msg req res s" and ?log = "si_upstream s @ [(msg, res)]"
  have ht: "holds s t msg req" using lead by (simp add: holds_def)
  have h: "holds ?s = holds s" using lead by (intro ext) (auto simp: holds_def sf_done_def)
  have f: "si_flights ?s = (si_flights s)[req := Some res]" "si_pc ?s = (si_pc s)(t := Resolved msg req)" "si_upstream ?s = ?log"
    by (simp_all add: sf_done_def)
  have single: "has_single_question msg []" using flights_invD(1) [OF inv(1), of t] lead by simp
  show ?thesis
    unfolding answers_inv_def f h
  proof (intro conjI allI impI)
    fix t1 m r t' m'
    assume "((si_pc s)(t := Resolved msg req)) t1 = Waiting m r" "holds s t' m' r"
    then show "req_key m' = req_key m" using answers_invD(1) [OF inv(2)] by (auto split: if_splits)
  next
    fix r res' assume r: "r < length ((si_flights s)[req := Some res])" "(si_flights s)[req := Some res] ! r = Some res'"
    show "\<exists>m'. (m', res') \<in> set ?log \<and> has_single_question m' [] \<and>
         (\<forall>t' m. (((si_pc s)(t := Resolved msg req)) t' = Waiting m r \<longrightarrow> req_key m' = req_key m) \<and>
                (((si_pc s)(t := Resolved msg req)) t' = Resolved m r \<longrightarrow> m' = m))"
    proof (cases "r = req")
      case True
      with r have "res' = res" by simp
      moreover have "m = msg" if "si_pc s t' = Resolved m req" for t' m
        using flights_invD(4) [OF inv(1) ht, of t' m] that lead by (auto simp: holds_def)
      ultimately show ?thesis using True single answers_invD(1) [OF inv(2) _ ht]
        by (intro exI [of _ msg]) (auto split: if_splits)
    next
      case False
      with r have "r < length (si_flights s)" "si_flights s ! r = Some res'" by auto
      from answers_invD(2) [OF inv(2) this] False show ?thesis by (auto split: if_splits)
    qed
  next
    fix t' m resp assume "((si_pc s)(t := Resolved msg req)) t' = Returned m (Inr resp)"
    then have "answered (si_upstream s) m resp" using answers_invD(3) [OF inv(2)] by (auto split: if_splits)
    then show "answered ?log m resp" by (rule answered_mono) auto
  qed
qed

lemma answers_finish:
  assumes inv: "flights_inv s" "answers_inv s" and pc: "si_pc s t = Resolved msg req" and res: "si_flights s ! req = Some res"
  shows "answers_inv (sf_finish t msg req res s)"
proof -
  let ?s = "sf_finish t msg req res s"
  have ht: "holds s t msg req" using pc by (simp add: holds_def)
  from answers_invD(2) [OF inv(2) flights_invD(3) [OF inv(1) ht] res] pc
  have log: "(msg, res) \<in> set (si_upstream s)" by blast
  have h: "holds ?s t' m' r \<Longrightarrow> holds s t' m' r" for t' m' r
    by (auto simp: sf_finish_def holds_def split: if_splits)
  have f: "si_flights ?s = si_flights s" "si_pc ?s = (si_pc s)(t := Returned msg res)" "si_upstream ?s = si_upstream s"
    by (simp_all add: sf_finish_def)
  show ?thesis
    unfolding answers_inv_def f
  proof (intro conjI allI impI)
    fix t1 m r t' m'
    assume "((si_pc s)(t := Returned msg res)) t1 = Waiting m r" and "holds ?s t' m' r"
    then have "si_pc s t1 = Waiting m r" "holds s t' m' r" using h by (auto split: if_splits)
    then show "req_key m' = req_key m" by (rule answers_invD(1) [OF inv(2)])
  next
    fix r res' assume "r < length (si_flights s)" "si_flights s ! r = Some res'"
    from answers_invD(2) [OF inv(2) this] show
      "\<exists>m'. (m', res') \<in> set (si_upstream s) \<and> has_single_question m' [] \<and>
         (\<forall>t' m. (((si_pc s)(t := Returned msg res)) t' = Waiting m r \<longrightarrow> req_key m' = req_key m) \<and>
                (((si_pc s)(t := Returned msg res)) t' = Resolved m r \<longrightarrow> m' = m))" by (auto split: if_splits)
  next
    fix t' m resp assume "((si_pc s)(t := Returned msg res)) t' = Returned m (Inr resp)"
    then show "answered (si_upstream s) m resp"
      using answers_invD(3) [OF inv(2)] log by (auto simp: answered_def split: if_splits)
  qed
qed

lemma answers_cong:
  assumes inv: "answers_inv s" and same: "holds s' = holds s" "si_flights s' = si_flights s" "si_upstream s' = si_upstream s"
    and pc: "\<And>t m r. si_pc s' t = Waiting m r \<Longrightarrow> si_pc s t = Waiting m r"
      "\<And>t m r. si_pc s' t = Resolved m r \<Longrightarrow> si_pc s t = Resolved m r"
      "\<And>t m r. si_pc s' t = Returned m r \<Longrightarrow> si_pc s t = Returned m r"
  shows "answers_inv s'"
  unfolding answers_inv_def same
proof (intro conjI allI impI)
  show "req_key m' = req_key m" if "si_pc s' t = Waiting m r" "holds s t' m' r" for t m r t' m'
    using answers_invD(1) [OF inv pc(1) [OF that(1)] that(2)] .
  show "\<exists>m'. (m', res) \<in> set (si_upstream s) \<and> has_single_question m' []
      \<and> (\<forall>t m. (si_pc s' t = Waiting m r \<longrightarrow> req_key m' = req_key m) \<and> (si_pc s' t = Resolved m r \<longrightarrow> m' = m))"
    if "r < length (si_flights s)" "si_flights s ! r = Some res" for r res
    using answers_invD(2) [OF inv that] pc(1,2) by meson
  show "answered (si_upstream s) m resp" if "si_pc s' t = Returned m (Inr resp)" for t m resp
    using answers_invD(3) [OF inv pc(3) [OF that]] .
qed

lemma holds_det: "holds s t m req \<Longrightarrow> holds s t m' req \<Longrightarrow> m' = m"
  by (auto simp: holds_def)

lemma answers_begin:
  assumes inv: "flights_inv s" "answers_inv s" and pc: "si_pc s t = Idle"
  shows "answers_inv (sf_begin t msg s)"
proof -
  have idle: "pc_idle (si_pc s t)" using pc by simp
  show ?thesis
  proof (cases "has_single_question msg []")
    case False
    with inv(2) idle show ?thesis by (auto simp: sf_begin_def intro: answers_goto_idle)
  next
    case single: True
    show ?thesis
    proof (cases "si_requests s (req_key msg)")
      case None
      with single inv idle show ?thesis by (simp add: sf_begin_def answers_register)
    next
      case (Some r)
      from flights_invD(2) [OF inv(1) Some] obtain t0 m0 where H: "holds s t0 m0 r" "req_key m0 = req_key msg" by blast
      have "answers_inv (goto t (Waiting msg r) s)"
      proof (rule answers_goto_idle [OF inv(2) idle])
        show "req_key m' = req_key m" if "Waiting msg r = Waiting m req" "holds s t' m' req" for m req t' m'
          using that H flights_invD(4) [OF inv(1) H(1)] holds_det by (metis thread_pc.inject(1))
        show "si_flights s ! req = None \<or> si_pc s t = Waiting m req \<or> (\<exists>t' m'. si_pc s t' = Resolved m' req \<and> req_key m' = req_key m)"
          if "Waiting msg r = Waiting m req" for m req
          using that H flights_invD(5) [OF inv(1) H(1)] holds_det [OF H(1)] unfolding holds_def by blast
      qed simp_all
      with single Some show ?thesis by (simp add: sf_begin_def)
    qed
  qed
qed

lemma answers_wake:
  assumes inv: "flights_inv s" "answers_inv s" and pc: "si_pc s t = Waiting msg req" and res: "si_flights s ! req = Some res"
  shows "answers_inv (sf_wake t msg res s)"
proof -
  have "has_single_question msg []" using flights_invD(1) [OF inv(1), of t] pc by simp
  with answers_invD(2) [OF inv(2) flights_invD(6) [OF inv(1) pc] res] pc
  have "answered (si_upstream s) msg (follower_answer msg resp)" if "res = Inr resp" for resp
    unfolding answered_def using that single_question by metis
  then show ?thesis
    using inv(2) pc by (auto simp: sf_wake_def intro!: answers_goto_idle split: sum.splits)
qed

lemma answers_step:
  assumes "sf_step s s'" and inv: "flights_inv s" "answers_inv s"
  shows "answers_inv s'"
  using assms(1)
proof (cases rule: sf_stepE)
  case (direct t msg res)
  have "answers_inv (goto t (Returned msg res) (s\<lparr>si_upstream := si_upstream s @ [(msg, res)]\<rparr>))"
    by (rule answers_goto_idle [OF answers_log [OF inv(2)]]) (use direct in \<open>auto simp: answered_def\<close>)
  then show ?thesis using direct by (simp add: sf_direct_def)
next
  case (cancel t msg req ctx_err)
  then show ?thesis using inv(2) by (auto intro!: answers_goto_idle)
next
  case (upstream_panic t msg req)
  then have "holds s' = holds s" by (intro ext) (auto simp: holds_def)
  with upstream_panic show ?thesis by (intro answers_cong [OF inv(2)]) (auto split: if_splits)
qed (use inv answers_begin answers_wake answers_register answers_done answers_finish in auto)

lemma answers_reach: "sf_reach s \<Longrightarrow> flights_inv s \<and> answers_inv s"
  by (induction rule: rtranclp_induct) (auto simp: flights_inv_new answers_inv_new intro: flights_step answers_step)

subsection \<open>One request at a time\<close>

definition no_failures :: "inflight \<Rightarrow> bool" where
  "no_failures s \<longleftrightarrow> (\<forall>(m, res) \<in> set (si_upstream s). \<exists>resp. res = Inr resp)"

definition leads :: "inflight \<Rightarrow> nat \<Rightarrow> dns_msg \<Rightarrow> nat \<Rightarrow> bool" where
  "leads s t m req \<longleftrightarrow> si_pc s t = Leading m req \<or> si_pc s t = Panicked m req"

definition single_inv :: "inflight \<Rightarrow> bool" where
  "single_inv s \<longleftrightarrow> (\<forall>t m. si_pc s t \<noteq> Retrying m) \<and> (\<forall>t m req. leads s t m req \<longrightarrow> si_requests s (req_key m) = Some req)"

lemma leads_holds: "leads s t m req \<Longrightarrow> holds s t m req"
  by (auto simp: leads_def holds_def)

lemma leads_goto: "leads (goto t pc s) t' m req \<longleftrightarrow>
    (if t' = t then pc = Leading m req \<or> pc = Panicked m req else leads s t' m req)"
  by (auto simp: leads_def)

lemma single_goto:
  assumes "single_inv s" and "pc_idle pc" and "\<And>m. pc \<noteq> Retrying m"
  shows "single_inv (goto t pc s)"
  using assms unfolding single_inv_def leads_goto by auto

lemma single_begin:
  assumes "flights_inv s" and "single_inv s" and "si_pc s t = Idle"
  shows "single_inv (sf_begin t msg s)"
proof (cases "has_single_question msg [] \<and> si_requests s (req_key msg) = None")
  case True
  have "req_key m \<noteq> req_key msg" if "leads s t' m req" for t' m req
    using assms(2) that True unfolding single_inv_def by (metis option.distinct(1))
  with True assms(2) show ?thesis
    by (auto simp: sf_begin_def sf_register_def Let_def single_inv_def leads_goto) (auto simp: leads_def)
qed (use assms(2) in \<open>auto simp: sf_begin_def intro!: single_goto split: option.split\<close>)

lemma single_finish:
  assumes inv: "flights_inv s" and "single_inv s" and pc: "si_pc s t = Resolved msg req"
  shows "single_inv (sf_finish t msg req res s)"
proof -
  have ht: "holds s t msg req" using pc by (simp add: holds_def)
  have "r \<noteq> req" if "leads s t' m r" "t' \<noteq> t" for t' m r
    using that flights_invD(4) [OF inv ht] leads_holds by blast
  then have "req_key m \<noteq> req_key msg" if "leads s t' m r" "t' \<noteq> t" "si_requests s (req_key msg) = Some req" for t' m r
    using assms(2) that unfolding single_inv_def by (metis option.inject)
  with assms(2) show ?thesis
    unfolding sf_finish_def single_inv_def leads_goto by (auto simp: leads_def)
qed

lemma failures_later: "sf_step s s' \<Longrightarrow> no_failures s' \<Longrightarrow> no_failures s"
  by (cases rule: sf_stepE, assumption)
    (auto simp: no_failures_def sf_begin_def sf_register_def sf_direct_def sf_wake_def sf_done_def sf_finish_def Let_def
      split: if_splits option.splits sum.splits)

lemma single_step:
  assumes "sf_step s s'" and inv: "flights_inv s" "answers_inv s" and "no_failures s" and single: "single_inv s"
  shows "single_inv s'"
  using assms(1)
proof (cases rule: sf_stepE)
  case (direct t msg res)
  have "single_inv (s\<lparr>si_upstream := si_upstream s @ [(msg, res)]\<rparr>)" using single by (simp add: single_inv_def leads_def)
  then show ?thesis using direct by (simp add: sf_direct_def single_goto)
next
  case (wake t msg req res)
  from answers_invD(2) [OF inv(2) flights_invD(6) [OF inv(1) wake(2)] wake(3)] assms(4)
  obtain resp where "res = Inr resp" unfolding no_failures_def by blast
  then show ?thesis using wake(1) single by (simp add: sf_wake_def single_goto)
next
  case (retry t msg)
  then show ?thesis using single by (simp add: single_inv_def)
next
  case (upstream t msg req res)
  then show ?thesis using single by (auto simp: sf_done_def single_inv_def leads_goto) (auto simp: leads_def)
next
  case (upstream_panic t msg req)
  then show ?thesis using single by (auto simp: single_inv_def leads_goto) (auto simp: leads_def)
qed (use inv single single_begin single_finish single_goto in auto)

lemma single_reach: "sf_reach s \<Longrightarrow> no_failures s \<Longrightarrow> single_inv s"
proof (induction rule: rtranclp_induct)
  case base
  show ?case by (simp add: single_inv_def new_single_inflight_def leads_def)
next
  case (step s s')
  note i = answers_reach [OF step(1)]
  from failures_later [OF step(2,4)] step(3) single_step [OF step(2)] i show ?case by blast
qed

subsection \<open>A leader that panics\<close>

text \<open>\<open>no_retry q req s\<close>: no thread with the question \<open>q\<close> is on its way to a request of its own after an error, nor can one
  be woken with an error by another request than \<open>req\<close>.\<close>

definition no_retry :: "question \<Rightarrow> nat \<Rightarrow> inflight \<Rightarrow> bool" where
  "no_retry q req s \<longleftrightarrow>
     (\<forall>t m. req_key m = q \<longrightarrow> si_pc s t \<noteq> Retrying m
        \<and> (\<forall>r. si_pc s t = Waiting m r \<longrightarrow> r = req \<or> (\<exists>resp. si_flights s ! r = Some (Inr resp))))"

text \<open>\<open>orphaned q req s\<close>: the map holds a request nobody will finish, and no thread is about to replace it.\<close>

definition orphaned :: "question \<Rightarrow> nat \<Rightarrow> inflight \<Rightarrow> bool" where
  "orphaned q req s \<longleftrightarrow> flights_inv s \<and> si_requests s q = Some req \<and> req < length (si_flights s) \<and> si_flights s ! req = None
     \<and> no_retry q req s \<and> (\<forall>t m. si_pc s t \<noteq> Leading m req \<and> si_pc s t \<noteq> Resolved m req)"

lemma no_retryD:
  assumes "no_retry q req s" and "req_key m = q"
  shows "si_pc s t \<noteq> Retrying m"
    and "si_pc s t = Waiting m r \<Longrightarrow> r = req \<or> (\<exists>resp. si_flights s ! r = Some (Inr resp))"
  using assms unfolding no_retry_def by blast+

lemma orphanedD:
  assumes "orphaned q req s"
  shows "si_requests s q = Some req" "req < length (si_flights s)" "si_flights s ! req = None"
    "si_pc s t = Waiting m r \<Longrightarrow> req_key m = q \<Longrightarrow> r = req \<or> (\<exists>resp. si_flights s ! r = Some (Inr resp))"
    "si_pc s t = Retrying m \<Longrightarrow> req_key m \<noteq> q"
    "si_pc s t = Leading m r \<Longrightarrow> r \<noteq> req"
    "si_pc s t = Resolved m r \<Longrightarrow> r \<noteq> req"
    "flights_inv s"
  using assms no_retryD [of q req s m] unfolding orphaned_def by blast+

lemma orphaned_change:
  assumes o: "orphaned q req s" and inv: "flights_inv s'"
    and req: "si_requests s' q = Some req" "length (si_flights s) \<le> length (si_flights s')"
    and fl: "\<And>r. r < length (si_flights s) \<Longrightarrow> r = req \<or> si_flights s ! r \<noteq> None \<Longrightarrow> si_flights s' ! r = si_flights s ! r"
    and pcs: "si_pc s' = (si_pc s)(t := pc)"
    and pc: "\<And>m r. pc = Waiting m r \<Longrightarrow> req_key m = q \<Longrightarrow> r = req" "\<And>m. pc = Retrying m \<Longrightarrow> req_key m \<noteq> q"
      "\<And>m. pc \<noteq> Leading m req" "\<And>m. pc \<noteq> Resolved m req"
  shows "orphaned q req s'"
proof -
  have lt: "req < length (si_flights s)" "si_flights s ! req = None" using orphanedD(2,3) [OF o] .
  have "si_flights s' ! req = None" using fl [of req] lt by simp
  moreover have "r = req \<or> (\<exists>resp. si_flights s' ! r = Some (Inr resp))" if W: "si_pc s' u = Waiting m r" "req_key m = q" for u m r
  proof (cases "u = t")
    case True
    with W pc(1) show ?thesis by (simp add: pcs)
  next
    case False
    with W(1) have w: "si_pc s u = Waiting m r" by (simp add: pcs)
    note len = flights_invD(6) [OF orphanedD(8) [OF o] w]
    from orphanedD(4) [OF o w W(2)] show ?thesis
    proof
      assume "\<exists>resp. si_flights s ! r = Some (Inr resp)"
      then obtain resp where "si_flights s ! r = Some (Inr resp)" by blast
      with fl [OF len] show ?thesis by simp
    qed simp
  qed
  moreover have "si_pc s' u \<noteq> Retrying m" if "req_key m = q" for u m
    using that pc(2) [of m] orphanedD(5) [OF o, of u m] by (auto simp: pcs)
  moreover have "si_pc s' u \<noteq> Leading m req" "si_pc s' u \<noteq> Resolved m req" for u m
    using pc(3,4) [of m] orphanedD(6,7) [OF o, of u m req] by (auto simp: pcs)
  ultimately show ?thesis unfolding orphaned_def no_retry_def using inv req lt(1) by auto
qed

lemma orphaned_register:
  assumes o: "orphaned q req s" and "req_key msg \<noteq> q" and "flights_inv (sf_register t msg s)"
  shows "orphaned q req (sf_register t msg s)"
  using assms(2) orphanedD(1,2) [OF o]
  by (intro orphaned_change [OF o assms(3), where t = t and pc = "Leading msg (length (si_flights s))"])
    (simp_all add: sf_register_def Let_def nth_append)

lemma orphaned_goto:
  assumes o: "orphaned q req s" and "flights_inv (goto t pc s)"
    and "\<And>m r. pc = Waiting m r \<Longrightarrow> req_key m = q \<Longrightarrow> r = req" "\<And>m. pc = Retrying m \<Longrightarrow> req_key m \<noteq> q"
      "\<And>m. pc \<noteq> Leading m req" "\<And>m. pc \<noteq> Resolved m req"
  shows "orphaned q req (goto t pc s)"
  by (rule orphaned_change [OF o assms(2), where t = t and pc = pc]) (use assms(3-) orphanedD(1) [OF o] in simp_all)

lemma orphaned_step:
  assumes "sf_step s s'" and o: "orphaned q req s"
  shows "orphaned q req s'"
proof -
  have inv: "flights_inv s'" using flights_step [OF assms(1)] orphanedD(8) [OF o] by blast
  note oD = orphanedD [OF o]
  show ?thesis
    using assms(1)
  proof (cases rule: sf_stepE)
    case (call t msg)
    show ?thesis
    proof (cases "has_single_question msg [] \<and> si_requests s (req_key msg) = None")
      case True
      with oD(1) have "req_key msg \<noteq> q" by auto
      with True call inv show ?thesis by (simp add: sf_begin_def orphaned_register [OF o])
    next
      case False
      then show ?thesis using call oD(1) inv
        by (auto simp: sf_begin_def intro!: orphaned_goto [OF o] split: option.splits if_splits)
    qed
  next
    case (direct t msg res)
    with oD(1) show ?thesis
      by (intro orphaned_change [OF o inv, where t = t and pc = "Returned msg res"]) (simp_all add: sf_direct_def)
  next
    case (wake t msg r res)
    have "req_key msg \<noteq> q" if "res = Inl err" for err
      using oD(3) oD(4) [of t msg r] wake(2,3) that by auto
    then show ?thesis using wake inv by (auto simp: sf_wake_def intro!: orphaned_goto [OF o] split: sum.splits)
  next
    case (retry t msg)
    then show ?thesis using orphaned_register [OF o] oD(5) inv by simp
  next
    case (upstream t msg r res)
    have h: "holds s t msg r" using upstream by (simp add: holds_def)
    have k: "r \<noteq> req" "si_flights s ! r = None"
      using oD(6) upstream flights_invD(5) [OF oD(8) h] by auto
    have fl: "si_flights s' ! x = si_flights s ! x" if "x = req \<or> si_flights s ! x \<noteq> None" for x
    proof -
      have "r \<noteq> x" using k that by auto
      then show ?thesis by (simp add: upstream(1) sf_done_def)
    qed
    show ?thesis
      by (rule orphaned_change [OF o inv _ _ fl, where t = t and pc = "Resolved msg r"])
        (use k(1) oD(1) in \<open>simp_all add: upstream(1) sf_done_def\<close>)
  next
    case (finish t msg r res)
    have k: "r \<noteq> req" using oD(7) finish by auto
    show ?thesis
      by (rule orphaned_change [OF o inv, where t = t and pc = "Returned msg res"])
        (use k oD(1) finish in \<open>auto simp: sf_finish_def\<close>)
  qed (use inv in \<open>auto intro!: orphaned_goto [OF o]\<close>)
qed

lemma orphaned_run: "sf_step\<^sup>*\<^sup>* s s' \<Longrightarrow> orphaned q req s \<Longrightarrow> orphaned q req s'"
  by (induction rule: rtranclp_induct) (auto intro: orphaned_step)

text \<open>The panic of the thread whose request is in the map leaves that request orphaned.\<close>

lemma panic_orphans:
  assumes "sf_reach s" and lead: "si_pc s t = Leading msg req"
    and "si_requests s (req_key msg) = Some req" and retry: "no_retry (req_key msg) req s"
  shows "orphaned (req_key msg) req (goto t (Panicked msg req) s)"
proof -
  let ?s = "goto t (Panicked msg req) s"
  have inv: "flights_inv s" using answers_reach [OF assms(1)] by blast
  have "flights_inv ?s" using flights_step [OF sf_step.upstream_panic [OF lead] inv] .
  moreover have h: "holds s t msg req" using lead by (simp add: holds_def)
  moreover have "si_flights s ! req = None" using flights_invD(5) [OF inv h] lead by simp
  moreover have "si_pc ?s u \<noteq> Leading m req \<and> si_pc ?s u \<noteq> Resolved m req" for u m
    using flights_invD(4) [OF inv h, of u m] by (auto simp: holds_def)
  moreover have "no_retry (req_key msg) req ?s" using retry by (auto simp: no_retry_def)
  ultimately show ?thesis using assms(3) flights_invD(3) [OF inv h] by (simp add: orphaned_def)
qed

text \<open>While the resolver below has not failed, the request of every thread that asks it is in the map, and nothing retries.\<close>

lemma no_failures_no_retry:
  assumes "sf_reach s" and "no_failures s" and lead: "si_pc s t = Leading msg req"
  shows "si_requests s (req_key msg) = Some req \<and> no_retry (req_key msg) req s"
proof
  have inv: "flights_inv s" "answers_inv s" using answers_reach [OF assms(1)] by auto
  have single: "single_inv s" using single_reach [OF assms(1,2)] .
  then show entry: "si_requests s (req_key msg) = Some req" using lead unfolding single_inv_def leads_def by blast
  have "r = req \<or> (\<exists>resp. si_flights s ! r = Some (Inr resp))"
    if W: "si_pc s u = Waiting m r" and key: "req_key m = req_key msg" for u m r
  proof (cases "si_flights s ! r")
    case None
    from flights_invD(7) [OF inv(1) W None] obtain t' m' where H: "holds s t' m' r" by blast
    with None flights_invD(5) [OF inv(1) H] have "leads s t' m' r" by (auto simp: holds_def leads_def)
    with single have "si_requests s (req_key m') = Some r" unfolding single_inv_def by blast
    with answers_invD(1) [OF inv(2) W H] key entry show ?thesis by simp
  next
    case (Some res)
    have "\<exists>m'. (m', res) \<in> set (si_upstream s)"
      using answers_invD(2) [OF inv(2) flights_invD(6) [OF inv(1) W] Some] by (elim exE conjE) (rule exI)
    with assms(2) have "\<exists>resp. res = Inr resp" unfolding no_failures_def by auto
    with Some show ?thesis by simp
  qed
  moreover have "si_pc s u \<noteq> Retrying m" for u m using single unfolding single_inv_def by blast
  ultimately show "no_retry (req_key msg) req s" unfolding no_retry_def by simp
qed

subsection \<open>Properties\<close>

text \<open>C28: No waiter is forgotten: in every reachable state a waiting call can go on at once, because its
  request is done, or the request is still held by a thread that asks the same question upstream, and whatever
  that thread gets, it wakes the waiter. Only a panic of the resolver below breaks this.\<close>

theorem waiter_not_stuck:
  assumes "sf_reach s" and "si_pc s t = Waiting msg req"
  shows "case si_flights s ! req of
      Some res \<Rightarrow> sf_step s (sf_wake t msg res s)
    | None \<Rightarrow> (\<exists>t' m'. req_key m' = req_key msg \<and>
        (if si_pc s t' = Leading m' req
         then \<forall>res. sf_step s (sf_done t' m' req res s)
                \<and> sf_step (sf_done t' m' req res s) (sf_wake t msg res (sf_done t' m' req res s))
         else si_pc s t' = Panicked m' req))"
proof (cases "si_flights s ! req")
  case None
  have inv: "flights_inv s" "answers_inv s" using answers_reach [OF assms(1)] by auto
  from flights_invD(7) [OF inv(1) assms(2) None] obtain t' m' where H: "holds s t' m' req" by blast
  have key: "req_key m' = req_key msg" using answers_invD(1) [OF inv(2) assms(2) H] .
  have cases: "si_pc s t' = Leading m' req \<or> si_pc s t' = Panicked m' req"
    using H flights_invD(5) [OF inv(1) H] None by (auto simp: holds_def)
  have "sf_step s (sf_done t' m' req res s) \<and> sf_step (sf_done t' m' req res s) (sf_wake t msg res (sf_done t' m' req res s))"
    if lead: "si_pc s t' = Leading m' req" for res
  proof
    show "sf_step s (sf_done t' m' req res s)" by (rule sf_step.upstream [where t = t' and msg = m' and req = req and s = s and res = res, OF lead])
    have "t \<noteq> t'" using lead assms(2) by auto
    then have "si_pc (sf_done t' m' req res s) t = Waiting msg req" "si_flights (sf_done t' m' req res s) ! req = Some res"
      using assms(2) flights_invD(6) [OF inv(1) assms(2)] by (simp_all add: sf_done_def)
    then show "sf_step (sf_done t' m' req res s) (sf_wake t msg res (sf_done t' m' req res s))" by (rule sf_step.wake)
  qed
  with key cases None show ?thesis by auto
next
  case (Some res)
  with assms(2) show ?thesis by (auto intro: sf_step.wake)
qed

text \<open>C29: As long as the resolver below has not failed, at most one call per question is asking it, however
  the calls interleave; and the map never keeps a request whose thread has returned.\<close>

theorem single_request_in_flight:
  assumes "sf_reach s"
  shows "(no_failures s \<longrightarrow> leads s t m req \<longrightarrow> leads s t' m' req' \<longrightarrow> req_key m = req_key m' \<longrightarrow> t = t')
    \<and> (si_requests s q = Some r \<longrightarrow> (\<exists>t m. holds s t m r \<and> req_key m = q))"
proof (intro conjI impI)
  have inv: "flights_inv s" using answers_reach [OF assms] by blast
  show "\<exists>t m. holds s t m r \<and> req_key m = q" if "si_requests s q = Some r" using flights_invD(2) [OF inv that] .
  assume "no_failures s" "leads s t m req" "leads s t' m' req'" "req_key m = req_key m'"
  with single_reach [OF assms] have "req = req'" unfolding single_inv_def by (metis option.inject)
  with \<open>leads s t m req\<close> \<open>leads s t' m' req'\<close> show "t = t'" using flights_invD(4) [OF inv] leads_holds by blast
qed

text \<open>Every answer a caller gets is what the resolver below gave for its message, or the answer records it gave
  for another message with the same question.\<close>

theorem merged_answers:
  assumes "sf_reach s" and "si_pc s t = Returned msg (Inr resp)"
  shows "(msg, Inr resp) \<in> set (si_upstream s)
    \<or> (\<exists>m r. (m, Inr r) \<in> set (si_upstream s) \<and> msg_question m = msg_question msg
          \<and> resp = msg\<lparr>msg_response := True, msg_answer := msg_answer r\<rparr>)"
  using answers_invD(3) [OF conjunct2 [OF answers_reach [OF assms(1)]] assms(2)]
  unfolding answered_def follower_answer_def by blast

definition two_calls :: inflight where
  "two_calls = sf_begin 1 (sample_msg []) (sf_begin 0 (sample_msg []) new_single_inflight)"

lemma two_calls_eq:
  "two_calls = \<lparr>si_requests = (\<lambda>q. None)(sample_question := Some 0), si_flights = [None],
     si_pc = (\<lambda>t. Idle)(0 := Leading (sample_msg []) 0, 1 := Waiting (sample_msg []) 0), si_upstream = []\<rparr>"
  by (simp add: two_calls_def sf_begin_def sf_register_def new_single_inflight_def goto_def Let_def
      has_single_question_def sample_msg_def req_key_def fun_upd_def)

lemma two_calls_reach: "sf_reach two_calls"
proof -
  have 1: "sf_step new_single_inflight (sf_begin 0 (sample_msg []) new_single_inflight)"
    by (rule sf_step.call) (simp add: new_single_inflight_def)
  have "sf_step (sf_begin 0 (sample_msg []) new_single_inflight) two_calls"
    unfolding two_calls_def by (rule sf_step.call)
      (simp add: sf_begin_def sf_register_def new_single_inflight_def goto_def Let_def
        has_single_question_def sample_msg_def req_key_def)
  with 1 show ?thesis by (meson converse_rtranclp_into_rtranclp rtranclp.rtrancl_refl)
qed

theorem waiter_not_stuck_witness:
  "\<exists>t'. si_pc two_calls 1 = Waiting (sample_msg []) 0 \<and> si_flights two_calls ! 0 = None
     \<and> (\<exists>m'. si_pc two_calls t' = Leading m' 0)"
proof -
  have w: "si_pc two_calls 1 = Waiting (sample_msg []) 0" and f: "si_flights two_calls ! 0 = None"
    by (simp_all add: two_calls_eq)
  have p: "si_pc two_calls t' \<noteq> Panicked m' 0" for t' m' by (simp add: two_calls_eq)
  from waiter_not_stuck [OF two_calls_reach w] f p obtain t' m' where "si_pc two_calls t' = Leading m' 0"
    by (auto split: if_splits)
  with w f show ?thesis by blast
qed

theorem single_request_in_flight_witness:
  "no_failures two_calls \<and> {t. \<exists>m r. leads two_calls t m r \<and> req_key m = sample_question} = {0}
   \<and> si_requests two_calls sample_question = Some 0 \<and> (\<exists>t m. holds two_calls t m 0 \<and> req_key m = sample_question)"
proof -
  have ok: "no_failures two_calls" by (simp add: no_failures_def two_calls_eq)
  have l: "leads two_calls 0 (sample_msg []) 0" "req_key (sample_msg []) = sample_question"
    by (simp_all add: leads_def two_calls_eq req_key_def sample_msg_def)
  have r: "si_requests two_calls sample_question = Some 0" by (simp add: two_calls_eq)
  from single_request_in_flight [OF two_calls_reach] ok l(1)
  have only: "leads two_calls t m r \<Longrightarrow> req_key m = req_key (sample_msg []) \<Longrightarrow> t = 0" for t m r by blast
  have "{t. \<exists>m r. leads two_calls t m r \<and> req_key m = sample_question} = {0}"
    using only l by (intro set_eqI iffI) auto
  with ok r single_request_in_flight [OF two_calls_reach] show ?thesis by blast
qed

definition answered_calls :: "dns_msg \<Rightarrow> inflight" where
  "answered_calls resp =
     sf_wake 1 (sample_msg []) (Inr resp) (sf_finish 0 (sample_msg []) 0 (Inr resp)
       (sf_done 0 (sample_msg []) 0 (Inr resp) two_calls))"

lemma answered_calls_reach: "sf_reach (answered_calls resp)"
proof -
  let ?s1 = "sf_done 0 (sample_msg []) 0 (Inr resp) two_calls"
  let ?s2 = "sf_finish 0 (sample_msg []) 0 (Inr resp) ?s1"
  have "sf_step two_calls ?s1" by (rule sf_step.upstream) (simp add: two_calls_eq)
  moreover have "sf_step ?s1 ?s2" by (rule sf_step.finish) (simp_all add: sf_done_def two_calls_eq)
  moreover have "sf_step ?s2 (answered_calls resp)"
    unfolding answered_calls_def by (rule sf_step.wake [where req = 0]) (simp_all add: sf_done_def sf_finish_def two_calls_eq)
  ultimately show ?thesis using two_calls_reach by (meson rtranclp.rtrancl_into_rtrancl)
qed

lemma answered_calls_pc:
  "si_pc (answered_calls resp) 0 = Returned (sample_msg []) (Inr resp)"
  "si_pc (answered_calls resp) 1 = Returned (sample_msg []) (Inr (follower_answer (sample_msg []) resp))"
  "si_upstream (answered_calls resp) = [(sample_msg [], Inr resp)]"
  by (simp_all add: answered_calls_def sf_wake_def sf_finish_def sf_done_def two_calls_eq)

theorem merged_answers_witness:
  "\<exists>m r. (m, Inr r) \<in> set (si_upstream (answered_calls (sample_msg [sample_answer 60])))
     \<and> follower_answer (sample_msg []) (sample_msg [sample_answer 60])
          = (sample_msg [])\<lparr>msg_response := True, msg_answer := msg_answer r\<rparr>"
proof -
  let ?r = "sample_msg [sample_answer 60]"
  have ne: "(sample_msg [], Inr (follower_answer (sample_msg []) ?r)) \<in> set (si_upstream (answered_calls ?r))
     \<or> (\<exists>m r. (m, Inr r) \<in> set (si_upstream (answered_calls ?r)) \<and> msg_question m = msg_question (sample_msg [])
          \<and> follower_answer (sample_msg []) ?r = (sample_msg [])\<lparr>msg_response := True, msg_answer := msg_answer r\<rparr>)"
    using merged_answers [OF answered_calls_reach answered_calls_pc(2), of ?r] .
  then show ?thesis by (auto simp: answered_calls_pc follower_answer_def)
qed

text \<open>A merged call loses the response code: when the name does not exist, the call that asked
  upstream returns that, and the one that waited for it returns success without records.\<close>

theorem follower_loses_rcode:
  "\<exists>s. sf_reach s
     \<and> si_pc s 0 = Returned (sample_msg []) (Inr ((sample_msg [])\<lparr>msg_rcode := 3\<rparr>))
     \<and> (\<exists>resp. si_pc s 1 = Returned (sample_msg []) (Inr resp) \<and> msg_rcode resp = 0 \<and> msg_answer resp = [])"
proof -
  let ?r = "(sample_msg [])\<lparr>msg_rcode := 3\<rparr>"
  have "msg_rcode (follower_answer (sample_msg []) ?r) = 0" "msg_answer (follower_answer (sample_msg []) ?r) = []"
    by (simp_all add: follower_answer_def sample_msg_def)
  then show ?thesis using answered_calls_reach [of ?r] answered_calls_pc(1,2) [of ?r] by blast
qed

lemma blocked_step:
  assumes "sf_step s s'" and o: "orphaned (req_key msg) req s"
    and b: "si_pc s t = Waiting msg req \<or> (\<exists>err. si_pc s t = Returned msg (Inl err))"
  shows "si_pc s' t = Waiting msg req \<or> (\<exists>err. si_pc s' t = Returned msg (Inl err))"
  using assms(1) b orphanedD(3) [OF o]
  by (cases rule: sf_stepE)
    (auto simp: sf_begin_def sf_register_def sf_direct_def sf_wake_def sf_done_def sf_finish_def Let_def
      split: option.splits sum.splits)

text \<open>C34: When the resolver below panics and the process survives it, as it does for the HTTP server, the
  request of that call stays in the map for good: from then on every call with that question waits for it, and only the
  end of its own context lets it return, with an error. This holds when no query has failed upstream before, and
  otherwise when the entry in the map is that of the panicking call and no other call of the question can still register a
  request of its own, because one it waited for has failed or may fail.\<close>

theorem panicked_leader_blocks_question:
  assumes "sf_reach s" and "si_pc s t0 = Leading msg0 req"
    and "no_failures s \<or> si_requests s (req_key msg0) = Some req \<and> no_retry (req_key msg0) req s"
    and "sf_step\<^sup>*\<^sup>* (goto t0 (Panicked msg0 req) s) s1"
    and "si_pc s1 t = Idle" and "has_single_question msg []" and "req_key msg = req_key msg0"
    and "sf_step\<^sup>*\<^sup>* (sf_begin t msg s1) s2"
  shows "sf_step s (goto t0 (Panicked msg0 req) s)
    \<and> sf_begin t msg s1 = goto t (Waiting msg req) s1
    \<and> (si_pc s2 t = Waiting msg req \<or> (\<exists>err. si_pc s2 t = Returned msg (Inl err)))"
proof -
  have "si_requests s (req_key msg0) = Some req" "no_retry (req_key msg0) req s"
    using assms(3) no_failures_no_retry [OF assms(1) _ assms(2)] by blast+
  from panic_orphans [OF assms(1,2) this] have o1: "orphaned (req_key msg) req s1"
    using orphaned_run [OF assms(4)] assms(7) by simp
  have waits: "sf_begin t msg s1 = goto t (Waiting msg req) s1"
    using orphanedD(1) [OF o1] assms(6) by (simp add: sf_begin_def)
  have "orphaned (req_key msg) req (sf_begin t msg s1)" by (rule orphaned_step [OF sf_step.call [OF assms(5)] o1])
  with assms(8) have "orphaned (req_key msg) req s2 \<and> (si_pc s2 t = Waiting msg req \<or> (\<exists>err. si_pc s2 t = Returned msg (Inl err)))"
  proof (induction rule: rtranclp_induct)
    case base
    then show ?case by (simp add: waits)
  next
    case (step y z)
    then show ?case using orphaned_step [OF step(2)] blocked_step [OF step(2)] by blast
  qed
  with waits sf_step.upstream_panic [OF assms(2)] show ?thesis by blast
qed

theorem panicked_leader_blocks_question_witness:
  "let s = goto 0 (Panicked (sample_msg []) 0) two_calls in
   sf_step two_calls s \<and> sf_begin 2 (sample_msg []) s = goto 2 (Waiting (sample_msg []) 0) s"
proof -
  let ?s = "goto 0 (Panicked (sample_msg []) 0) two_calls"
  have lead: "si_pc two_calls 0 = Leading (sample_msg []) 0" by (simp add: two_calls_eq)
  have ok: "no_failures two_calls" by (simp add: no_failures_def two_calls_eq)
  have idle: "si_pc ?s 2 = Idle" by (simp add: two_calls_eq)
  have single: "has_single_question (sample_msg []) []" by (simp add: has_single_question_def sample_msg_def)
  from panicked_leader_blocks_question [OF two_calls_reach lead disjI1 [OF ok] rtranclp.rtrancl_refl idle single refl rtranclp.rtrancl_refl]
  show ?thesis unfolding Let_def by blast
qed

end
