(* ===== verification/Sharing.thy ===== *)
theory Sharing
  imports Inflight Resolver
begin

text \<open>
  What the merging of calls shares: \<open>singleInflightResolver\<close> hands the records of one answer to every waiting call
  (\<open>resp.Answer = req.Resp.Answer\<close>), and \<open>ttlOverridingDNSResolver\<close> writes their TTLs in place
  (\<open>dns-server/internal/dns_resolver.go\<close>). Records live in a store here, and the calls come back through the cache and
  the override in any order; \<open>cache_put\<close> is that of \<open>DNSCache\<close>, which copies what it is given.
\<close>

subsection \<open>Records in a store\<close>

text \<open>Resource records live at the addresses of a store; a message refers to those of its answer.\<close>

type_synonym rr_heap = "rr list"

record msg_ref =
  mr_id :: u16
  mr_response :: bool
  mr_rcode :: int
  mr_question :: "question list"
  mr_answer :: "nat list"
  mr_other :: string

definition load_msg :: "rr_heap \<Rightarrow> msg_ref \<Rightarrow> dns_msg" where
  "load_msg h m = \<lparr>msg_id = mr_id m, msg_response = mr_response m, msg_rcode = mr_rcode m, msg_question = mr_question m,
     msg_answer = map (\<lambda>a. h ! a) (mr_answer m), msg_other = mr_other m\<rparr>"

text \<open>\<open>resp := msg.Copy()\<close>, \<open>resp.Answer = req.Resp.Answer\<close>: the slice, and so its records, are shared.\<close>

definition share_answer :: "msg_ref \<Rightarrow> msg_ref \<Rightarrow> msg_ref" where
  "share_answer msg resp = msg\<lparr>mr_response := True, mr_answer := mr_answer resp\<rparr>"

text \<open>
  The loop of \<open>ttlOverridingDNSResolver\<close>, which writes through the pointers. It holds no lock, and is one step here: each of
  its writes gives a record the smaller of its TTL and the override, so a record is either as it was or as the loop leaves
  it, and writing it again changes nothing.
\<close>

definition override_in_place :: "u32 \<Rightarrow> msg_ref \<Rightarrow> rr_heap \<Rightarrow> rr_heap" where
  "override_in_place secs m h = fold (\<lambda>a h. h[a := override_ttl secs (h ! a)]) (mr_answer m) h"

lemma load_share_answer: "load_msg h (share_answer msg resp) = follower_answer (load_msg h msg) (load_msg h resp)"
  by (simp add: load_msg_def share_answer_def follower_answer_def)

subsection \<open>Calls merged into one\<close>

text \<open>The calls that got the answer of one request to the question \<open>q\<close>, its leader and those that waited, on their way back
  through the cache and the TTL override to their clients.\<close>

datatype merged_pc = MGot | MCached | MOverridden | MSent dns_msg

record merged =
  mg_heap :: rr_heap
  mg_cache :: dns_cache
  mg_pc :: "nat \<Rightarrow> merged_pc"

inductive merged_step :: "question \<Rightarrow> u32 \<Rightarrow> (nat \<Rightarrow> msg_ref) \<Rightarrow> merged \<Rightarrow> merged \<Rightarrow> bool" for q secs msgs where
  put: "mg_pc s t = MGot \<Longrightarrow> merged_step q secs msgs s
     (s\<lparr>mg_cache := cache_put now (mg_cache s) q (load_msg (mg_heap s) (msgs t)), mg_pc := (mg_pc s)(t := MCached)\<rparr>)"
| override: "mg_pc s t = MCached \<Longrightarrow> merged_step q secs msgs s
     (s\<lparr>mg_heap := override_in_place secs (msgs t) (mg_heap s), mg_pc := (mg_pc s)(t := MOverridden)\<rparr>)"
| send: "mg_pc s t = MOverridden \<Longrightarrow> merged_step q secs msgs s
     (s\<lparr>mg_pc := (mg_pc s)(t := MSent (load_msg (mg_heap s) (msgs t)))\<rparr>)"

lemma override_ttl_idem [simp]: "override_ttl secs (override_ttl secs r) = override_ttl secs r"
  by (cases r) simp_all

lemma override_in_place_nth:
  "length (override_in_place secs m h) = length h"
  "a < length h \<Longrightarrow> override_in_place secs m h ! a = (if a \<in> set (mr_answer m) then override_ttl secs (h ! a) else h ! a)"
proof -
  have "length (fold (\<lambda>a h. h[a := override_ttl secs (h ! a)]) as h) = length h
     \<and> (a < length h \<longrightarrow> fold (\<lambda>a h. h[a := override_ttl secs (h ! a)]) as h ! a = (if a \<in> set as then override_ttl secs (h ! a) else h ! a))"
    for as h a
  proof (induction as arbitrary: h)
    case (Cons b as)
    show ?case using Cons.IH [of "h[b := override_ttl secs (h ! b)]"] by (cases "a = b") simp_all
  qed simp
  then show "length (override_in_place secs m h) = length h"
    "a < length h \<Longrightarrow> override_in_place secs m h ! a = (if a \<in> set (mr_answer m) then override_ttl secs (h ! a) else h ! a)"
    unfolding override_in_place_def by blast+
qed

text \<open>Every record is as it came or overridden; those of a call that has done its loop are overridden.\<close>

definition merged_inv :: "u32 \<Rightarrow> (nat \<Rightarrow> msg_ref) \<Rightarrow> rr_heap \<Rightarrow> merged \<Rightarrow> bool" where
  "merged_inv secs msgs h0 s \<longleftrightarrow> length (mg_heap s) = length h0
     \<and> (\<forall>a < length h0. mg_heap s ! a = h0 ! a \<or> mg_heap s ! a = override_ttl secs (h0 ! a))
     \<and> (\<forall>t. mg_pc s t = MOverridden \<longrightarrow> (\<forall>a \<in> set (mr_answer (msgs t)). mg_heap s ! a = override_ttl secs (h0 ! a)))
     \<and> (\<forall>t reply. mg_pc s t = MSent reply \<longrightarrow>
          reply = (load_msg h0 (msgs t))\<lparr>msg_answer := map (override_ttl secs) (msg_answer (load_msg h0 (msgs t)))\<rparr>)"

lemma merged_step_inv:
  assumes "merged_step q secs msgs s s'" and inv: "merged_inv secs msgs h0 s"
    and bound: "\<And>t. \<forall>a \<in> set (mr_answer (msgs t)). a < length h0"
  shows "merged_inv secs msgs h0 s'"
  using assms(1)
proof cases
  case (put t now)
  then show ?thesis using inv by (simp add: merged_inv_def)
next
  case (override t)
  have "mg_heap s' ! a = h0 ! a \<or> mg_heap s' ! a = override_ttl secs (h0 ! a)" if "a < length h0" for a
    using inv that unfolding override merged_inv_def by (auto simp: override_in_place_nth)
  moreover have "mg_heap s' ! a = override_ttl secs (h0 ! a)" if u: "mg_pc s' u = MOverridden" "a \<in> set (mr_answer (msgs u))" for u a
  proof -
    have a: "a < length h0" "a < length (mg_heap s)" using bound u(2) inv by (auto simp: merged_inv_def)
    show ?thesis
    proof (cases "u = t")
      case True
      then show ?thesis using inv a u unfolding override merged_inv_def by (auto simp: override_in_place_nth)
    next
      case False
      then have "mg_heap s ! a = override_ttl secs (h0 ! a)" using inv u unfolding override merged_inv_def by auto
      then show ?thesis using a unfolding override by (simp add: override_in_place_nth)
    qed
  qed
  moreover have "length (mg_heap s') = length h0" using inv unfolding override by (simp add: merged_inv_def override_in_place_nth)
  ultimately show ?thesis using inv unfolding merged_inv_def override by auto
next
  case (send t)
  have "map (\<lambda>a. mg_heap s ! a) (mr_answer (msgs t)) = map (override_ttl secs) (map (\<lambda>a. h0 ! a) (mr_answer (msgs t)))"
    using inv send(2) by (auto simp: merged_inv_def)
  then have "load_msg (mg_heap s) (msgs t) = (load_msg h0 (msgs t))\<lparr>msg_answer := map (override_ttl secs) (msg_answer (load_msg h0 (msgs t)))\<rparr>"
    by (simp add: load_msg_def)
  then show ?thesis using inv unfolding merged_inv_def send by auto
qed

lemma merged_steps_inv:
  "(merged_step q secs msgs)\<^sup>*\<^sup>* s s' \<Longrightarrow> merged_inv secs msgs h0 s \<Longrightarrow> (\<And>t. \<forall>a \<in> set (mr_answer (msgs t)). a < length h0)
     \<Longrightarrow> merged_inv secs msgs h0 s'"
proof (induction rule: rtranclp_induct)
  case (step y z)
  then show ?case using merged_step_inv [of q secs msgs y z h0] by blast
qed simp

text \<open>C30: Calls merged into one share the records of one answer, and each writes its TTLs on the way out: still, in any
  interleaving, every client is sent exactly what the answer of its call gives when it is overridden alone.\<close>

theorem merged_replies_overridden:
  assumes "mg_heap s0 = h0" and "\<forall>t. mg_pc s0 t = MGot" and "\<forall>t. \<forall>a \<in> set (mr_answer (msgs t)). a < length h0"
    and "(merged_step q secs msgs)\<^sup>*\<^sup>* s0 s" and "mg_pc s t = MSent reply"
  shows "reply = (load_msg h0 (msgs t))\<lparr>msg_answer := map (override_ttl secs) (msg_answer (load_msg h0 (msgs t)))\<rparr>"
proof -
  have "merged_inv secs msgs h0 s0" using assms(1,2) by (simp add: merged_inv_def)
  from merged_steps_inv [OF assms(4) this] assms(3) have "merged_inv secs msgs h0 s" by blast
  then show ?thesis using assms(5) unfolding merged_inv_def by blast
qed

definition a_record :: "rr \<Rightarrow> bool" where
  "a_record r = (case r of RR_A h a \<Rightarrow> True | _ \<Rightarrow> False)"

lemma override_long: "a_record r \<Longrightarrow> secs < rr_ttl r \<Longrightarrow> rr_ttl (override_ttl secs r) = secs"
  by (cases r) (auto simp: a_record_def min_def)

lemma u32_small: "uint (k :: u32) < max_int"
  by (rule less_trans [OF unsigned_less]) (simp add: max_int_def)

lemma min_positive_ttl_const:
  assumes "rs \<noteq> []" and "\<forall>r \<in> set rs. rr_ttl r = k" and "0 < k"
  shows "min_positive_ttl rs max_int = uint k"
proof -
  have k: "0 < uint k" "uint k < max_int" using assms(3) u32_small by (simp_all add: word_less_def)
  obtain r where r: "r \<in> set rs" using assms(1) by (cases rs) auto
  then have "min_positive_ttl rs max_int \<le> uint k" using min_positive_ttl_lower [of r rs max_int] assms(2) k by simp
  with min_positive_ttl_attained [of rs max_int] assms(2) k show ?thesis by auto
qed

lemma min_positive_ttl_above:
  assumes "rs \<noteq> []" and "\<forall>r \<in> set rs. k < rr_ttl r"
  shows "uint k < min_positive_ttl rs max_int \<and> min_positive_ttl rs max_int < max_int"
proof -
  have pos: "uint k < uint (rr_ttl r) \<and> 0 < uint (rr_ttl r)" if "r \<in> set rs" for r
    using assms(2) that by (metis le_less_trans uint_ge_0 word_less_def)
  obtain r where r: "r \<in> set rs" using assms(1) by (cases rs) auto
  have "min_positive_ttl rs max_int \<le> uint (rr_ttl r)" using min_positive_ttl_lower [OF r] pos [OF r] by blast
  also have "\<dots> < max_int" by (rule u32_small)
  finally have "min_positive_ttl rs max_int < max_int" .
  with min_positive_ttl_attained [of rs max_int] pos show ?thesis by auto
qed

text \<open>C31: When the call that asked has stored the answer and overridden its TTLs before a call that waited comes to the
  cache, the second store reads the overridden records: the entry now ends with the override although every record
  of the answer lives longer, and it is the waiting call's copy, without the rest of the answer.\<close>

theorem shared_records_cut_cache:
  assumes "mg_pc s t = MGot" and "mg_pc s u = MGot" and "t \<noteq> u" and "mr_answer (msgs u) = mr_answer (msgs t)"
    and "mr_answer (msgs t) \<noteq> []" and "\<forall>a \<in> set (mr_answer (msgs t)). a < length (mg_heap s)"
    and "\<forall>a \<in> set (mr_answer (msgs t)). a_record (mg_heap s ! a) \<and> secs < rr_ttl (mg_heap s ! a)" and "0 < secs"
  shows "\<exists>s1 s2 e1 e2. merged_step q secs msgs s s1 \<and> (merged_step q secs msgs)\<^sup>*\<^sup>* s1 s2
    \<and> gm_get (dc_entries (mg_cache s1)) q = Some e1 \<and> now + uint secs * second < ce_expires e1
    \<and> gm_get (dc_entries (mg_cache s2)) q = Some e2 \<and> ce_expires e2 = now + uint secs * second
    \<and> msg_other (ce_result e1) = mr_other (msgs t) \<and> msg_other (ce_result e2) = mr_other (msgs u)"
proof -
  let ?as = "mr_answer (msgs t)"
  let ?s1 = "s\<lparr>mg_cache := cache_put now (mg_cache s) q (load_msg (mg_heap s) (msgs t)), mg_pc := (mg_pc s)(t := MCached)\<rparr>"
  let ?h = "override_in_place secs (msgs t) (mg_heap s)"
  let ?s2 = "?s1\<lparr>mg_heap := ?h, mg_pc := (mg_pc ?s1)(t := MOverridden)\<rparr>"
  let ?s3 = "?s2\<lparr>mg_cache := cache_put now (mg_cache ?s2) q (load_msg (mg_heap ?s2) (msgs u)), mg_pc := (mg_pc ?s2)(u := MCached)\<rparr>"
  have 1: "merged_step q secs msgs s ?s1" by (rule merged_step.put [OF assms(1)])
  have 2: "merged_step q secs msgs ?s1 ?s2" using merged_step.override [of ?s1 t q secs msgs] by simp
  have 3: "merged_step q secs msgs ?s2 ?s3" using merged_step.put [of ?s2 u q secs msgs now] assms(2,3) by simp
  have run: "(merged_step q secs msgs)\<^sup>*\<^sup>* ?s1 ?s3" by (rule converse_rtranclp_into_rtranclp [OF 2 r_into_rtranclp [of "merged_step q secs msgs", OF 3]])
  have "uint secs < min_positive_ttl (map (\<lambda>a. mg_heap s ! a) ?as) max_int \<and> min_positive_ttl (map (\<lambda>a. mg_heap s ! a) ?as) max_int < max_int"
    using assms(5,7) by (intro min_positive_ttl_above) auto
  then have e1: "gm_get (dc_entries (mg_cache ?s1)) q = Some \<lparr>ce_result = load_msg (mg_heap s) (msgs t),
      ce_expires = now + min_positive_ttl (map (\<lambda>a. mg_heap s ! a) ?as) max_int * second\<rparr>"
    "uint secs * second < min_positive_ttl (map (\<lambda>a. mg_heap s ! a) ?as) max_int * second"
    using assms(5) by (simp_all add: cache_put_def load_msg_def Let_def second_def)
  have "rr_ttl (?h ! a) = secs" if "a \<in> set ?as" for a
    using assms(6,7) that by (simp add: override_in_place_nth override_long)
  then have "min_positive_ttl (map (\<lambda>a. ?h ! a) ?as) max_int = uint secs"
    using assms(5,8) by (intro min_positive_ttl_const) auto
  moreover note u32_small [of secs]
  ultimately have e2: "gm_get (dc_entries (mg_cache ?s3)) q = Some \<lparr>ce_result = load_msg ?h (msgs u), ce_expires = now + uint secs * second\<rparr>"
    using assms(4,5) by (simp add: cache_put_def load_msg_def Let_def)
  have other: "msg_other (load_msg h m) = mr_other m" for h m by (simp add: load_msg_def)
  show ?thesis
    by (rule exI [of _ ?s1], rule exI [of _ ?s3], rule exI, rule exI) (intro conjI; (rule 1 run e1(1) e2)?; use e1(2) in \<open>simp add: other\<close>)
qed

definition sample_ref :: "nat \<Rightarrow> msg_ref" where
  "sample_ref t = \<lparr>mr_id = of_nat t, mr_response = True, mr_rcode = 0, mr_question = [sample_question], mr_answer = [0],
     mr_other = (if t = 0 then ''authority'' else [])\<rparr>"

definition sample_merged :: merged where
  "sample_merged = \<lparr>mg_heap = [sample_answer 3600], mg_cache = new_dns_cache, mg_pc = (\<lambda>t. MGot)\<rparr>"

theorem merged_replies_overridden_witness:
  "\<exists>s reply. (merged_step sample_question 60 sample_ref)\<^sup>*\<^sup>* sample_merged s \<and> mg_pc s 1 = MSent reply \<and> msg_answer reply = [sample_answer 60]"
proof -
  let ?R = "merged_step sample_question 60 sample_ref"
  let ?s1 = "sample_merged\<lparr>mg_cache := cache_put 0 (mg_cache sample_merged) sample_question (load_msg (mg_heap sample_merged) (sample_ref 1)),
      mg_pc := (mg_pc sample_merged)(1 := MCached)\<rparr>"
  let ?s2 = "?s1\<lparr>mg_heap := override_in_place 60 (sample_ref 1) (mg_heap ?s1), mg_pc := (mg_pc ?s1)(1 := MOverridden)\<rparr>"
  let ?s3 = "?s2\<lparr>mg_pc := (mg_pc ?s2)(1 := MSent (load_msg (mg_heap ?s2) (sample_ref 1)))\<rparr>"
  have 1: "?R sample_merged ?s1" by (rule merged_step.put) (simp add: sample_merged_def)
  have 2: "?R ?s1 ?s2" by (rule merged_step.override) simp
  have 3: "?R ?s2 ?s3" by (rule merged_step.send) simp
  have run: "?R\<^sup>*\<^sup>* sample_merged ?s3"
    by (rule converse_rtranclp_into_rtranclp [of ?R, OF 1 converse_rtranclp_into_rtranclp [of ?R, OF 2 r_into_rtranclp [of ?R, OF 3]]])
  have sent: "mg_pc ?s3 1 = MSent (load_msg (mg_heap ?s2) (sample_ref 1))" by simp
  have start: "mg_heap sample_merged = [sample_answer 3600]" "\<forall>t. mg_pc sample_merged t = MGot"
    "\<forall>t. \<forall>a \<in> set (mr_answer (sample_ref t)). a < length [sample_answer 3600]"
    by (simp_all add: sample_merged_def sample_ref_def)
  have "msg_answer (load_msg (mg_heap ?s2) (sample_ref 1)) = [sample_answer 60]"
    unfolding merged_replies_overridden [OF start run sent] by (simp add: load_msg_def sample_ref_def sample_answer_def)
  then show ?thesis using run sent by (intro exI [of _ ?s3]) simp
qed

theorem shared_records_cut_cache_witness:
  "\<exists>s1 s2 e1 e2. merged_step sample_question 60 sample_ref sample_merged s1 \<and> (merged_step sample_question 60 sample_ref)\<^sup>*\<^sup>* s1 s2
    \<and> gm_get (dc_entries (mg_cache s1)) sample_question = Some e1 \<and> 60 * second < ce_expires e1
    \<and> gm_get (dc_entries (mg_cache s2)) sample_question = Some e2 \<and> ce_expires e2 = 60 * second
    \<and> msg_other (ce_result e1) = ''authority'' \<and> msg_other (ce_result e2) = ''''"
proof -
  have pcs: "mg_pc sample_merged 0 = MGot" "mg_pc sample_merged 1 = MGot" "(0::nat) \<noteq> 1" "mr_answer (sample_ref 1) = mr_answer (sample_ref 0)"
    "mr_answer (sample_ref 0) \<noteq> []"
    by (simp_all add: sample_merged_def sample_ref_def)
  have recs: "\<forall>a \<in> set (mr_answer (sample_ref 0)). a < length (mg_heap sample_merged)"
    "\<forall>a \<in> set (mr_answer (sample_ref 0)). a_record (mg_heap sample_merged ! a) \<and> 60 < rr_ttl (mg_heap sample_merged ! a)" "(0::u32) < 60"
    by (simp_all add: sample_merged_def sample_ref_def sample_answer_def a_record_def word_less_def)
  have other: "mr_other (sample_ref 0) = ''authority''" "mr_other (sample_ref 1) = ''''" by (simp_all add: sample_ref_def)
  show ?thesis
    using shared_records_cut_cache [OF pcs recs, of sample_question 0] unfolding other by simp
qed

end
