(* ===== verification/Network.thy ===== *)
theory Network
  imports IPRoutes
begin

text \<open>
  The controller, the agent and the \<open>ip\<close> command of the router together. \<open>keeps_router\<close> is what the
  controller relies on: a router that keeps one table of directly connected routes, as the kernel
  does, which refuses a second route to the same destination; \<open>ip_router\<close> is the documented behaviour of
  the \<open>ip\<close> command that gives it through the agent.
\<close>

subsection \<open>A router behind the interface\<close>

definition route_ok :: "int \<Rightarrow> ip_route \<Rightarrow> bool" where
  "route_ok t r \<longleftrightarrow> rt_table r = t \<and> 0 \<le> t \<and> t < 2 ^ 32 \<and> ipv4_ok (rt_addr r) \<and> word_ok (rt_iface r)"

text \<open>A destination the kernel accepts: a host, or a network with no host bits set.\<close>

fun destination_ok :: "ipv4 \<Rightarrow> bool" where
  "destination_ok (IPv4 a b c d p) \<longleftrightarrow> 0 < p \<and> p \<le> 32
     \<and> (((unat a * 256 + unat b) * 256 + unat c) * 256 + unat d) mod 2 ^ (32 - unat p) = 0"

definition acceptable :: "int \<Rightarrow> ip_route \<Rightarrow> bool" where
  "acceptable t r \<longleftrightarrow> route_ok t r \<and> destination_ok (rt_addr r)"

text \<open>No route of the table has the same destination.\<close>

definition dest_free :: "ip_route set \<Rightarrow> ip_route \<Rightarrow> bool" where
  "dest_free T r \<longleftrightarrow> rt_addr r \<notin> rt_addr ` T"

text \<open>
  \<open>tbl w\<close> are the routes of table \<open>t\<close> in state \<open>w\<close> of the router, \<open>has w\<close> whether it has the rule.
  The table is listed exactly; a route is added unless its destination is taken; a listed route can be
  deleted; asking for the rule answers rightly, and adding a rule that is not there installs it.
\<close>

definition keeps_router ::
  "('w, 'e) network_client \<Rightarrow> ip_routing_rule \<Rightarrow> ('w \<Rightarrow> ip_route set) \<Rightarrow> ('w \<Rightarrow> bool) \<Rightarrow> bool"
where
  "keeps_router nc rule tbl has \<longleftrightarrow>
     (\<forall>w. (\<forall>r \<in> tbl w. route_ok (rule_table rule) r)
        \<and> (\<exists>rs w'. nc_list_routes nc (of_int (rule_table rule)) w = (Inr rs, w') \<and> tbl w' = tbl w \<and> has w' = has w
              \<and> set rs = map_to_agent_route ` tbl w)
        \<and> (\<forall>r. acceptable (rule_table rule) r \<longrightarrow>
              (case nc_add_route nc (map_to_agent_route r) w of (res, w') \<Rightarrow>
                 has w' = has w \<and> (if dest_free (tbl w) r then tbl w' = insert r (tbl w) \<and> res = Inr ()
                                   else tbl w' = tbl w \<and> res \<noteq> Inr ())))
        \<and> (\<forall>r \<in> tbl w.
              (case nc_delete_route nc (map_to_agent_route r) w of (res, w') \<Rightarrow>
                 has w' = has w \<and> tbl w' = tbl w - {r} \<and> res = Inr ()))
        \<and> (case nc_has_rule nc (map_to_agent_rule rule) w of (res, w') \<Rightarrow>
              res = Inr (has w) \<and> tbl w' = tbl w \<and> has w' = has w)
        \<and> (\<not> has w \<longrightarrow> (case nc_add_rule nc (map_to_agent_rule rule) w of (res, w') \<Rightarrow> tbl w' = tbl w \<and> has w')))"

lemma keeps_routerD:
  assumes "keeps_router nc rule tbl has"
  shows "r \<in> tbl w \<Longrightarrow> route_ok (rule_table rule) r"
    and "\<exists>rs w'. nc_list_routes nc (of_int (rule_table rule)) w = (Inr rs, w') \<and> tbl w' = tbl w \<and> has w' = has w
           \<and> set rs = map_to_agent_route ` tbl w"
    and "acceptable (rule_table rule) r \<Longrightarrow> nc_add_route nc (map_to_agent_route r) w = (res, w')
           \<Longrightarrow> has w' = has w \<and> (if dest_free (tbl w) r then tbl w' = insert r (tbl w) \<and> res = Inr ()
                                 else tbl w' = tbl w \<and> res \<noteq> Inr ())"
    and "r \<in> tbl w \<Longrightarrow> nc_delete_route nc (map_to_agent_route r) w = (res, w')
           \<Longrightarrow> has w' = has w \<and> tbl w' = tbl w - {r} \<and> res = Inr ()"
    and "nc_has_rule nc (map_to_agent_rule rule) w = (hr, w') \<Longrightarrow> hr = Inr (has w) \<and> tbl w' = tbl w \<and> has w' = has w"
    and "\<not> has w \<Longrightarrow> nc_add_rule nc (map_to_agent_rule rule) w = (res, w') \<Longrightarrow> tbl w' = tbl w \<and> has w'"
proof -
  note all = assms [unfolded keeps_router_def, THEN spec [of _ w]]
  note all2 = conjunct2 [OF all] note all3 = conjunct2 [OF all2]
  note all4 = conjunct2 [OF all3] note all5 = conjunct2 [OF all4]
  show "route_ok (rule_table rule) r" if "r \<in> tbl w" using bspec [OF conjunct1 [OF all] that] .
  show "\<exists>rs w'. nc_list_routes nc (of_int (rule_table rule)) w = (Inr rs, w') \<and> tbl w' = tbl w \<and> has w' = has w
           \<and> set rs = map_to_agent_route ` tbl w"
    by (rule conjunct1 [OF all2])
  show "has w' = has w \<and> (if dest_free (tbl w) r then tbl w' = insert r (tbl w) \<and> res = Inr () else tbl w' = tbl w \<and> res \<noteq> Inr ())"
    if "acceptable (rule_table rule) r" and call: "nc_add_route nc (map_to_agent_route r) w = (res, w')"
    using mp [OF spec [OF conjunct1 [OF all3]] that(1)] unfolding call prod.case .
  show "has w' = has w \<and> tbl w' = tbl w - {r} \<and> res = Inr ()"
    if "r \<in> tbl w" and call: "nc_delete_route nc (map_to_agent_route r) w = (res, w')"
    using bspec [OF conjunct1 [OF all4] that(1)] unfolding call prod.case .
  show "hr = Inr (has w) \<and> tbl w' = tbl w \<and> has w' = has w" if call: "nc_has_rule nc (map_to_agent_rule rule) w = (hr, w')"
    using conjunct1 [OF all5] unfolding call prod.case .
  show "tbl w' = tbl w \<and> has w'" if "\<not> has w" and call: "nc_add_rule nc (map_to_agent_rule rule) w = (res, w')"
    using mp [OF conjunct2 [OF all5] that(1)] unfolding call prod.case .
qed

subsection \<open>One reconciliation against it\<close>

lemma load_route_back: "route_ok t r \<Longrightarrow> load_route d (map_to_agent_route r) = Inr (fst (set_add d r))"
proof -
  assume ok: "route_ok t r"
  then have "uint (of_int (rt_table r) :: u32) = rt_table r"
    by (simp add: route_ok_def uint_word_of_int_eq take_bit_int_eq_self)
  moreover have "parse_ipv4 (ipv4_string (rt_addr r)) = Inr (Inr (rt_addr r))"
    using ok by (intro parse_ipv4_string) (simp add: route_ok_def)
  ultimately show ?thesis by (cases r) (simp add: load_route_def map_to_agent_route_def)
qed

lemma load_all_back:
  assumes "\<forall>r \<in> rs'. route_ok t r" and "set rs \<subseteq> map_to_agent_route ` rs'" and "set_inv d"
  shows "\<exists>d'. fold_res load_route d rs = Inr d' \<and> set_inv d'
     \<and> set_elems d' = set_elems d \<union> {r \<in> rs'. map_to_agent_route r \<in> set rs}"
  using assms(2,3)
proof (induction rs arbitrary: d)
  case (Cons it rs)
  then obtain r where r: "r \<in> rs'" "it = map_to_agent_route r" by auto
  have step: "load_route d it = Inr (fst (set_add d r))" using assms(1) r load_route_back by blast
  have same: "r' = r" if "r' \<in> rs'" "map_to_agent_route r' = map_to_agent_route r" for r'
  proof -
    have "fst (set_add None r') = fst (set_add None r)"
      using load_route_back [of t r' None] load_route_back [of t r None] that r assms(1) by simp
    then show ?thesis by (simp add: set_add_def)
  qed
  from Cons.IH [of "fst (set_add d r)"] Cons.prems obtain d' where
    "fold_res load_route (fst (set_add d r)) rs = Inr d'" "set_inv d'"
    "set_elems d' = insert r (set_elems d) \<union> {r \<in> rs'. map_to_agent_route r \<in> set rs}"
    by auto
  with step r same show ?case by auto
qed simp

lemma load_routes_table:
  assumes "keeps_router nc rule tbl has"
  shows "\<exists>d w'. load_routes nc (rule_table rule) w = Inr (d, w') \<and> tbl w' = tbl w \<and> has w' = has w
     \<and> set_inv d \<and> set_elems d = tbl w"
proof -
  from keeps_routerD(2) [OF assms, of w] obtain rs w'
    where list: "nc_list_routes nc (of_int (rule_table rule)) w = (Inr rs, w')" "tbl w' = tbl w" "has w' = has w"
      "set rs = map_to_agent_route ` tbl w"
    by blast
  have "set_inv (Some ([] :: ip_route list))" "set_elems (Some ([] :: ip_route list)) = {}"
    by (simp_all add: set_inv_def set_elems_def set_entries_def)
  moreover have "\<forall>r \<in> tbl w. route_ok (rule_table rule) r" using keeps_routerD(1) [OF assms] by blast
  moreover have "{r \<in> tbl w. map_to_agent_route r \<in> set rs} = tbl w" using list(4) by blast
  ultimately obtain d'
    where "fold_res load_route (Some []) rs = Inr d'" "set_inv d'" "set_elems d' = tbl w"
    using load_all_back [of "tbl w" "rule_table rule" rs "Some []"] list(4) by auto
  with list show ?thesis by (simp add: load_routes_def)
qed

text \<open>The additions that go through: those whose destination was free.\<close>

lemma fold_add_table:
  assumes "keeps_router nc rule tbl has" and "\<forall>r \<in> set rs. acceptable (rule_table rule) r"
    and "inj_on rt_addr (set rs)" and "set_inv (ic_routes s)"
  shows "\<exists>s' w'. fold (ctl_add_route_rpc nc) rs (s, w) = (s', w') \<and> has w' = has w
     \<and> tbl w' = tbl w \<union> {r \<in> set rs. dest_free (tbl w) r}
     \<and> set_elems (ic_routes s') = set_elems (ic_routes s) \<union> {r \<in> set rs. dest_free (tbl w) r}"
  using assms(2-4)
proof (induction rs arbitrary: s w)
  case (Cons r rs)
  obtain s1 w1 where 1: "ctl_add_route_rpc nc r (s, w) = (s1, w1)" by fastforce
  obtain res w2 where call: "nc_add_route nc (map_to_agent_route r) w = (res, w2)" by fastforce
  from Cons.prems(1) have "acceptable (rule_table rule) r" by simp
  note tbl = keeps_routerD(3) [OF assms(1) this call]
  from add_route_rpc_routes [OF 1 call] tbl Cons.prems(3)
  have s1: "w1 = w2" "set_inv (ic_routes s1)"
      "set_elems (ic_routes s1) = set_elems (ic_routes s) \<union> {r' \<in> {r}. dest_free (tbl w) r'}"
    by (auto split: if_splits)
  have t1: "tbl w1 = tbl w \<union> {r' \<in> {r}. dest_free (tbl w) r'}" "has w1 = has w"
    using tbl s1(1) by (auto split: if_splits)
  have "\<forall>r \<in> set rs. acceptable (rule_table rule) r" "inj_on rt_addr (set rs)" using Cons.prems by auto
  from Cons.IH [OF this s1(2), of w1] obtain s' w' where
    2: "fold (ctl_add_route_rpc nc) rs (s1, w1) = (s', w')" "has w' = has w1" "tbl w' = tbl w1 \<union> {r \<in> set rs. dest_free (tbl w1) r}"
    "set_elems (ic_routes s') = set_elems (ic_routes s1) \<union> {r \<in> set rs. dest_free (tbl w1) r}" by blast
  have free: "dest_free (tbl w1) r' \<longleftrightarrow> dest_free (tbl w) r'" if "r' \<in> set rs" "r' \<noteq> r" for r'
  proof -
    have "rt_addr r' \<noteq> rt_addr r" using that Cons.prems(2) by (auto simp: inj_on_def)
    then show ?thesis by (auto simp: dest_free_def t1)
  qed
  have "{r' \<in> {r}. dest_free (tbl w) r'} \<union> {r' \<in> set rs. dest_free (tbl w1) r'} = {r' \<in> set (r # rs). dest_free (tbl w) r'}"
    using free by (auto simp: t1 dest_free_def)
  with 1 2 s1(3) t1 show ?case by (intro exI [of _ s'] exI [of _ w']) auto
qed simp

lemma fold_delete_table:
  assumes "keeps_router nc rule tbl has" and "set rs \<subseteq> tbl w" and "distinct rs" and "set_inv (ic_routes s)"
  shows "\<exists>s' w'. fold (ctl_delete_route nc) rs (s, w) = (s', w') \<and> has w' = has w
     \<and> tbl w' = tbl w - set rs \<and> set_elems (ic_routes s') = set_elems (ic_routes s) - set rs"
  using assms(2-4)
proof (induction rs arbitrary: s w)
  case (Cons r rs)
  obtain s1 w1 where 1: "ctl_delete_route nc r (s, w) = (s1, w1)" by fastforce
  obtain res w2 where call: "nc_delete_route nc (map_to_agent_route r) w = (res, w2)" by fastforce
  from keeps_routerD(4) [OF assms(1) _ call] Cons.prems(1)
  have tbl: "has w2 = has w" "tbl w2 = tbl w - {r}" "res = Inr ()" by auto
  from delete_route_state [where nc = nc and r = r and s = s and w = w] 1 call tbl Cons.prems(3)
  have s1: "w1 = w2" "set_inv (ic_routes s1)" "set_elems (ic_routes s1) = set_elems (ic_routes s) - {r}"
    by auto
  have "set rs \<subseteq> tbl w1" "distinct rs" using Cons.prems s1 tbl by auto
  from Cons.IH [OF this s1(2)] 1 s1 tbl show ?case by auto
qed simp

lemma reconcile_routes_table:
  assumes "keeps_router nc (rc_rule cfg) tbl has" and "choice_ok ch" and "set_inv (ic_routes s)" and "store_inv (ic_store s)"
    and W: "W = wanted_set (rch_clock ch) cfg s" and "\<forall>r \<in> W. acceptable (rule_table (rc_rule cfg)) r" and "inj_on rt_addr W"
  shows "\<exists>s' w'. reconcile_routes nc ch cfg (s, w) = Inr (s', w')
     \<and> same_but_routes s s' \<and> set_inv (ic_routes s') \<and> has w' = has w
     \<and> tbl w' = (tbl w \<inter> W) \<union> {r \<in> W. dest_free (tbl w) r}
     \<and> set_elems (ic_routes s') = (set_elems (ic_routes s) \<union> {r \<in> W. dest_free (tbl w) r}) - (tbl w - W)"
proof -
  let ?wanted = "wanted_routes ch cfg s"
  have set_w: "set ?wanted = W" unfolding W using wanted_routes_set assms(2,4) by blast
  from load_routes_table [OF assms(1), of w] obtain d w1
    where load: "load_routes nc (rule_table (rc_rule cfg)) w = Inr (d, w1)" "tbl w1 = tbl w" "has w1 = has w"
      "set_inv d" "set_elems d = tbl w" by blast
  let ?adds = "filter (\<lambda>r. \<not> set_has d r) ?wanted"
  let ?unknown = "fold (\<lambda>r u. set_remove u r) (filter (set_has d) ?wanted) d"
  let ?dels = "set_values (rch_unknown ch) ?unknown"
  have adds: "set ?adds = W - tbl w" using load(4,5) by (auto simp: set_w [symmetric])
  have dels: "set ?dels = tbl w - W" "distinct ?dels"
    using fold_set_remove [OF load(4), of "filter (set_has d) ?wanted"] load(4,5) assms(2)
    by (auto simp: set_values_set set_values_distinct choice_ok_def set_w [symmetric])
  have "\<forall>r \<in> set ?adds. acceptable (rule_table (rc_rule cfg)) r" "inj_on rt_addr (set ?adds)"
    using adds assms(6,7) by (auto intro: inj_on_subset)
  from fold_add_table [OF assms(1) this assms(3), of w1] obtain s1 w2
    where 1: "fold (ctl_add_route_rpc nc) ?adds (s, w1) = (s1, w2)" "has w2 = has w1"
      "tbl w2 = tbl w1 \<union> {r \<in> set ?adds. dest_free (tbl w1) r}"
      "set_elems (ic_routes s1) = set_elems (ic_routes s) \<union> {r \<in> set ?adds. dest_free (tbl w1) r}" by blast
  note a = fold_add_state [OF 1(1) assms(3)]
  have sub: "set ?dels \<subseteq> tbl w2" using dels(1) 1(3) load(2) by blast
  from a have inv1: "set_inv (ic_routes s1)" by blast
  from fold_delete_table [OF assms(1) sub dels(2) inv1] obtain s2 w3
    where 2: "fold (ctl_delete_route nc) ?dels (s1, w2) = (s2, w3)" "has w3 = has w2" "tbl w3 = tbl w2 - set ?dels"
      "set_elems (ic_routes s2) = set_elems (ic_routes s1) - set ?dels" by blast
  note b = fold_delete_state [OF 2(1) inv1]
  have free: "{r \<in> set ?adds. dest_free (tbl w1) r} = {r \<in> W. dest_free (tbl w) r}"
    unfolding adds load(2) by (auto simp: dest_free_def)
  have disj: "{r \<in> W. dest_free (tbl w) r} \<inter> (tbl w - W) = {}" by blast
  have "set_elems (ic_routes s2) = (set_elems (ic_routes s) \<union> {r \<in> W. dest_free (tbl w) r}) - (tbl w - W)"
    unfolding 2(4) 1(4) free dels(1) by (rule refl)
  moreover have "tbl w3 = (tbl w \<inter> W) \<union> {r \<in> W. dest_free (tbl w) r}"
    unfolding 2(3) 1(3) free dels(1) unfolding load(2) by blast
  moreover have "reconcile_routes nc ch cfg (s, w) = Inr (s2, w3)"
    unfolding reconcile_routes_passes load(1) sum.case prod.case 1(1) 2(1) by (rule refl)
  moreover have "same_but_routes s s2" "set_inv (ic_routes s2)" "has w3 = has w"
    using a b 1(2) 2(2) load(3) by (auto intro: same_but_routes_trans)
  ultimately show ?thesis by blast
qed

text \<open>The rule is there after \<open>reconcileRules\<close>, which changes nothing else.\<close>

lemma reconcile_rules_rule:
  assumes "keeps_router nc (rc_rule cfg) tbl has"
  shows "\<exists>w'. reconcile_rules nc cfg (s, w) = (s, w') \<and> tbl w' = tbl w \<and> has w'"
proof -
  obtain hr w1 where call: "nc_has_rule nc (map_to_agent_rule (rc_rule cfg)) w = (hr, w1)" by fastforce
  note h = keeps_routerD(5) [OF assms call]
  obtain res w2 where add: "nc_add_rule nc (map_to_agent_rule (rc_rule cfg)) w1 = (res, w2)" by fastforce
  show ?thesis
  proof (cases "has w")
    case True
    with call h show ?thesis by (simp add: reconcile_rules_def)
  next
    case False
    with h have "\<not> has w1" by simp
    from keeps_routerD(6) [OF assms this add] False call add h show ?thesis
      by (simp add: reconcile_rules_def ctl_add_rule_def)
  qed
qed

subsection \<open>Reconciling until the table is right\<close>

definition purged :: "reconcile_choice \<Rightarrow> ip_ctl \<Rightarrow> ip_ctl" where
  "purged ch s = s\<lparr>ic_store := store_remove_expired (rch_purge_order ch) (rch_purge_clock ch) (ic_store s)
     (rd_route_timeout (rc_dynamic (ic_cfg s)))\<rparr>"

text \<open>What the controller wants in the table when it reconciles with \<open>ch\<close>.\<close>

definition wants :: "reconcile_choice \<Rightarrow> ip_ctl \<Rightarrow> ip_route set" where
  "wants ch s = wanted_set (rch_clock ch) (ic_cfg s) (purged ch s)"

lemma purged_sel [simp]:
  "ic_cfg (purged ch s) = ic_cfg s" "ic_routes (purged ch s) = ic_routes s"
  by (simp_all add: purged_def)

lemma purged_inv: "choice_ok ch \<Longrightarrow> store_inv (ic_store s) \<Longrightarrow> store_inv (ic_store (purged ch s))"
  by (simp add: purged_def choice_ok_def store_get_remove_expired(1))

lemma ctl_reconcile_table:
  assumes "keeps_router nc (rc_rule (ic_cfg s)) tbl has" and "choice_ok ch" and "set_inv (ic_routes s)" and "store_inv (ic_store s)"
    and "\<forall>r \<in> wants ch s. acceptable (rule_table (rc_rule (ic_cfg s))) r" and "inj_on rt_addr (wants ch s)"
  shows "\<exists>s' w'. ctl_reconcile nc ch (s, w) = Inr (s', w')
     \<and> same_but_routes (purged ch s) s' \<and> set_inv (ic_routes s') \<and> has w'
     \<and> tbl w' = (tbl w \<inter> wants ch s) \<union> {r \<in> wants ch s. dest_free (tbl w) r}
     \<and> set_elems (ic_routes s') = (set_elems (ic_routes s) \<union> {r \<in> wants ch s. dest_free (tbl w) r}) - (tbl w - wants ch s)"
proof -
  from reconcile_rules_rule [OF assms(1), of "purged ch s" w] obtain w1 where
    1: "reconcile_rules nc (ic_cfg s) (purged ch s, w) = (purged ch s, w1)" "tbl w1 = tbl w" "has w1" by blast
  from reconcile_routes_table [where s = "purged ch s" and w = w1 and W = "wants ch s", OF assms(1,2)]
    assms(3,5,6) purged_inv [OF assms(2,4)] 1(2,3)
  show ?thesis
    by (simp add: wants_def ctl_reconcile_def Let_def purged_def [symmetric] 1(1))
qed

text \<open>The second time the same routes are wanted, unless records expire in between.\<close>

lemma wants_again:
  assumes "same_but_routes (purged ch s) s'"
    and "set_elems (ic_routes s') = (set_elems (ic_routes s) \<union> {r \<in> wants ch s. dest_free T r}) - (T - wants ch s)"
    and again: "wants ch' (purged ch s) = wants ch s"
  shows "wants ch' s' = wants ch s"
proof -
  note eq = same_but_routesD [OF assms(1)]
  have w: "wants ch' s0 = {r \<in> set_elems (ic_routes s0).
      has_live_record (rch_clock ch' r) (rd_route_timeout (rc_dynamic (ic_cfg s0))) (ic_store (purged ch' s0)) (rt_addr r)} \<union> static_set (ic_cfg s0)" for s0
    by (simp add: wants_def wanted_set_def)
  have store: "ic_store (purged ch' s') = ic_store (purged ch' (purged ch s))" and cfg: "ic_cfg s' = ic_cfg s"
    using eq by (simp_all add: purged_def)
  show ?thesis
    unfolding again [symmetric] w store cfg purged_sel assms(2)
    unfolding again [unfolded w purged_sel, symmetric] by blast
qed

subsection \<open>The agent and the \<open>ip\<close> command\<close>

text \<open>
  What the command documents, for the table and the rule of \<open>rule\<close>: it prints one line per route or
  rule, refuses a route whose destination the table has, and otherwise does what it is told. The interfaces
  it is given are assumed to exist on the router (the real command refuses one it does not know).
\<close>

definition ip_router :: "'w ip_cmd \<Rightarrow> ip_routing_rule \<Rightarrow> ('w \<Rightarrow> ip_route set) \<Rightarrow> ('w \<Rightarrow> bool) \<Rightarrow> bool" where
  "ip_router ip rule tbl has \<longleftrightarrow>
     0 \<le> rule_table rule \<and> rule_table rule < 2 ^ 32 \<and> 0 \<le> rule_priority rule \<and> rule_priority rule < 2 ^ 32
     \<and> word_ok (rule_iif rule)
     \<and> (\<forall>w. (\<forall>r \<in> tbl w. acceptable (rule_table rule) r)
        \<and> (\<exists>ls w'. ip [''ip'', ''route'', ''list'', ''table'', itoa (nat (rule_table rule))] w
                      = ((print_lines (map line_text ls), None), w')
              \<and> tbl w' = tbl w \<and> has w' = has w \<and> (\<forall>l \<in> set ls. line_ok l)
              \<and> {(a, i). \<exists>pad. RouteLine a i pad \<in> set ls} = (\<lambda>r. (ipv4_string (rt_addr r), rt_iface r)) ` tbl w)
        \<and> (\<forall>r. acceptable (rule_table rule) r \<longrightarrow>
              (case ip [''ip'', ''route'', ''add'', ''table'', itoa (nat (rule_table rule)), ipv4_string (rt_addr r), ''dev'', rt_iface r] w of
                 ((out, err), w') \<Rightarrow> has w' = has w \<and> (if dest_free (tbl w) r then tbl w' = insert r (tbl w) \<and> err = None
                                                       else tbl w' = tbl w \<and> err \<noteq> None)))
        \<and> (\<forall>r \<in> tbl w.
              (case ip [''ip'', ''route'', ''del'', ''table'', itoa (nat (rule_table rule)), ipv4_string (rt_addr r), ''dev'', rt_iface r] w of
                 ((out, err), w') \<Rightarrow> has w' = has w \<and> tbl w' = tbl w - {r} \<and> err = None))
        \<and> (\<exists>ls w'. ip [''ip'', ''rule'', ''list''] w = ((print_lines (map rule_line_text ls), None), w')
              \<and> tbl w' = tbl w \<and> has w' = has w \<and> (\<forall>l \<in> set ls. rule_line_ok l)
              \<and> (has w \<longleftrightarrow> (\<exists>p pad. RuleLine p (rule_iif rule) (itoa (nat (rule_table rule))) pad \<in> set ls)))
        \<and> (\<not> has w \<longrightarrow>
              (case ip [''ip'', ''rule'', ''add'', ''iif'', rule_iif rule, ''table'', itoa (nat (rule_table rule)),
                        ''priority'', itoa (nat (rule_priority rule))] w of
                 (res, w') \<Rightarrow> tbl w' = tbl w \<and> has w')))"

lemma unat_of_int_u32: "0 \<le> n \<Longrightarrow> n < 2 ^ 32 \<Longrightarrow> unat (of_int n :: u32) = nat n"
  by (simp add: unat_eq_nat_uint uint_word_of_int_eq take_bit_int_eq_self)

lemma printed_routes:
  "set (concat (map (line_routes t) ls)) = (\<lambda>(a, i). \<lparr>pt_table = t, pt_iface = i, pt_address = a\<rparr>) ` {(a, i). \<exists>pad. RouteLine a i pad \<in> set ls}"
proof (induction ls)
  case (Cons l ls)
  then show ?case by (cases l) (auto simp: image_iff)
qed simp

lemma ip_router_tables:
  assumes "ip_router ip rule tbl has"
  shows "unat (of_int (rule_table rule) :: u32) = nat (rule_table rule)"
    "unat (of_int (rule_priority rule) :: u32) = nat (rule_priority rule)"
    "r \<in> tbl w \<Longrightarrow> acceptable (rule_table rule) r"
  using assms unfolding ip_router_def by (simp_all add: unat_of_int_u32)

lemmas ip_router_calls = ip_router_def [THEN iffD1, THEN conjunct2, THEN conjunct2, THEN conjunct2, THEN conjunct2,
  THEN conjunct2, THEN spec, THEN conjunct2]

lemma acceptable_table: "acceptable t r \<Longrightarrow> rt_table r = t"
  by (simp add: acceptable_def route_ok_def)

lemma ip_router_lists:
  assumes "ip_router ip rule tbl has"
  shows "\<exists>rs w'. nc_list_routes (agent_client ip detail_ok) (of_int (rule_table rule)) w = (Inr rs, w')
     \<and> tbl w' = tbl w \<and> has w' = has w \<and> set rs = map_to_agent_route ` tbl w"
proof -
  note u = ip_router_tables [OF assms]
  from conjunct1 [OF ip_router_calls [OF assms, of w]] obtain ls w'
    where l: "ip [''ip'', ''route'', ''list'', ''table'', itoa (nat (rule_table rule))] w = ((print_lines (map line_text ls), None), w')"
      "tbl w' = tbl w" "has w' = has w" "\<forall>l \<in> set ls. line_ok l"
      "{(a, i). \<exists>pad. RouteLine a i pad \<in> set ls} = (\<lambda>r. (ipv4_string (rt_addr r), rt_iface r)) ` tbl w" by blast
  have "map_to_agent_route r = \<lparr>pt_table = of_int (rule_table rule), pt_iface = rt_iface r, pt_address = ipv4_string (rt_addr r)\<rparr>"
    if "r \<in> tbl w" for r
    using u(3) [OF that] by (simp add: map_to_agent_route_def acceptable_table)
  then have "set (concat (map (line_routes (of_int (rule_table rule))) ls)) = map_to_agent_route ` tbl w"
    unfolding printed_routes l(5) image_image by (intro image_cong) auto
  with l list_routes_printed [OF l(4)] show ?thesis
    by (simp add: agent_client_def agent_list_routes_def run_cmd_def u Let_def)
qed

lemma ip_router_adds:
  assumes "ip_router ip rule tbl has" and "acceptable (rule_table rule) r"
  shows "case nc_add_route (agent_client ip detail_ok) (map_to_agent_route r) w of (res, w') \<Rightarrow>
     has w' = has w \<and> (if dest_free (tbl w) r then tbl w' = insert r (tbl w) \<and> res = Inr ()
                       else tbl w' = tbl w \<and> res \<noteq> Inr ())"
proof -
  note all = ip_router_calls [OF assms(1), of w, THEN conjunct2]
  from mp [OF spec [OF conjunct1 [OF all]] assms(2)] show ?thesis
    by (auto simp: agent_client_def agent_add_route_def run_cmd_def map_to_agent_route_def
        acceptable_table [OF assms(2)] ip_router_tables [OF assms(1)] Let_def split: prod.splits option.splits if_splits)
qed

lemma ip_router_deletes:
  assumes "ip_router ip rule tbl has" and "r \<in> tbl w"
  shows "case nc_delete_route (agent_client ip detail_ok) (map_to_agent_route r) w of (res, w') \<Rightarrow>
     has w' = has w \<and> tbl w' = tbl w - {r} \<and> res = Inr ()"
proof -
  note all = ip_router_calls [OF assms(1), of w, THEN conjunct2, THEN conjunct2]
  from bspec [OF conjunct1 [OF all] assms(2)] show ?thesis
    by (auto simp: agent_client_def agent_delete_route_def run_cmd_def map_to_agent_route_def
        acceptable_table [OF ip_router_tables(3) [OF assms]] ip_router_tables [OF assms(1)] Let_def
        split: prod.splits option.splits)
qed

lemma ip_router_rules:
  assumes "ip_router ip rule tbl has"
  shows "case nc_has_rule (agent_client ip detail_ok) (map_to_agent_rule rule) w of (res, w') \<Rightarrow>
      res = Inr (has w) \<and> tbl w' = tbl w \<and> has w' = has w"
    and "\<not> has w \<longrightarrow> (case nc_add_rule (agent_client ip detail_ok) (map_to_agent_rule rule) w of (res, w') \<Rightarrow> tbl w' = tbl w \<and> has w')"
proof -
  note all = ip_router_calls [OF assms, of w, THEN conjunct2, THEN conjunct2, THEN conjunct2]
  note u = ip_router_tables [OF assms]
  have iif: "word_ok (pr_iif (map_to_agent_rule rule))" using assms by (simp add: ip_router_def map_to_agent_rule_def)
  from conjunct1 [OF all] obtain ls w' where l: "ip [''ip'', ''rule'', ''list''] w = ((print_lines (map rule_line_text ls), None), w')"
    "tbl w' = tbl w" "has w' = has w" "\<forall>l \<in> set ls. rule_line_ok l"
    "has w \<longleftrightarrow> (\<exists>p pad. RuleLine p (rule_iif rule) (itoa (nat (rule_table rule))) pad \<in> set ls)" by blast
  from has_rule_printed [OF l(4) iif] l
  show "case nc_has_rule (agent_client ip detail_ok) (map_to_agent_rule rule) w of (res, w') \<Rightarrow>
      res = Inr (has w) \<and> tbl w' = tbl w \<and> has w' = has w"
    by (simp add: agent_client_def agent_has_rule_def run_cmd_def map_to_agent_rule_def u Let_def)
  from conjunct2 [OF all]
  show "\<not> has w \<longrightarrow> (case nc_add_rule (agent_client ip detail_ok) (map_to_agent_rule rule) w of (res, w') \<Rightarrow> tbl w' = tbl w \<and> has w')"
    by (auto simp: agent_client_def agent_add_rule_def run_cmd_def map_to_agent_rule_def u Let_def
        split: prod.splits option.splits)
qed

lemma ip_router_keeps: "ip_router ip rule tbl has \<Longrightarrow> keeps_router (agent_client ip detail_ok) rule tbl has"
  unfolding keeps_router_def
  by (intro allI conjI ballI impI ip_router_lists ip_router_adds ip_router_deletes ip_router_rules
      ip_router_rules(2) [rule_format])
    (simp add: acceptable_def [THEN iffD1, THEN conjunct1, OF ip_router_tables(3)])

subsection \<open>A sample router\<close>

text \<open>A router as a list of routes and the presence of the rule.\<close>

type_synonym sample_router = "ip_route list \<times> bool"

definition sample_table :: "sample_router \<Rightarrow> ip_route list" where
  "sample_table w = filter (acceptable 1000) (fst w)"

definition sample_ip :: "sample_router ip_cmd" where
  "sample_ip args w =
     (if args = [''ip'', ''route'', ''list'', ''table'', itoa 1000] then
        ((print_lines (map (\<lambda>r. line_text (RouteLine (ipv4_string (rt_addr r)) (rt_iface r) [])) (sample_table w)), None), w)
      else if args = [''ip'', ''rule'', ''list''] then
        ((print_lines (map rule_line_text (if snd w then [RuleLine 2000 ''br0'' (itoa 1000) []] else [])), None), w)
      else
        (case args of
           [cmd, obj, verb, kw, t, addr, dev, iface] \<Rightarrow>
             (case parse_ipv4 addr of
                Inr (Inr a) \<Rightarrow>
                  let r = \<lparr>rt_table = 1000, rt_iface = iface, rt_addr = a\<rparr> in
                  if verb = ''del'' then (([], None), (removeAll r (fst w), snd w))
                  else if a \<in> rt_addr ` set (sample_table w) then (([], Some (ExitError 2 ''RTNETLINK answers: File exists'')), w)
                  else (([], None), (r # fst w, snd w))
              | _ \<Rightarrow> (([], Some (ExitError 1 [])), w))
         | _ \<Rightarrow> (([], None), (fst w, True))))"

lemma word_ok_ipv4_string: "word_ok (ipv4_string a)"
proof -
  have i: "\<not> is_space c" if "c \<in> set (itoa n)" for c n using word_ok_itoa [of n] that by (auto simp: word_ok_def)
  have ne: "itoa n \<noteq> []" for n using word_ok_itoa [of n] by (simp add: word_ok_def)
  show ?thesis using i ne by (auto simp: word_ok_def ipv4_string_def dotted_def Let_def is_space_def)
qed

lemma sample_ip_list:
  "\<exists>ls w'. sample_ip [''ip'', ''route'', ''list'', ''table'', itoa 1000] w = ((print_lines (map line_text ls), None), w')
       \<and> set (sample_table w') = set (sample_table w) \<and> snd w' = snd w \<and> (\<forall>l \<in> set ls. line_ok l)
       \<and> {(a, i). \<exists>pad. RouteLine a i pad \<in> set ls} = (\<lambda>r. (ipv4_string (rt_addr r), rt_iface r)) ` set (sample_table w)"
  by (rule exI [of _ "map (\<lambda>r. RouteLine (ipv4_string (rt_addr r)) (rt_iface r) []) (sample_table w)"], rule exI [of _ w])
    (auto simp: sample_ip_def comp_def sample_table_def acceptable_def route_ok_def word_ok_ipv4_string image_iff)

lemma sample_ip_rules:
  "\<exists>ls w'. sample_ip [''ip'', ''rule'', ''list''] w = ((print_lines (map rule_line_text ls), None), w')
       \<and> set (sample_table w') = set (sample_table w) \<and> snd w' = snd w \<and> (\<forall>l \<in> set ls. rule_line_ok l)
       \<and> (snd w \<longleftrightarrow> (\<exists>p pad. RuleLine p ''br0'' (itoa 1000) pad \<in> set ls))"
proof -
  have "CHR '':'' \<notin> set (itoa 1000)" using itoa_not_sep by blast
  moreover have "word_ok ''br0''" by (simp add: word_ok_def is_space_def)
  ultimately show ?thesis
    by (intro exI [of _ "if snd w then [RuleLine 2000 ''br0'' (itoa 1000) []] else []"] exI [of _ w])
      (simp add: sample_ip_def word_ok_itoa)
qed

lemma acceptable_parse:
  assumes "acceptable 1000 r"
  shows "parse_ipv4 (ipv4_string (rt_addr r)) = Inr (Inr (rt_addr r))"
    "\<lparr>rt_table = 1000, rt_iface = rt_iface r, rt_addr = rt_addr r\<rparr> = r"
proof -
  show "parse_ipv4 (ipv4_string (rt_addr r)) = Inr (Inr (rt_addr r))"
    using assms by (intro parse_ipv4_string) (simp add: acceptable_def route_ok_def)
  show "\<lparr>rt_table = 1000, rt_iface = rt_iface r, rt_addr = rt_addr r\<rparr> = r"
    using acceptable_table [OF assms] by (cases r) simp
qed

lemma sample_ip_add:
  "acceptable 1000 r \<Longrightarrow> sample_ip [''ip'', ''route'', ''add'', ''table'', itoa 1000, ipv4_string (rt_addr r), ''dev'', rt_iface r] w =
      (if dest_free (set (sample_table w)) r then (([], None), (r # fst w, snd w))
       else (([], Some (ExitError 2 ''RTNETLINK answers: File exists'')), w))"
  by (simp add: sample_ip_def acceptable_parse dest_free_def Let_def)

lemma sample_ip_del:
  "acceptable 1000 r \<Longrightarrow> sample_ip [''ip'', ''route'', ''del'', ''table'', itoa 1000, ipv4_string (rt_addr r), ''dev'', rt_iface r] w =
      (([], None), (removeAll r (fst w), snd w))"
  by (simp add: sample_ip_def acceptable_parse Let_def)

lemma sample_ip_rule_add:
  "sample_ip [''ip'', ''rule'', ''add'', ''iif'', i, ''table'', t, ''priority'', p] w = (([], None), (fst w, True))"
  by (simp add: sample_ip_def)

lemma sample_ip_router: "ip_router sample_ip sample_rule (\<lambda>w. set (sample_table w)) snd"
  unfolding ip_router_def sample_rule_def
proof (intro conjI allI)
  fix w
  show "\<exists>ls w'. sample_ip [''ip'', ''route'', ''list'', ''table'', itoa (nat (rule_table \<lparr>rule_table = 1000, rule_iif = ''br0'', rule_priority = 2000\<rparr>))] w = ((print_lines (map line_text ls), None), w')
       \<and> set (sample_table w') = set (sample_table w) \<and> snd w' = snd w \<and> (\<forall>l \<in> set ls. line_ok l)
       \<and> {(a, i). \<exists>pad. RouteLine a i pad \<in> set ls} = (\<lambda>r. (ipv4_string (rt_addr r), rt_iface r)) ` set (sample_table w)"
    using sample_ip_list by simp
  show "\<exists>ls w'. sample_ip [''ip'', ''rule'', ''list''] w = ((print_lines (map rule_line_text ls), None), w')
       \<and> set (sample_table w') = set (sample_table w) \<and> snd w' = snd w \<and> (\<forall>l \<in> set ls. rule_line_ok l)
       \<and> (snd w \<longleftrightarrow> (\<exists>p pad. RuleLine p (rule_iif \<lparr>rule_table = 1000, rule_iif = ''br0'', rule_priority = 2000\<rparr>)
             (itoa (nat (rule_table \<lparr>rule_table = 1000, rule_iif = ''br0'', rule_priority = 2000\<rparr>))) pad \<in> set ls))"
    using sample_ip_rules by simp
qed (auto simp: sample_ip_add sample_ip_del sample_ip_rule_add sample_table_def word_ok_def is_space_def)

lemma sample_wants: "wants sample_choice sample_ctl = {\<lparr>rt_table = 1000, rt_iface = ''tun0'', rt_addr = IPv4 10 0 0 0 8\<rparr>}"
    "wants sample_choice (purged sample_choice sample_ctl) = {\<lparr>rt_table = 1000, rt_iface = ''tun0'', rt_addr = IPv4 10 0 0 0 8\<rparr>}"
proof -
  have static: "static_set sample_routing = {\<lparr>rt_table = 1000, rt_iface = ''tun0'', rt_addr = IPv4 10 0 0 0 8\<rparr>}"
    using sample_wanted by (simp add: wanted_set_def)
  show "wants sample_choice sample_ctl = {\<lparr>rt_table = 1000, rt_iface = ''tun0'', rt_addr = IPv4 10 0 0 0 8\<rparr>}"
    "wants sample_choice (purged sample_choice sample_ctl) = {\<lparr>rt_table = 1000, rt_iface = ''tun0'', rt_addr = IPv4 10 0 0 0 8\<rparr>}"
    by (simp_all add: wants_def wanted_set_def static)
qed

subsection \<open>Properties\<close>

text \<open>C8: With the agent on a router whose \<open>ip\<close> command behaves as documented, one reconciliation keeps
  the wanted routes of the table, deletes every other one and adds the wanted routes whose destination no
  listed route had; it installs the routing rule. The routes are added before the stale ones are deleted, so a
  destination that moves to another interface waits for the next round: after two, unless a record expires in
  between, the table is exactly what is wanted and the
  controller remembers every route it added.\<close>

theorem reconcile_converges:
  assumes "ip_router ip (rc_rule (ic_cfg s)) tbl has"
    and "choice_ok ch" and "choice_ok ch'" and "set_inv (ic_routes s)" and "store_inv (ic_store s)"
    and "\<forall>r \<in> wants ch s. acceptable (rule_table (rc_rule (ic_cfg s))) r" and "inj_on rt_addr (wants ch s)"
    and again: "wants ch' (purged ch s) = wants ch s"
  shows "\<exists>s1 w1 s2 w2. ctl_reconcile (agent_client ip detail_ok) ch (s, w) = Inr (s1, w1)
     \<and> has w1 \<and> tbl w1 = (tbl w \<inter> wants ch s) \<union> {r \<in> wants ch s. dest_free (tbl w) r}
     \<and> ctl_reconcile (agent_client ip detail_ok) ch' (s1, w1) = Inr (s2, w2)
     \<and> has w2 \<and> tbl w2 = wants ch s \<and> wants ch s \<subseteq> set_elems (ic_routes s2) \<union> tbl w"
proof -
  note keeps = ip_router_keeps [OF assms(1), of detail_ok]
  from ctl_reconcile_table [OF keeps assms(2,4-7), of w] obtain s1 w1 where
    1: "ctl_reconcile (agent_client ip detail_ok) ch (s, w) = Inr (s1, w1)"
      "same_but_routes (purged ch s) s1" "set_inv (ic_routes s1)" "has w1"
      "tbl w1 = (tbl w \<inter> wants ch s) \<union> {r \<in> wants ch s. dest_free (tbl w) r}"
      "set_elems (ic_routes s1) = (set_elems (ic_routes s) \<union> {r \<in> wants ch s. dest_free (tbl w) r}) - (tbl w - wants ch s)"
    by blast
  note wants1 = wants_again [OF 1(2,6) again]
  have cfg: "ic_cfg s1 = ic_cfg s" using same_but_routesD(1) [OF 1(2)] by simp
  have "store_inv (ic_store s1)" using same_but_routesD(3) [OF 1(2)] purged_inv [OF assms(2,5)] by simp
  from ctl_reconcile_table [where s = s1 and ch = ch' and w = w1, unfolded wants1 cfg, OF keeps assms(3) 1(3) this assms(6,7)]
  obtain s2 w2 where
    2: "ctl_reconcile (agent_client ip detail_ok) ch' (s1, w1) = Inr (s2, w2)" "has w2"
      "tbl w2 = (tbl w1 \<inter> wants ch s) \<union> {r \<in> wants ch s. dest_free (tbl w1) r}"
      "set_elems (ic_routes s2) = (set_elems (ic_routes s1) \<union> {r \<in> wants ch s. dest_free (tbl w1) r}) - (tbl w1 - wants ch s)"
    by blast
  have sub: "tbl w1 \<subseteq> wants ch s" using 1(5) by blast
  have free: "dest_free (tbl w1) r" if "r \<in> wants ch s" "r \<notin> tbl w1" for r
    using that sub assms(7) by (fastforce simp: dest_free_def dest: inj_onD)
  have "tbl w2 = wants ch s" using 2(3) sub free by blast
  moreover have "wants ch s \<subseteq> set_elems (ic_routes s2) \<union> tbl w"
    using 2(4) 1(5,6) sub free by blast
  ultimately show ?thesis using 1 2 by blast
qed

theorem reconcile_converges_witness:
  "\<exists>s1 w1 s2 w2.
     ctl_reconcile (agent_client sample_ip (\<lambda>d. True)) sample_choice
       (sample_ctl, ([\<lparr>rt_table = 1000, rt_iface = ''tun1'', rt_addr = IPv4 10 0 0 0 8\<rparr>,
                      \<lparr>rt_table = 1000, rt_iface = ''tun0'', rt_addr = IPv4 1 2 3 4 32\<rparr>], False)) = Inr (s1, w1)
     \<and> set (sample_table w1) = {}
     \<and> ctl_reconcile (agent_client sample_ip (\<lambda>d. True)) sample_choice (s1, w1) = Inr (s2, w2)
     \<and> snd w2 \<and> set (sample_table w2) = {\<lparr>rt_table = 1000, rt_iface = ''tun0'', rt_addr = IPv4 10 0 0 0 8\<rparr>}"
proof -
  let ?w = "([\<lparr>rt_table = 1000, rt_iface = ''tun1'', rt_addr = IPv4 10 0 0 0 8\<rparr>,
              \<lparr>rt_table = 1000, rt_iface = ''tun0'', rt_addr = IPv4 1 2 3 4 32\<rparr>], False)"
  have router: "ip_router sample_ip (rc_rule (ic_cfg sample_ctl)) (\<lambda>w. set (sample_table w)) snd"
    using sample_ip_router by (simp add: sample_routing_def)
  have inv: "set_inv (ic_routes sample_ctl)" "store_inv (ic_store sample_ctl)" by simp_all
  have tun0: "word_ok ''tun0''" "word_ok ''tun1''" by (simp_all add: word_ok_def is_space_def)
  have ok: "\<forall>r \<in> wants sample_choice sample_ctl. acceptable (rule_table (rc_rule (ic_cfg sample_ctl))) r"
    using tun0 by (simp add: sample_wants acceptable_def route_ok_def ipv4_ok_def)
  have table: "set (sample_table ?w) = {\<lparr>rt_table = 1000, rt_iface = ''tun1'', rt_addr = IPv4 10 0 0 0 8\<rparr>,
              \<lparr>rt_table = 1000, rt_iface = ''tun0'', rt_addr = IPv4 1 2 3 4 32\<rparr>}"
    using tun0 by (simp add: sample_table_def acceptable_def route_ok_def ipv4_ok_def)
  have one: "(set (sample_table ?w) \<inter> wants sample_choice sample_ctl) \<union> {r \<in> wants sample_choice sample_ctl. dest_free (set (sample_table ?w)) r} = {}"
    unfolding table sample_wants by (auto simp: dest_free_def)
  have inj: "inj_on rt_addr (wants sample_choice sample_ctl)" by (simp add: sample_wants)
  have again: "wants sample_choice (purged sample_choice sample_ctl) = wants sample_choice sample_ctl" by (simp only: sample_wants)
  note c = reconcile_converges [OF router sample_choice_ok sample_choice_ok inv ok inj again, where w = ?w and detail_ok = "\<lambda>d. True"]
  obtain s1 w1 s2 w2 where
    r: "ctl_reconcile (agent_client sample_ip (\<lambda>d. True)) sample_choice (sample_ctl, ?w) = Inr (s1, w1)"
      "set (sample_table w1) = {}"
      "ctl_reconcile (agent_client sample_ip (\<lambda>d. True)) sample_choice (s1, w1) = Inr (s2, w2)"
      "snd w2" "set (sample_table w2) = wants sample_choice sample_ctl"
    using c unfolding one by blast
  show ?thesis
    by (rule exI [of _ s1], rule exI [of _ w1], rule exI [of _ s2], rule exI [of _ w2])
      (intro conjI r(1-4) r(5) [unfolded sample_wants(1)])
qed

end
