(* ===== verification/Server.thy ===== *)
theory Server
  imports Resolver Network Inflight Logging
begin

text \<open>
  The server as \<open>dns-server/cmd/main.go\<close> puts it together: the resolver below the service (DNS or DNS over HTTP,
  behind mDNS), the service, the merging of calls, the cache and the TTL override as one resolver over one state.
  \<open>inflight\<close> is run by one call at a time here; \<open>single_inflight_steps\<close> shows that this is a run of the
  step relation of \<open>Inflight\<close>. The lemmas follow a query through all layers down to the routing table
  of the router.
\<close>

subsection \<open>One call at a time\<close>

text \<open>The merging layer as thread \<open>t\<close> goes through it while no other thread moves: a call that finds a request
  in flight (left behind by a panic) can only end with its context.\<close>

definition single_inflight_resolve :: "nat \<Rightarrow> string \<Rightarrow> 's resolver \<Rightarrow> (inflight \<times> 's) resolver" where
  "single_inflight_resolve t ctx_err upstream client msg = (\<lambda>(fl, s).
     let fl = sf_begin t msg fl in
     case si_pc fl t of
       Waiting m req \<Rightarrow> Inr (Inl ctx_err, (goto t (Returned msg (Inl ctx_err)) fl, s))
     | Leading m req \<Rightarrow>
         (case upstream client msg s of
            Inl panic \<Rightarrow> Inl panic
          | Inr (res, s) \<Rightarrow> Inr (res, (sf_finish t msg req res (sf_done t msg req res fl), s)))
     | _ \<Rightarrow>
         (case upstream client msg s of
            Inl panic \<Rightarrow> Inl panic
          | Inr (res, s) \<Rightarrow> Inr (res, (sf_direct t msg res fl, s))))"

subsection \<open>The resolvers of the server\<close>

definition dns_provider :: "(string \<Rightarrow> 's resolver) \<Rightarrow> (string \<Rightarrow> 's resolver) \<Rightarrow> config \<Rightarrow> 's resolver" where
  "dns_provider doh_client dns_client cfg =
     (if has_prefix (cfg_dns_provider cfg) ''http'' then doh_client (cfg_dns_provider cfg)
      else dns_client (cfg_dns_provider cfg))"

text \<open>What the runtime and the clocks choose while one query goes through the layers.\<close>

record ('l, 'k) server_choice =
  vch_cache :: cache_clock
  vch_service :: "('l, 'k) service_choice"
  vch_thread :: nat
  vch_ctx_err :: string

type_synonym ('l, 'k, 'w) server_state = "dns_cache \<times> inflight \<times> ('l, 'k) service \<times> 'w"

definition server_resolver ::
  "config \<Rightarrow> (dns_msg \<Rightarrow> string) \<Rightarrow> ('w, 'e) network_client \<Rightarrow> (mdns_config \<Rightarrow> 'w resolver) \<Rightarrow> (string \<Rightarrow> 'w resolver)
     \<Rightarrow> (string \<Rightarrow> 'w resolver) \<Rightarrow> ('l, 'k) server_choice \<Rightarrow> ('l, 'k, 'w) server_state resolver"
where
  "server_resolver cfg show_msg nc new_mdns_client doh_client dns_client ch =
     (let provider = dns_provider doh_client dns_client cfg;
          provider = mdns_resolve (cfg_mdns cfg) (new_mdns_client (cfg_mdns cfg)) provider;
          svc = service_resolve show_msg nc provider (vch_service ch);
          resolver = single_inflight_resolve (vch_thread ch) (vch_ctx_err ch) svc;
          resolver = cached_resolve (vch_cache ch) resolver
      in new_ttl_overriding_resolver resolver (cfg_dns_ttl_override cfg))"

text \<open>The state \<open>main\<close> starts with: an empty cache, nothing in flight, and the service on the controller.\<close>

definition new_server_state :: "config \<Rightarrow> ip_ctl \<Rightarrow> 'w \<Rightarrow> ('l, 'k, 'w) server_state panicking" where
  "new_server_state cfg ctl w =
     (case new_dns_routing_service ctl (cfg_dns_query_history_size cfg) of
        Inl panic \<Rightarrow> Inl panic
      | Inr svc \<Rightarrow> Inr (new_dns_cache, new_single_inflight, svc, w))"

lemma single_inflight_steps:
  assumes "si_pc fl t = Idle" and "single_inflight_resolve t ctx_err upstream client msg (fl, s) = Inr (res, (fl', s'))"
  shows "sf_step\<^sup>*\<^sup>* fl fl' \<and> si_pc fl' t = Returned msg res \<and> (\<forall>u. u \<noteq> t \<longrightarrow> si_pc fl' u = si_pc fl u)
     \<and> (si_requests fl = (\<lambda>q. None) \<longrightarrow> si_requests fl' = (\<lambda>q. None) \<and> upstream client msg s = Inr (res, s'))"
proof -
  let ?b = "sf_begin t msg fl"
  have step: "sf_step fl ?b" by (rule sf_step.call [OF assms(1)])
  show ?thesis
  proof (cases "has_single_question msg []")
    case False
    then have b: "?b = goto t (Direct msg) fl" by (simp add: sf_begin_def)
    with assms(2) have up: "upstream client msg s = Inr (res, s')" "fl' = sf_direct t msg res ?b"
      by (auto simp: single_inflight_resolve_def split: sum.splits prod.splits)
    have "sf_step ?b fl'" unfolding up(2) by (rule sf_step.direct) (simp add: b)
    with step have "sf_step\<^sup>*\<^sup>* fl fl'" by auto
    with up b show ?thesis by (simp add: sf_direct_def goto_def)
  next
    case True
    show ?thesis
    proof (cases "si_requests fl (req_key msg)")
      case (Some req)
      then have b: "?b = goto t (Waiting msg req) fl" using True by (simp add: sf_begin_def)
      with assms(2) have up: "res = Inl ctx_err" "fl' = goto t (Returned msg (Inl ctx_err)) ?b" "s' = s"
        by (auto simp: single_inflight_resolve_def)
      have "sf_step ?b fl'" unfolding up(2) by (rule sf_step.cancel [of _ _ _ req]) (simp add: b)
      with step have "sf_step\<^sup>*\<^sup>* fl fl'" by auto
      with up b Some show ?thesis by (auto simp: fun_eq_iff)
    next
      case None
      let ?req = "length (si_flights fl)"
      have b: "?b = sf_register t msg fl" using True None by (simp add: sf_begin_def)
      then have pc: "si_pc ?b t = Leading msg ?req" by (simp add: sf_register_def Let_def)
      with assms(2) have up: "upstream client msg s = Inr (res, s')"
        "fl' = sf_finish t msg ?req res (sf_done t msg ?req res ?b)"
        by (auto simp: single_inflight_resolve_def split: sum.splits prod.splits)
      let ?d = "sf_done t msg ?req res ?b"
      have "sf_step ?b ?d" by (rule sf_step.upstream [OF pc])
      moreover have "sf_step ?d fl'" unfolding up(2)
        by (rule sf_step.finish) (simp_all add: sf_done_def b sf_register_def Let_def)
      ultimately have "sf_step\<^sup>*\<^sup>* fl fl'" using step by auto
      with up b None show ?thesis
        by (auto simp: sf_finish_def sf_done_def sf_register_def Let_def goto_def fun_eq_iff)
    qed
  qed
qed

subsection \<open>Routes added while a query is answered\<close>

definition in_sync :: "('w \<Rightarrow> ip_route set) \<Rightarrow> ip_ctl \<Rightarrow> 'w \<Rightarrow> bool" where
  "in_sync tbl c w \<longleftrightarrow> set_inv (ic_routes c) \<and> set_elems (ic_routes c) \<subseteq> tbl w"

lemma ctl_add_route_same: "ctl_add_route nc i ip (c, w) = (c', w') \<Longrightarrow> same_but_routes c c'"
  by (auto simp: ctl_add_route_def ctl_add_route_rpc_def Let_def split: prod.splits sum.splits unit.splits if_splits)

lemma add_routes_same: "fold (\<lambda>i. ctl_add_route nc i ip) is (c, w) = (c', w') \<Longrightarrow> same_but_routes c c'"
proof (induction "is" arbitrary: c w)
  case (Cons i "is")
  obtain c1 w1 where 1: "ctl_add_route nc i ip (c, w) = (c1, w1)" by fastforce
  with Cons show ?case by (auto intro: same_but_routes_trans ctl_add_route_same)
qed simp

lemma ctl_add_route_router:
  assumes "keeps_router nc rule tbl has" and "acceptable (rule_table rule) (route_of c i ip)"
    and "in_sync tbl c w" and "ctl_add_route nc i ip (c, w) = (c', w')"
  shows "in_sync tbl c' w' \<and> has w' = has w
    \<and> tbl w' = (if ip \<in> rt_addr ` tbl w then tbl w else insert (route_of c i ip) (tbl w))"
proof -
  have route: "rt_addr (route_of c i ip) = ip" by (simp add: route_of_def)
  show ?thesis
  proof (cases "set_has (ic_routes c) (route_of c i ip)")
    case True
    then have "route_of c i ip \<in> tbl w" using assms(3) by (auto simp: in_sync_def)
    then have "ip \<in> rt_addr ` tbl w" using route by force
    with True assms(3,4) show ?thesis by (auto simp: ctl_add_route_def Let_def route_of_def)
  next
    case False
    obtain res w2 where call: "nc_add_route nc (map_to_agent_route (route_of c i ip)) w = (res, w2)" by fastforce
    have rpc: "ctl_add_route_rpc nc (route_of c i ip) (c, w) = (c', w')"
      using False assms(4) by (simp add: ctl_add_route_def Let_def route_of_def)
    note t = keeps_routerD(3) [OF assms(1,2) call]
    from add_route_rpc_routes [OF rpc call] t assms(3) show ?thesis
      by (auto simp: dest_free_def route in_sync_def split: if_splits)
  qed
qed

lemma add_routes_router:
  assumes "keeps_router nc rule tbl has" and "\<forall>i \<in> set is. acceptable (rule_table rule) (route_of c i ip)"
    and "in_sync tbl c w" and "fold (\<lambda>i. ctl_add_route nc i ip) is (c, w) = (c', w')"
  shows "in_sync tbl c' w' \<and> has w' = has w
    \<and> tbl w' = (if is = [] \<or> ip \<in> rt_addr ` tbl w then tbl w else insert (route_of c (hd is) ip) (tbl w))"
  using assms(2-4)
proof (induction "is" arbitrary: c w)
  case (Cons i "is")
  obtain c1 w1 where 1: "ctl_add_route nc i ip (c, w) = (c1, w1)" by fastforce
  have acc: "acceptable (rule_table rule) (route_of c i ip)" using Cons.prems(1) by simp
  note a = ctl_add_route_router [OF assms(1) acc Cons.prems(2) 1]
  have same: "route_of c1 = route_of c"
    using same_but_routesD(2) [OF ctl_add_route_same [OF 1]] by (simp add: route_of_def fun_eq_iff)
  from Cons.prems(3) 1 have "fold (\<lambda>i. ctl_add_route nc i ip) is (c1, w1) = (c', w')" by simp
  with Cons.IH [of c1 w1] Cons.prems(1) a have
    b: "in_sync tbl c' w' \<and> has w' = has w1
      \<and> tbl w' = (if is = [] \<or> ip \<in> rt_addr ` tbl w1 then tbl w1 else insert (route_of c1 (hd is) ip) (tbl w1))"
    by (simp add: same)
  have "rt_addr (route_of c i ip) = ip" by (simp add: route_of_def)
  with a have "ip \<in> rt_addr ` tbl w1" by (force split: if_splits)
  with a b show ?case by simp
qed simp

lemma remember_ips_state:
  assumes "fold (remember_ip nc res) ips (c, w) = (c', w')"
  shows "ic_cfg c' = ic_cfg c \<and> ic_table_id c' = ic_table_id c
    \<and> ic_store c' = fold (\<lambda>ip st. store_add st (new_dns_record (dq_domain res) ip (dq_time res + uint (dq_ttl res) * second))) ips (ic_store c)"
  using assms
proof (induction ips arbitrary: c w)
  case (Cons ip ips)
  let ?c0 = "c\<lparr>ic_store := store_add (ic_store c) (new_dns_record (dq_domain res) ip (dq_time res + uint (dq_ttl res) * second))\<rparr>"
  obtain c1 w1 where 1: "fold (\<lambda>i. ctl_add_route nc i ip) (dq_routed res) (?c0, w) = (c1, w1)" by fastforce
  from Cons.prems 1 have "fold (remember_ip nc res) ips (c1, w1) = (c', w')" by (simp add: remember_ip_def [of _ _ ip] Let_def)
  from Cons.IH [OF this] same_but_routes_store [OF add_routes_same [OF 1]] show ?case by simp
qed simp

lemma remember_ips_router:
  assumes "keeps_router nc rule tbl has"
    and "\<forall>ip \<in> set ips. \<forall>i \<in> set (dq_routed res). acceptable (rule_table rule) (route_of c i ip)"
    and "in_sync tbl c w" and "fold (remember_ip nc res) ips (c, w) = (c', w')"
  shows "in_sync tbl c' w' \<and> has w' = has w
    \<and> tbl w' = tbl w \<union> (if dq_routed res = [] then {} else
        route_of c (hd (dq_routed res)) ` {ip \<in> set ips. ip \<notin> rt_addr ` tbl w})"
  using assms(2-4)
proof (induction ips arbitrary: c w)
  case (Cons ip ips)
  let ?c0 = "c\<lparr>ic_store := store_add (ic_store c) (new_dns_record (dq_domain res) ip (dq_time res + uint (dq_ttl res) * second))\<rparr>"
  let ?i = "hd (dq_routed res)"
  obtain c1 w1 where 1: "fold (\<lambda>i. ctl_add_route nc i ip) (dq_routed res) (?c0, w) = (c1, w1)" by fastforce
  have same0: "route_of ?c0 = route_of c" by (simp add: route_of_def fun_eq_iff)
  have "ic_table_id c1 = ic_table_id c" using same_but_routes_store [OF add_routes_same [OF 1]] by simp
  then have same: "route_of c1 = route_of c" by (simp add: route_of_def fun_eq_iff)
  have "\<forall>i \<in> set (dq_routed res). acceptable (rule_table rule) (route_of ?c0 i ip)" "in_sync tbl ?c0 w"
    using Cons.prems(1,2) by (simp_all add: same0 in_sync_def)
  from add_routes_router [OF assms(1) this 1] have
    a: "in_sync tbl c1 w1" "has w1 = has w"
      "tbl w1 = (if dq_routed res = [] \<or> ip \<in> rt_addr ` tbl w then tbl w else insert (route_of c ?i ip) (tbl w))"
    unfolding same0 by auto
  from Cons.prems(3) 1 have "fold (remember_ip nc res) ips (c1, w1) = (c', w')" by (simp add: remember_ip_def [of _ _ ip] Let_def)
  with Cons.IH [of c1 w1] Cons.prems(1) a(1) have
    b: "in_sync tbl c' w'" "has w' = has w1"
      "tbl w' = tbl w1 \<union> (if dq_routed res = [] then {} else route_of c ?i ` {ip \<in> set ips. ip \<notin> rt_addr ` tbl w1})"
    by (simp_all add: same)
  have addr: "rt_addr (route_of c ?i x) = x" for x by (simp add: route_of_def)
  have "tbl w' = tbl w \<union> (if dq_routed res = [] then {} else route_of c ?i ` {x \<in> set (ip # ips). x \<notin> rt_addr ` tbl w})"
  proof (cases "dq_routed res = [] \<or> ip \<in> rt_addr ` tbl w")
    case True
    with a(3) b(3) show ?thesis by auto
  next
    case False
    then have "rt_addr ` tbl w1 = insert ip (rt_addr ` tbl w)" using a(3) addr by simp
    with False a(3) b(3) show ?thesis by auto
  qed
  with a(2) b(1,2) show ?case by simp
qed simp

subsection \<open>The TTL remembered with an answer\<close>

lemma scan_answer_lower:
  assumes "scan_answer rs (m, c, t) = Inr (m', c', t')" and "\<forall>r \<in> set rs. k \<le> rr_ttl r" and "k \<le> t"
    and "\<forall>n h target. lazy_get c n = Some (h, target) \<longrightarrow> k \<le> hdr_ttl h"
  shows "k \<le> t' \<and> (\<forall>n h target. lazy_get c' n = Some (h, target) \<longrightarrow> k \<le> hdr_ttl h)"
  using assms
proof (induction rs "(m, c, t)" arbitrary: m c t rule: scan_answer.induct)
  case (2 h a rs m c t)
  from "2.prems"(1) obtain ip where ip: "new_ipv4 a = Inr ip" by (cases "new_ipv4 a") auto
  from 2(1) [OF ip refl] 2(2-) ip show ?case by (simp add: Let_def)
next
  case (3 h target rs m c t)
  have "k \<le> hdr_ttl h" using "3.prems"(2) by simp
  then have "\<forall>n h' target'. lazy_get (lazy_set c (hdr_name h) (h, target)) n = Some (h', target') \<longrightarrow> k \<le> hdr_ttl h'"
    using "3.prems"(4) by simp
  moreover have "scan_answer rs (m, lazy_set c (hdr_name h) (h, target), t) = Inr (m', c', t')" using "3.prems"(1) by simp
  moreover have "\<forall>r \<in> set rs. k \<le> rr_ttl r" using "3.prems"(2) by simp
  ultimately show ?case using "3.hyps" "3.prems"(3) by blast
qed simp_all

lemma fold_note_ttl_lower:
  "k \<le> ttl \<Longrightarrow> \<forall>n h target. lazy_get cnames n = Some (h, target) \<longrightarrow> k \<le> hdr_ttl h \<Longrightarrow> k \<le> fold (note_ttl cnames) p ttl"
proof (induction p arbitrary: ttl)
  case (Cons n p)
  have "k \<le> note_ttl cnames n ttl" using Cons.prems by (auto simp: note_ttl_def split: option.split prod.split)
  with Cons show ?case by simp
qed simp

subsection \<open>One answer through the service\<close>

lemma add_routes_set_inv:
  "fold (\<lambda>i. ctl_add_route nc i ip) is (c, w) = (c', w') \<Longrightarrow> set_inv (ic_routes c) \<Longrightarrow> set_inv (ic_routes c')"
proof (induction "is" arbitrary: c w)
  case (Cons i "is")
  obtain c1 w1 where 1: "ctl_add_route nc i ip (c, w) = (c1, w1)" by fastforce
  with Cons.prems(2) have "set_inv (ic_routes c1)"
    by (auto simp: ctl_add_route_def ctl_add_route_rpc_def Let_def split: prod.splits sum.splits unit.splits if_splits)
  with Cons 1 show ?case by auto
qed simp

lemma remember_ips_set_inv:
  "fold (remember_ip nc res) ips (c, w) = (c', w') \<Longrightarrow> set_inv (ic_routes c) \<Longrightarrow> set_inv (ic_routes c')"
proof (induction ips arbitrary: c w)
  case (Cons ip ips)
  let ?c0 = "c\<lparr>ic_store := store_add (ic_store c) (new_dns_record (dq_domain res) ip (dq_time res + uint (dq_ttl res) * second))\<rparr>"
  obtain c1 w1 where 1: "fold (\<lambda>i. ctl_add_route nc i ip) (dq_routed res) (?c0, w) = (c1, w1)" by fastforce
  have "set_inv (ic_routes c1)" using add_routes_set_inv [OF 1] Cons.prems(2) by simp
  with Cons 1 show ?case by (simp add: remember_ip_def [of _ _ ip] Let_def)
qed simp

lemma service_answers:
  assumes "service_inv s" and "is_order (sch_ifaces ch)" and "has_single_question msg [type_a]"
    and "upstream client msg w = Inr (Inr resp, w1)" and "msg_question resp = q # qs"
    and "scan_answer (msg_answer resp) ([], None, - 1) = Inr (name_ips, cnames, ttl)"
    and "cname_path cnames (q_name q) p" and "addresses_of (last p) (msg_answer resp) \<noteq> []"
  shows "\<exists>res s' w'. service_resolve show_msg nc upstream ch client msg (s, w) = Inr (Inr resp, (s', w'))
    \<and> service_inv s'
    \<and> fold (remember_ip nc res) (sort (addresses_of (last p) (msg_answer resp))) (sv_ctl s, w1) = (sv_ctl s', w')
    \<and> dq_domain res = normalize_name (q_name q) \<and> dq_time res = fst (sch_query ch)
    \<and> dq_ttl res = max (fold (note_ttl cnames) p ttl) 1 \<and> set (dq_routed res) = chain_ifaces ch (sv_ctl s) p
    \<and> ic_cfg (sv_ctl s') = ic_cfg (sv_ctl s)"
proof -
  obtain rs1 where 1: "append_raw_query (sch_raw_listeners ch) (sch_request ch) client False (show_msg msg) s = Inr (s\<lparr>sv_raw_queries := rs1\<rparr>)"
    "rb_inv (bs_buf rs1)" using append_raw_query_ok [OF assms(1)] by blast
  have inv1: "service_inv (s\<lparr>sv_raw_queries := rs1\<rparr>)" using assms(1) 1(2) by (simp add: service_inv_def)
  obtain rs2 where 2: "append_raw_query (sch_raw_listeners ch) (sch_response ch) client True (show_msg resp) (s\<lparr>sv_raw_queries := rs1\<rparr>)
      = Inr (s\<lparr>sv_raw_queries := rs2\<rparr>)" "rb_inv (bs_buf rs2)"
    using append_raw_query_ok [OF inv1, of "sch_raw_listeners ch" "sch_response ch" client True "show_msg resp"] by auto
  let ?s = "s\<lparr>sv_raw_queries := rs2\<rparr>"
  have inv2: "service_inv ?s" using assms(1) 2(2) by (simp add: service_inv_def)
  obtain res qs' c' w' where 3: "process_type_a nc ch client resp (?s, w1) = Inr (?s\<lparr>sv_queries := qs', sv_ctl := c'\<rparr>, w')"
    "rb_inv (bs_buf qs')" "fold (remember_ip nc res) (sort (addresses_of (last p) (msg_answer resp))) (sv_ctl s, w1) = (c', w')"
    "dq_domain res = normalize_name (q_name q)" "dq_time res = fst (sch_query ch)"
    "dq_ttl res = max (fold (note_ttl cnames) p ttl) 1" "set (dq_routed res) = chain_ifaces ch (sv_ctl s) p"
    using process_type_a_run [OF inv2 assms(2,5-8), of nc client w1] by auto
  have run: "service_resolve show_msg nc upstream ch client msg (s, w) = Inr (Inr resp, (?s\<lparr>sv_queries := qs', sv_ctl := c'\<rparr>, w'))"
    using 1(1) 2(1) 3(1) assms(3,4) by (simp add: service_resolve_def)
  have store: "ic_cfg c' = ic_cfg (sv_ctl s)"
    "ic_store c' = fold (\<lambda>ip st. store_add st (new_dns_record (dq_domain res) ip (dq_time res + uint (dq_ttl res) * second)))
       (sort (addresses_of (last p) (msg_answer resp))) (ic_store (sv_ctl s))"
    using remember_ips_state [OF 3(3)] by auto
  have "set_inv (ic_routes c')" using remember_ips_set_inv [OF 3(3)] assms(1) by (simp add: service_inv_def)
  moreover have "store_inv (ic_store c')"
    unfolding store(2) using fold_add_records assms(1) by (simp add: service_inv_def)
  ultimately have "service_inv (?s\<lparr>sv_queries := qs', sv_ctl := c'\<rparr>)"
    using assms(1) 2(2) 3(2) by (simp add: service_inv_def)
  with run 3 store(1) show ?thesis
    by (intro exI [of _ res] exI [of _ "?s\<lparr>sv_queries := qs', sv_ctl := c'\<rparr>"] exI [of _ w']) simp
qed

subsection \<open>A query through all layers\<close>

definition capped_ttl :: "u32 \<Rightarrow> rr \<Rightarrow> u32" where
  "capped_ttl t r = (case r of RR_A h a \<Rightarrow> min (hdr_ttl h) t | _ \<Rightarrow> rr_ttl r)"

lemma override_ttl_set: "override_ttl t = (\<lambda>r. set_rr_ttl (capped_ttl t r) r)"
proof
  fix r show "override_ttl t r = set_rr_ttl (capped_ttl t r) r" by (cases r) (simp_all add: capped_ttl_def)
qed

lemma ttl_layer_answer:
  assumes "upstream client msg s = Inr (Inr m, s')"
  shows "\<exists>a. new_ttl_overriding_resolver upstream ttl client msg s = Inr (Inr a, s') \<and> same_answer m a \<and> msg_id a = msg_id m"
proof (cases "0 < ttl \<and> has_single_question msg [type_a] \<and> 0 < secs_u32 ttl")
  case True
  then have "new_ttl_overriding_resolver upstream ttl client msg s
      = Inr (Inr (m\<lparr>msg_answer := map (override_ttl (secs_u32 ttl)) (msg_answer m)\<rparr>), s')"
    using assms by (simp add: new_ttl_overriding_resolver_def ttl_overriding_resolve_def Let_def)
  moreover have "same_answer m (m\<lparr>msg_answer := map (override_ttl (secs_u32 ttl)) (msg_answer m)\<rparr>)"
    unfolding same_answer_def
    by (intro exI [of _ "msg_id m"] exI [of _ "capped_ttl (secs_u32 ttl)"])
      (simp add: override_ttl_set)
  ultimately show ?thesis by simp
next
  case False
  then have "new_ttl_overriding_resolver upstream ttl client msg s = Inr (Inr m, s')"
    using assms by (auto simp: new_ttl_overriding_resolver_def ttl_overriding_resolve_def Let_def)
  then show ?thesis by (simp add: same_answer_refl)
qed

text \<open>The resolver below the service.\<close>

definition server_upstream where
  "server_upstream cfg new_mdns_client doh_client dns_client =
     mdns_resolve (cfg_mdns cfg) (new_mdns_client (cfg_mdns cfg)) (dns_provider doh_client dns_client cfg)"

lemma server_miss:
  assumes "has_single_question msg [type_a]"
    and "cache_get (cc_get (vch_cache ch)) (cc_result (vch_cache ch)) cache (msg_question msg ! 0) = None"
    and "si_pc fl (vch_thread ch) = Idle" and "si_requests fl = (\<lambda>q. None)"
    and "service_resolve show_msg nc (server_upstream cfg new_mdns_client doh_client dns_client) (vch_service ch) client msg (sv, w)
           = Inr (Inr resp, (sv', w'))"
  shows "\<exists>a fl'. server_resolver cfg show_msg nc new_mdns_client doh_client dns_client ch client msg (cache, fl, sv, w)
      = Inr (Inr a, (cache_put (cc_put (vch_cache ch)) cache (msg_question msg ! 0) resp, fl', sv', w'))
    \<and> same_answer resp a \<and> sf_step\<^sup>*\<^sup>* fl fl' \<and> si_requests fl' = (\<lambda>q. None)"
proof -
  let ?svc = "service_resolve show_msg nc (server_upstream cfg new_mdns_client doh_client dns_client) (vch_service ch)"
  let ?si = "single_inflight_resolve (vch_thread ch) (vch_ctx_err ch) ?svc"
  let ?cached = "cached_resolve (vch_cache ch) ?si"
  have single: "has_single_question msg []" using assms(1) by (auto simp: has_single_question_def split: if_splits)
  obtain fl' where si: "?si client msg (fl, (sv, w)) = Inr (Inr resp, (fl', (sv', w')))"
    using assms(4,5) single
    by (simp add: single_inflight_resolve_def sf_begin_def sf_register_def Let_def)
  note run = single_inflight_steps [OF assms(3) si]
  have cached: "?cached client msg (cache, (fl, (sv, w)))
      = Inr (Inr resp, (cache_put (cc_put (vch_cache ch)) cache (msg_question msg ! 0) resp, (fl', (sv', w'))))"
    using assms(1,2) si by (simp add: cached_resolve_def Let_def)
  have eq: "server_resolver cfg show_msg nc new_mdns_client doh_client dns_client ch = new_ttl_overriding_resolver ?cached (cfg_dns_ttl_override cfg)"
    by (simp add: server_resolver_def server_upstream_def Let_def)
  from ttl_layer_answer [where upstream = ?cached, OF cached, of "cfg_dns_ttl_override cfg"] obtain a where
    "new_ttl_overriding_resolver ?cached (cfg_dns_ttl_override cfg) client msg (cache, (fl, (sv, w)))
       = Inr (Inr a, (cache_put (cc_put (vch_cache ch)) cache (msg_question msg ! 0) resp, (fl', (sv', w'))))"
    "same_answer resp a" by blast
  with run assms(4) show ?thesis unfolding eq by blast
qed

lemma server_hit:
  assumes "has_single_question msg [type_a]"
    and "cache_get (cc_get (vch_cache ch)) (cc_result (vch_cache ch)) cache (msg_question msg ! 0) = Some m"
  shows "\<exists>a. server_resolver cfg show_msg nc new_mdns_client doh_client dns_client ch client msg (cache, s)
      = Inr (Inr a, (cache, s)) \<and> same_answer (m\<lparr>msg_id := msg_id msg\<rparr>) a \<and> msg_id a = msg_id msg"
proof -
  let ?svc = "service_resolve show_msg nc (server_upstream cfg new_mdns_client doh_client dns_client) (vch_service ch)"
  let ?si = "single_inflight_resolve (vch_thread ch) (vch_ctx_err ch) ?svc"
  have cached: "cached_resolve (vch_cache ch) ?si client msg (cache, s) = Inr (Inr (m\<lparr>msg_id := msg_id msg\<rparr>), (cache, s))"
    using assms by (simp add: cached_resolve_def Let_def)
  have eq: "server_resolver cfg show_msg nc new_mdns_client doh_client dns_client ch
      = new_ttl_overriding_resolver (cached_resolve (vch_cache ch) ?si) (cfg_dns_ttl_override cfg)"
    by (simp add: server_resolver_def server_upstream_def Let_def)
  from ttl_layer_answer [where upstream = "cached_resolve (vch_cache ch) ?si", OF cached, of "cfg_dns_ttl_override cfg"]
  obtain a where "new_ttl_overriding_resolver (cached_resolve (vch_cache ch) ?si) (cfg_dns_ttl_override cfg) client msg (cache, s)
       = Inr (Inr a, (cache, s))" "same_answer (m\<lparr>msg_id := msg_id msg\<rparr>) a" "msg_id a = msg_id (m\<lparr>msg_id := msg_id msg\<rparr>)" by blast
  moreover have "msg_id (m\<lparr>msg_id := msg_id msg\<rparr>) = msg_id msg" by (cases m) simp
  ultimately show ?thesis unfolding eq by metis
qed

lemma new_ipv4_host: "new_ipv4 a = Inr ip \<Longrightarrow> \<exists>b c d e. ip = IPv4 b c d e 32"
  unfolding new_ipv4_def new_ipv4_prefix_def by (auto simp: Let_def split: list.split_asm if_split_asm)

lemma same_answer_trans: "same_answer r0 r1 \<Longrightarrow> same_answer r1 r2 \<Longrightarrow> same_answer r0 r2"
  unfolding same_answer_def by (elim exE) (auto simp: comp_def intro!: exI)

lemma addresses_are_hosts: "ip \<in> set (addresses_of n rs) \<Longrightarrow> \<exists>a b c d. ip = IPv4 a b c d 32"
proof (induction rs)
  case (Cons r rs)
  have split: "addresses_of n (r # rs) = addresses_of n [r] @ addresses_of n rs" by (simp add: addresses_of_def)
  have "\<exists>a b c d. ip = IPv4 a b c d 32" if one: "ip \<in> set (addresses_of n [r])"
  proof (cases r)
    case (RR_A h a)
    with one have "new_ipv4 a = Inr ip" by (cases "new_ipv4 a"; cases "hdr_name h = n") (simp_all add: addresses_of_def)
    then show ?thesis by (rule new_ipv4_host)
  qed (use one in \<open>simp_all add: addresses_of_def\<close>)
  with Cons split show ?case by auto
qed (simp add: addresses_of_def)

lemma host_route_acceptable:
  assumes "ip \<in> set (addresses_of n rs)" and "0 \<le> ic_table_id c" and "ic_table_id c < 2 ^ 32" and "word_ok i"
  shows "acceptable (ic_table_id c) (route_of c i ip)"
proof -
  obtain a b d e where "ip = IPv4 a b d e 32" using addresses_are_hosts [OF assms(1)] by blast
  with assms(2-4) show ?thesis by (simp add: acceptable_def route_ok_def route_of_def ipv4_ok_def)
qed

text \<open>What is assumed of a query that has to be asked upstream: it asks for an A record, the cache has no
  answer, no call is in flight, and the answer \<open>resp\<close> of the resolver below gives addresses for the last name
  of its chain \<open>p\<close> of aliases.\<close>

definition asked_upstream ::
  "('l, 'k) server_choice \<Rightarrow> dns_msg \<Rightarrow> dns_cache \<Rightarrow> inflight \<Rightarrow> ('l, 'k) service \<Rightarrow> dns_msg \<Rightarrow> question \<Rightarrow> string list \<Rightarrow> bool"
where
  "asked_upstream ch msg cache fl sv resp q p \<longleftrightarrow>
     has_single_question msg [type_a]
   \<and> cache_get (cc_get (vch_cache ch)) (cc_result (vch_cache ch)) cache (msg_question msg ! 0) = None
   \<and> si_pc fl (vch_thread ch) = Idle \<and> si_requests fl = (\<lambda>q. None)
   \<and> service_inv sv \<and> is_order (sch_ifaces (vch_service ch))
   \<and> (\<exists>qs. msg_question resp = q # qs)
   \<and> (\<exists>name_ips cnames ttl. scan_answer (msg_answer resp) ([], None, - 1) = Inr (name_ips, cnames, ttl)
        \<and> cname_path cnames (q_name q) p)
   \<and> addresses_of (last p) (msg_answer resp) \<noteq> []"

text \<open>A record made with a TTL of at least \<open>m\<close> seconds outlives a cache entry that lasts \<open>m\<close> seconds from at most the route
  timeout after the query.\<close>

lemma record_outlives_cache:
  assumes "store_inv (ic_store c)" and "fold (remember_ip nc res) (sort addrs) (c, w) = (c', w')" and "addr \<in> set addrs"
    and "m \<le> uint (dq_ttl res)" and "now \<le> put + m * second" and "put \<le> dq_time res + timeout"
  shows "\<exists>rec. store_get (ic_store c') (dq_domain res) addr = Some rec \<and> \<not> rec_expired now rec timeout"
proof -
  have "store_get (ic_store c') (dq_domain res) addr
      = Some (new_dns_record (dq_domain res) addr (dq_time res + uint (dq_ttl res) * second))"
    using remember_ips_state [OF assms(2)] store_get_remember [OF assms(1)] assms(3) by simp
  moreover have "m * second \<le> uint (dq_ttl res) * second" using assms(4) by (simp add: second_def)
  then have "now \<le> dq_time res + uint (dq_ttl res) * second + timeout" using assms(5,6) by linarith
  ultimately show ?thesis by (simp add: rec_expired_def time_after_def new_dns_record_def)
qed

lemma server_asks:
  assumes "asked_upstream ch msg cache fl sv resp q p"
    and "server_upstream cfg new_mdns_client doh_client dns_client client msg w = Inr (Inr resp, w1)"
  obtains a fl' sv' w' res where
    "server_resolver cfg show_msg nc new_mdns_client doh_client dns_client ch client msg (cache, fl, sv, w)
       = Inr (Inr a, (cache_put (cc_put (vch_cache ch)) cache (msg_question msg ! 0) resp, fl', sv', w'))"
    "same_answer resp a" "sf_step\<^sup>*\<^sup>* fl fl'" "si_requests fl' = (\<lambda>q. None)" "service_inv sv'"
    "ic_cfg (sv_ctl sv') = ic_cfg (sv_ctl sv)"
    "fold (remember_ip nc res) (sort (addresses_of (last p) (msg_answer resp))) (sv_ctl sv, w1) = (sv_ctl sv', w')"
    "dq_domain res = normalize_name (q_name q)" "dq_time res = fst (sch_query (vch_service ch))"
    "set (dq_routed res) = chain_ifaces (vch_service ch) (sv_ctl sv) p"
    "\<And>k. \<forall>r \<in> set (msg_answer resp). k \<le> rr_ttl r \<Longrightarrow> k \<le> dq_ttl res"
proof -
  note a = assms(1) [unfolded asked_upstream_def]
  obtain qs name_ips cnames ttl where
    o: "msg_question resp = q # qs" "scan_answer (msg_answer resp) ([], None, - 1) = Inr (name_ips, cnames, ttl)"
      "cname_path cnames (q_name q) p" using a by blast
  obtain res sv' w' where
    1: "service_resolve show_msg nc (server_upstream cfg new_mdns_client doh_client dns_client) (vch_service ch) client msg (sv, w) = Inr (Inr resp, (sv', w'))"
      "service_inv sv'" "fold (remember_ip nc res) (sort (addresses_of (last p) (msg_answer resp))) (sv_ctl sv, w1) = (sv_ctl sv', w')"
      "dq_domain res = normalize_name (q_name q)" "dq_time res = fst (sch_query (vch_service ch))"
      "dq_ttl res = max (fold (note_ttl cnames) p ttl) 1" "set (dq_routed res) = chain_ifaces (vch_service ch) (sv_ctl sv) p"
      "ic_cfg (sv_ctl sv') = ic_cfg (sv_ctl sv)"
    using service_answers [where s = sv and ch = "vch_service ch" and upstream = "server_upstream cfg new_mdns_client doh_client dns_client" and client = client, OF _ _ _ assms(2) o(1,2,3), of show_msg nc] a by blast
  obtain a' fl' where
    2: "server_resolver cfg show_msg nc new_mdns_client doh_client dns_client ch client msg (cache, fl, sv, w)
      = Inr (Inr a', (cache_put (cc_put (vch_cache ch)) cache (msg_question msg ! 0) resp, fl', sv', w'))"
      "same_answer resp a'" "sf_step\<^sup>*\<^sup>* fl fl'" "si_requests fl' = (\<lambda>q. None)"
    using server_miss [where ch = ch and msg = msg, OF _ _ _ _ 1(1)] a by blast
  have "k \<le> dq_ttl res" if k: "\<forall>r \<in> set (msg_answer resp). k \<le> rr_ttl r" for k
  proof -
    have "k \<le> ttl \<and> (\<forall>n h target. lazy_get cnames n = Some (h, target) \<longrightarrow> k \<le> hdr_ttl h)"
      by (rule scan_answer_lower [OF o(2) k]) simp_all
    then have "k \<le> fold (note_ttl cnames) p ttl" by (intro fold_note_ttl_lower) auto
    then show ?thesis by (simp add: 1(6) max.coboundedI1)
  qed
  then show ?thesis by (rule that [OF 2 1(2,8,3,4,5,7)])
qed

subsection \<open>Properties\<close>

text \<open>Once a client has the answer to a question that had to be asked upstream, and the names of its chain belong
  to one interface, the router's table has a route for every address of the answer: those whose destination had
  none get one through this interface, nothing else changes, and the controller still remembers only routes of the
  table. The answer is what upstream gave, up to TTLs.\<close>

theorem answered_means_routed:
  assumes "asked_upstream ch msg cache fl sv resp q p"
    and "server_upstream cfg new_mdns_client doh_client dns_client client msg w = Inr (Inr resp, w1)"
    and "ip_router ip rule tbl has" and "rule_table rule = ic_table_id (sv_ctl sv)"
    and "in_sync tbl (sv_ctl sv) w1"
    and "chain_ifaces (vch_service ch) (sv_ctl sv) p = {i}" and "word_ok i"
  shows "\<exists>a cache' fl' sv' w'.
      server_resolver cfg show_msg (agent_client ip detail_ok) new_mdns_client doh_client dns_client ch client msg (cache, fl, sv, w)
        = Inr (Inr a, (cache', fl', sv', w'))
    \<and> same_answer resp a
    \<and> tbl w' = tbl w1 \<union> route_of (sv_ctl sv) i ` {addr \<in> set (addresses_of (last p) (msg_answer resp)). addr \<notin> rt_addr ` tbl w1}
    \<and> set (addresses_of (last p) (msg_answer resp)) \<subseteq> rt_addr ` tbl w'
    \<and> has w' = has w1 \<and> in_sync tbl (sv_ctl sv') w'"
proof -
  let ?addrs = "addresses_of (last p) (msg_answer resp)" and ?nc = "agent_client ip detail_ok"
  obtain a fl' sv' w' res where
    r: "server_resolver cfg show_msg ?nc new_mdns_client doh_client dns_client ch client msg (cache, fl, sv, w)
       = Inr (Inr a, (cache_put (cc_put (vch_cache ch)) cache (msg_question msg ! 0) resp, fl', sv', w'))"
      "same_answer resp a" "fold (remember_ip ?nc res) (sort ?addrs) (sv_ctl sv, w1) = (sv_ctl sv', w')"
      "set (dq_routed res) = chain_ifaces (vch_service ch) (sv_ctl sv) p"
    by (rule server_asks [OF assms(1,2), where show_msg = show_msg and nc = ?nc]) (rule that; assumption)
  have "0 \<le> ic_table_id (sv_ctl sv)" "ic_table_id (sv_ctl sv) < 2 ^ 32"
    using assms(3,4) by (auto simp: ip_router_def)
  then have acc: "\<forall>addr \<in> set (sort ?addrs). \<forall>j \<in> set (dq_routed res). acceptable (rule_table rule) (route_of (sv_ctl sv) j addr)"
    using assms(7) by (simp add: r(4) assms(4,6) host_route_acceptable)
  have routed: "set (dq_routed res) = {i}" using r(4) assms(6) by (rule trans)
  then have ne: "dq_routed res \<noteq> []" by (metis empty_not_insert empty_set)
  have hd: "hd (dq_routed res) = i" using hd_in_set [OF ne] unfolding routed by (rule singletonD)
  note rt = remember_ips_router [OF ip_router_keeps [OF assms(3)] acc assms(5) r(3), unfolded hd]
  have tbl: "tbl w' = tbl w1 \<union> route_of (sv_ctl sv) i ` {addr \<in> set ?addrs. addr \<notin> rt_addr ` tbl w1}"
    using rt ne by simp
  moreover have "set ?addrs \<subseteq> rt_addr ` tbl w'"
    unfolding tbl by (auto simp: image_Un image_image route_of_def)
  ultimately show ?thesis using r(1,2) rt by blast
qed

text \<open>C3: An answer whose TTLs are all positive is served from the cache only while its records last: when the question is asked
  again, with nothing between the two calls and no later than the cache keeps the answer, the cache serves it,
  which changes nothing and asks nobody, and the store holds a record for each of its addresses that has not expired by
  the controller's measure. (The answer enters the cache no later than the route timeout after it was recorded. With
  a TTL of zero beside a positive one this fails: the cache goes by the smallest positive TTL, the record by one
  second.)\<close>

theorem cached_answer_stays_routed:
  assumes "asked_upstream ch msg cache fl sv resp q p"
    and "server_upstream cfg new_mdns_client doh_client dns_client client msg w = Inr (Inr resp, w1)"
    and "\<forall>r \<in> set (msg_answer resp). 0 < rr_ttl r"
    and "cc_put (vch_cache ch) \<le> fst (sch_query (vch_service ch)) + rd_route_timeout (rc_dynamic (ic_cfg (sv_ctl sv)))"
    and "msg_question msg2 = msg_question msg"
    and "cc_get (vch_cache ch2) \<le> cc_put (vch_cache ch) + Min (positive_ttls (msg_answer resp)) * second"
  shows "\<exists>a s'. server_resolver cfg show_msg nc new_mdns_client doh_client dns_client ch client msg (cache, fl, sv, w)
        = Inr (Inr a, s')
    \<and> (\<exists>a2. server_resolver cfg show_msg nc new_mdns_client doh_client dns_client ch2 client2 msg2 s' = Inr (Inr a2, s')
          \<and> same_answer resp a2 \<and> msg_id a2 = msg_id msg2)
    \<and> (case s' of (cache', fl', sv', w') \<Rightarrow>
         \<forall>addr \<in> set (addresses_of (last p) (msg_answer resp)).
           \<exists>rec. store_get (ic_store (sv_ctl sv')) (normalize_name (q_name q)) addr = Some rec
             \<and> \<not> rec_expired (cc_get (vch_cache ch2)) rec (rd_route_timeout (rc_dynamic (ic_cfg (sv_ctl sv')))))"
proof -
  let ?addrs = "addresses_of (last p) (msg_answer resp)" and ?q = "msg_question msg ! 0"
  let ?cache = "cache_put (cc_put (vch_cache ch)) cache ?q resp" and ?now = "cc_get (vch_cache ch2)"
  let ?min = "Min (positive_ttls (msg_answer resp))"
  obtain a fl' sv' w' res where
    r: "server_resolver cfg show_msg nc new_mdns_client doh_client dns_client ch client msg (cache, fl, sv, w)
       = Inr (Inr a, (?cache, fl', sv', w'))"
      "ic_cfg (sv_ctl sv') = ic_cfg (sv_ctl sv)"
      "fold (remember_ip nc res) (sort ?addrs) (sv_ctl sv, w1) = (sv_ctl sv', w')"
      "dq_domain res = normalize_name (q_name q)" "dq_time res = fst (sch_query (vch_service ch))"
      "\<And>k. \<forall>r \<in> set (msg_answer resp). k \<le> rr_ttl r \<Longrightarrow> k \<le> dq_ttl res"
    by (rule server_asks [OF assms(1,2), where show_msg = show_msg and nc = nc]) (rule that; assumption)
  note up = assms(1) [unfolded asked_upstream_def]
  have single: "has_single_question msg [type_a]" using up by blast
  have single2: "has_single_question msg2 [type_a]" using single unfolding has_single_question_def assms(5) .
  have "?addrs \<noteq> []" using up by blast
  then have ne: "msg_answer resp \<noteq> []" by (auto simp: addresses_of_def)
  have pos: "positive_ttls (msg_answer resp) = (\<lambda>r. uint (rr_ttl r)) ` set (msg_answer resp)"
    using assms(3) by (auto simp: positive_ttls_def word_less_def)
  with ne have nonempty: "positive_ttls (msg_answer resp) \<noteq> {}" by simp
  let ?e = "\<lparr>ce_result = resp, ce_expires = cc_put (vch_cache ch) + ?min * second\<rparr>"
  have hit: "cache_get ?now (cc_result (vch_cache ch2)) ?cache (msg_question msg2 ! 0)
      = Some (entry_result (cc_result (vch_cache ch2)) ?e)"
    using assms(6) by (simp add: assms(5) cache_get_def cache_put_stores [OF nonempty] entry_expired_def time_after_def)
  obtain a2 where a2: "server_resolver cfg show_msg nc new_mdns_client doh_client dns_client ch2 client2 msg2 (?cache, fl', sv', w')
      = Inr (Inr a2, (?cache, fl', sv', w'))"
      "same_answer (entry_result (cc_result (vch_cache ch2)) ?e\<lparr>msg_id := msg_id msg2\<rparr>) a2" "msg_id a2 = msg_id msg2"
    using server_hit [OF single2 hit] by blast
  have "same_answer resp a2"
    using same_answer_trans [OF same_answer_entry [of ?e] a2(2)] by simp
  moreover have "\<exists>rec. store_get (ic_store (sv_ctl sv')) (normalize_name (q_name q)) addr = Some rec
       \<and> \<not> rec_expired ?now rec (rd_route_timeout (rc_dynamic (ic_cfg (sv_ctl sv'))))" if addr: "addr \<in> set ?addrs" for addr
  proof -
    have inv: "store_inv (ic_store (sv_ctl sv))" using up by (simp add: service_inv_def)
    have "?min \<in> positive_ttls (msg_answer resp)" using nonempty by (intro Min_in) simp_all
    then obtain r0 where r0: "?min = uint (rr_ttl r0)" by (auto simp: pos)
    have "\<forall>r \<in> set (msg_answer resp). rr_ttl r0 \<le> rr_ttl r"
      unfolding word_le_def r0 [symmetric] by (auto simp: pos)
    then have "rr_ttl r0 \<le> dq_ttl res" by (rule r(6))
    then have "?min \<le> uint (dq_ttl res)" unfolding r0 by (simp add: word_le_def)
    from record_outlives_cache [OF inv r(3) addr this assms(6)] assms(4) show ?thesis by (simp add: r(2,4,5))
  qed
  ultimately show ?thesis using r(1) a2(1,3) by (intro exI [of _ a] exI [of _ "(?cache, fl', sv', w')"]) simp
qed

definition sample_choice_at :: "instant \<Rightarrow> (unit, unit) server_choice" where
  "sample_choice_at t = \<lparr>vch_cache = sample_clock t, vch_service = sample_svc_choice, vch_thread = 0, vch_ctx_err = ''context canceled''\<rparr>"

definition sample_server_config :: config where
  "sample_server_config = sample_config\<lparr>cfg_dns_provider := ''1.1.1.1:53'', cfg_mdns := \<lparr>md_domains = [], md_addr = [], md_query_timeout = 0\<rparr>\<rparr>"

text \<open>An upstream that answers every question with one address.\<close>

definition sample_upstream :: "string \<Rightarrow> 's resolver" where
  "sample_upstream addr client msg s = Inr (Inr (sample_msg [sample_answer 60]), s)"

lemma sample_server_upstream:
  "server_upstream sample_server_config mc doh sample_upstream client msg w = Inr (Inr (sample_msg [sample_answer 60]), w)"
proof -
  have "\<not> should_process_query (cfg_mdns sample_server_config) msg"
    by (simp add: should_process_query_def sample_server_config_def)
  then show ?thesis
    by (simp add: server_upstream_def mdns_resolve_def dns_provider_def sample_upstream_def sample_server_config_def has_prefix_def)
qed

lemma sample_asked:
  assumes "service_inv sv"
  shows "asked_upstream (sample_choice_at t) (sample_msg []) new_dns_cache new_single_inflight sv (sample_msg [sample_answer 60])
     sample_question [''a.example.'']"
  unfolding asked_upstream_def
proof (intro conjI)
  show "has_single_question (sample_msg []) [type_a]"
    by (simp add: has_single_question_def sample_msg_def sample_question_def)
  show "cache_get (cc_get (vch_cache (sample_choice_at t))) (cc_result (vch_cache (sample_choice_at t))) new_dns_cache (msg_question (sample_msg []) ! 0) = None"
    by (simp add: cache_get_def new_dns_cache_def)
  show "si_pc new_single_inflight (vch_thread (sample_choice_at t)) = Idle" "si_requests new_single_inflight = (\<lambda>q. None)"
    by (simp_all add: new_single_inflight_def)
  show "service_inv sv" by (rule assms)
  show "is_order (sch_ifaces (vch_service (sample_choice_at t)))" by (simp add: sample_choice_at_def sample_svc_choice_def)
  show "\<exists>qs. msg_question (sample_msg [sample_answer 60]) = sample_question # qs" by (simp add: sample_msg_def)
  have "cname_path None (q_name sample_question) [''a.example.'']" by (simp add: cname_path_end sample_question_def)
  moreover have "scan_answer (msg_answer (sample_msg [sample_answer 60])) ([], None, - 1) = Inr ([(''a.example.'', [IPv4 1 2 3 4 32])], None, 60)"
    using sample_scan by (simp add: sample_msg_def)
  ultimately show "\<exists>name_ips cnames ttl. scan_answer (msg_answer (sample_msg [sample_answer 60])) ([], None, - 1) = Inr (name_ips, cnames, ttl)
      \<and> cname_path cnames (q_name sample_question) [''a.example.'']" by blast
  show "addresses_of (last [''a.example.'']) (msg_answer (sample_msg [sample_answer 60])) \<noteq> []"
    using sample_addresses by (simp add: sample_msg_def)
qed

lemma sample_chain:
  assumes "sv_ctl sv = sample_ctl"
  shows "chain_ifaces (vch_service (sample_choice_at t)) (sv_ctl sv) [''a.example.''] = {''tun0''}"
proof -
  have "normalize_name ''a.example.'' = ''a.example''" by (simp add: normalize_name_def trim_right_def)
  moreover have "routing_lookup_host rev sample_routing ''a.example'' = ''tun0''"
    by code_simp
  ultimately show ?thesis
    by (auto simp: chain_ifaces_def assms ctl_lookup_host_def sample_choice_at_def sample_svc_choice_def)
qed

theorem answered_means_routed_witness:
  "\<exists>s0 a cache' fl' sv' w'. new_server_state sample_server_config sample_ctl ([], True) = Inr s0
    \<and> server_resolver sample_server_config (\<lambda>m. []) (agent_client sample_ip (\<lambda>d. True)) (\<lambda>c. sample_upstream []) sample_upstream sample_upstream
        (sample_choice_at 0) ''10.0.0.2:5000'' (sample_msg []) (s0 :: (unit, unit, sample_router) server_state)
       = Inr (Inr a, (cache', fl', sv', w'))
    \<and> set (sample_table w') = {\<lparr>rt_table = 1000, rt_iface = ''tun0'', rt_addr = IPv4 1 2 3 4 32\<rparr>}"
proof -
  have hist: "cfg_dns_query_history_size sample_server_config > 0" by (simp add: sample_server_config_def sample_config_def)
  obtain sv :: "(unit, unit) service" where sv: "new_dns_routing_service sample_ctl (cfg_dns_query_history_size sample_server_config) = Inr sv"
    "sv_ctl sv = sample_ctl" "service_inv sv"
    using new_service_inv [OF hist, of sample_ctl] by auto
  have table: "rule_table sample_rule = ic_table_id (sv_ctl sv)" by (simp add: sv(2) sample_rule_def)
  have sync: "in_sync (\<lambda>w. set (sample_table w)) (sv_ctl sv) ([], True)" by (simp add: in_sync_def sv(2))
  have tun0: "word_ok ''tun0''" by (simp add: word_ok_def is_space_def)
  have addrs: "addresses_of (last [''a.example.'']) (msg_answer (sample_msg [sample_answer 60])) = [IPv4 1 2 3 4 32]"
    using sample_addresses by (simp add: sample_msg_def)
  have empty: "set (sample_table ([], True)) = {}" by (simp add: sample_table_def)
  obtain a cache' fl' sv' w' where
    r: "server_resolver sample_server_config (\<lambda>m. []) (agent_client sample_ip (\<lambda>d. True)) (\<lambda>c. sample_upstream []) sample_upstream sample_upstream
        (sample_choice_at 0) ''10.0.0.2:5000'' (sample_msg []) (new_dns_cache, new_single_inflight, sv, ([], True)) = Inr (Inr a, (cache', fl', sv', w'))"
      "set (sample_table w') = set (sample_table ([], True)) \<union> route_of (sv_ctl sv) ''tun0'' ` {addr \<in> set [IPv4 1 2 3 4 32]. addr \<notin> rt_addr ` set (sample_table ([], True))}"
    using answered_means_routed [OF sample_asked [OF sv(3), of 0] sample_server_upstream sample_ip_router table sync sample_chain [OF sv(2)] tun0,
        where show_msg = "\<lambda>m. []" and detail_ok = "\<lambda>d. True" and client = "''10.0.0.2:5000''" and new_mdns_client = "\<lambda>c. sample_upstream []"
          and doh_client = sample_upstream, unfolded addrs] by blast
  have "set (sample_table w') = {\<lparr>rt_table = 1000, rt_iface = ''tun0'', rt_addr = IPv4 1 2 3 4 32\<rparr>}"
    unfolding r(2) empty by (simp add: route_of_def sv(2))
  moreover have "new_server_state sample_server_config sample_ctl ([], True) = Inr (new_dns_cache, new_single_inflight, sv, ([], True))"
    by (simp add: new_server_state_def sv(1))
  ultimately show ?thesis using r(1) by blast
qed

theorem cached_answer_stays_routed_witness:
  "\<exists>sv a s' a2. new_dns_routing_service sample_ctl 5 = Inr (sv :: (unit, unit) service)
    \<and> server_resolver sample_server_config (\<lambda>m. []) (fixed_client []) (\<lambda>c. sample_upstream []) sample_upstream sample_upstream
        (sample_choice_at 0) ''10.0.0.2:5000'' (sample_msg []) (new_dns_cache, new_single_inflight, sv, ()) = Inr (Inr a, s')
    \<and> server_resolver sample_server_config (\<lambda>m. []) (fixed_client []) (\<lambda>c. sample_upstream []) sample_upstream sample_upstream
        (sample_choice_at (60 * second)) ''10.0.0.3:5000'' (sample_msg []) s' = Inr (Inr a2, s')
    \<and> (case s' of (cache', fl', sv', w') \<Rightarrow> \<exists>rec. store_get (ic_store (sv_ctl sv')) ''a.example'' (IPv4 1 2 3 4 32) = Some rec
         \<and> \<not> rec_expired (60 * second) rec (rd_route_timeout (rc_dynamic (ic_cfg (sv_ctl sv')))))"
proof -
  obtain sv :: "(unit, unit) service" where sv: "new_dns_routing_service sample_ctl 5 = Inr sv" "sv_ctl sv = sample_ctl" "service_inv sv"
    using new_service_inv [of 5 sample_ctl] by auto
  have addrs: "addresses_of (last [''a.example.'']) (msg_answer (sample_msg [sample_answer 60])) = [IPv4 1 2 3 4 32]"
    using sample_addresses by (simp add: sample_msg_def)
  have norm: "normalize_name (q_name sample_question) = ''a.example''"
    by (simp add: sample_question_def normalize_name_def trim_right_def)
  have pos: "\<forall>r \<in> set (msg_answer (sample_msg [sample_answer 60])). 0 < rr_ttl r"
    by (simp add: sample_msg_def sample_answer_def)
  have put: "cc_put (vch_cache (sample_choice_at 0)) \<le> fst (sch_query (vch_service (sample_choice_at 0)))
      + rd_route_timeout (rc_dynamic (ic_cfg (sv_ctl sv)))"
    by (simp add: sample_choice_at_def sample_clock_def sample_svc_choice_def sv(2) sample_routing_def second_def)
  have "positive_ttls (msg_answer (sample_msg [sample_answer 60])) = {60}"
    by (auto simp: positive_ttls_def sample_msg_def sample_answer_def)
  then have later: "cc_get (vch_cache (sample_choice_at (60 * second))) \<le> cc_put (vch_cache (sample_choice_at 0))
      + Min (positive_ttls (msg_answer (sample_msg [sample_answer 60]))) * second"
    by (simp add: sample_choice_at_def sample_clock_def)
  have now: "cc_get (vch_cache (sample_choice_at (60 * second))) = 60 * second"
    by (simp add: sample_choice_at_def sample_clock_def)
  note c = cached_answer_stays_routed [OF sample_asked [OF sv(3), of 0] sample_server_upstream pos put refl later,
      where show_msg = "\<lambda>m. []" and nc = "fixed_client []" and client = "''10.0.0.2:5000''" and ?client2.0 = "''10.0.0.3:5000''"
        and new_mdns_client = "\<lambda>c. sample_upstream []" and doh_client = sample_upstream and w = "()", unfolded addrs norm now]
  obtain a s' a2 where
    "server_resolver sample_server_config (\<lambda>m. []) (fixed_client []) (\<lambda>c. sample_upstream []) sample_upstream sample_upstream
        (sample_choice_at 0) ''10.0.0.2:5000'' (sample_msg []) (new_dns_cache, new_single_inflight, sv, ()) = Inr (Inr a, s')"
    "server_resolver sample_server_config (\<lambda>m. []) (fixed_client []) (\<lambda>c. sample_upstream []) sample_upstream sample_upstream
        (sample_choice_at (60 * second)) ''10.0.0.3:5000'' (sample_msg []) s' = Inr (Inr a2, s')"
    "case s' of (cache', fl', sv', w') \<Rightarrow>
         \<forall>addr \<in> set [IPv4 1 2 3 4 32]. \<exists>rec. store_get (ic_store (sv_ctl sv')) ''a.example'' addr = Some rec
         \<and> \<not> rec_expired (60 * second) rec (rd_route_timeout (rc_dynamic (ic_cfg (sv_ctl sv'))))"
    using c by blast
  moreover from this(3) have "case s' of (cache', fl', sv', w') \<Rightarrow> \<exists>rec. store_get (ic_store (sv_ctl sv')) ''a.example'' (IPv4 1 2 3 4 32) = Some rec
         \<and> \<not> rec_expired (60 * second) rec (rd_route_timeout (rc_dynamic (ic_cfg (sv_ctl sv'))))"
    by (cases s') simp
  ultimately show ?thesis using sv(1) by blast
qed

end
