(* ===== verification/Startup.thy ===== *)
theory Startup
  imports Server
begin

text \<open>
  Start and restart: \<open>initDNSStore\<close> and the first part of \<open>main\<close> (\<open>dns-server/cmd/main.go\<close>), from the
  saved records to the routes of the router's table after the first reconciliation.
\<close>

subsection \<open>Starting and restarting\<close>

text \<open>\<open>initDNSStore\<close>: what it does at once, and the function it returns. Level 8 is an error, 0 information.\<close>

definition init_dns_store ::
  "('b, 'w) slog_base \<Rightarrow> int \<Rightarrow> instant \<Rightarrow> (string \<Rightarrow> string + dns_record list) \<Rightarrow> string \<Rightarrow> open_file \<Rightarrow> 'b handler
     \<Rightarrow> dns_store \<Rightarrow> 'w log_state \<Rightarrow> (dns_store \<times> 'w log_state) panicking"
where
  "init_dns_store ops millis now decode file dump logger store ls =
     (let logger = logger_with ops [(''file'', LText file)] logger in
      case store_load decode store dump of
        (store, None) \<Rightarrow> Inr (store, ls)
      | (store, Some err) \<Rightarrow>
          (case logger_log ops millis logger
                  \<lparr>lr_time = now, lr_level = 8, lr_message = ''failed to load'', lr_attrs = [(''err'', LText err)]\<rparr> ls of
             Inl panic \<Rightarrow> Inl panic
           | Inr ls \<Rightarrow> Inr (store, ls)))"

definition save_dns_store ::
  "('b, 'w) slog_base \<Rightarrow> int \<Rightarrow> instant \<Rightarrow> (dns_record list \<Rightarrow> string + string) \<Rightarrow> store_order \<Rightarrow> string \<Rightarrow> string option \<Rightarrow> 'b handler
     \<Rightarrow> dns_store \<Rightarrow> 'w log_state \<Rightarrow> (string option \<times> 'w log_state) panicking"
where
  "save_dns_store ops millis now encode ord file open_err logger store ls =
     (let logger = logger_with ops [(''file'', LText file)] logger in
      case logger_log ops millis logger \<lparr>lr_time = now, lr_level = 0, lr_message = ''saving ...'', lr_attrs = []\<rparr> ls of
        Inl panic \<Rightarrow> Inl panic
      | Inr ls \<Rightarrow>
          (case store_save encode ord open_err store of
             (written, None) \<Rightarrow> Inr (written, ls)
           | (written, Some err) \<Rightarrow>
               (case logger_log ops millis logger
                       \<lparr>lr_time = now, lr_level = 8, lr_message = ''failed to save'', lr_attrs = [(''err'', LText err)]\<rparr> ls of
                  Inl panic \<Rightarrow> Inl panic
                | Inr ls \<Rightarrow> Inr (written, ls))))"

text \<open>What \<open>main\<close> does up to the first reconciliation: the store from the dump, the controller on it, \<open>Start\<close>.\<close>

definition start_controller ::
  "config \<Rightarrow> (string \<Rightarrow> string + dns_record list) \<Rightarrow> open_file \<Rightarrow> ('w, 'e) network_client \<Rightarrow> store_order
     \<Rightarrow> (dns_record \<Rightarrow> (string \<times> hosts) order) \<Rightarrow> reconcile_choice \<Rightarrow> 'w \<Rightarrow> (ip_ctl \<times> 'w) panicking"
where
  "start_controller cfg decode dump nc ord hosts_ord ch w =
     (let store = fst (store_load decode new_dns_store dump);
          ctl = new_ip_route_controller (cfg_routing cfg) store (cfg_reconcile_interval cfg) (cfg_reconcile_timeout cfg)
      in ctl_start nc ord hosts_ord ch (ctl, w))"

text \<open>The routes of the records of a store that belong to an interface by their own domain.\<close>

definition saved_routes :: "(dns_record \<Rightarrow> (string \<times> hosts) order) \<Rightarrow> routing_config \<Rightarrow> dns_store \<Rightarrow> ip_route set" where
  "saved_routes hosts_ord cfg st =
     {r. \<exists>d rec. store_get st d (rt_addr r) = Some rec \<and> rt_table r = rule_table (rc_rule cfg)
             \<and> rt_iface r = routing_lookup_host (hosts_ord rec) cfg d \<and> rt_iface r \<noteq> []}"

lemma ctl_init_state:
  "set_inv (ic_routes s) \<Longrightarrow> same_but_routes s (ctl_init ord hosts_ord cfg s) \<and> set_inv (ic_routes (ctl_init ord hosts_ord cfg s))"
  using fold_init [of s "\<lambda>rec. routing_lookup_host (hosts_ord rec) cfg (rec_domain rec)"
      "\<lambda>rec. \<lparr>rt_table = rule_table (rc_rule cfg), rt_iface = routing_lookup_host (hosts_ord rec) cfg (rec_domain rec), rt_addr = rec_ip rec\<rparr>"
      "store_records ord (ic_store s)"]
  by (simp add: ctl_init_def Let_def)

text \<open>What is in the table, and what is remembered, after a start on a store that was loaded.\<close>

lemma start_controller_table:
  assumes "store_load decode new_dns_store dump = (store, err)" and "store_inv store"
    and router: "ip_router ip (rc_rule (cfg_routing cfg)) tbl has" and "choice_ok ch" and "store_order_ok ord"
    and acc: "\<forall>r \<in> saved_routes hosts_ord (cfg_routing cfg) store \<union> static_set (cfg_routing cfg).
        acceptable (rule_table (rc_rule (cfg_routing cfg))) r"
    and inj: "inj_on rt_addr (saved_routes hosts_ord (cfg_routing cfg) store \<union> static_set (cfg_routing cfg))"
  shows "\<exists>s' w' W. start_controller cfg decode dump (agent_client ip detail_ok) ord hosts_ord ch w = Inr (s', w')
    \<and> W = {r \<in> saved_routes hosts_ord (cfg_routing cfg) store.
            \<exists>d rec. store_get store d (rt_addr r) = Some rec
              \<and> \<not> rec_expired (rch_purge_clock ch rec) rec (rd_route_timeout (rc_dynamic (cfg_routing cfg)))
              \<and> \<not> rec_expired (rch_clock ch r rec) rec (rd_route_timeout (rc_dynamic (cfg_routing cfg)))} \<union> static_set (cfg_routing cfg)
    \<and> has w' \<and> tbl w' = (tbl w \<inter> W) \<union> {r \<in> W. dest_free (tbl w) r}
    \<and> set_elems (ic_routes s') = (saved_routes hosts_ord (cfg_routing cfg) store \<union> {r \<in> W. dest_free (tbl w) r}) - (tbl w - W)
    \<and> ic_table_id s' = rule_table (rc_rule (cfg_routing cfg)) \<and> set_inv (ic_routes s')"
proof -
  let ?cfg = "cfg_routing cfg" and ?timeout = "rd_route_timeout (rc_dynamic (cfg_routing cfg))"
  define c where "c = new_ip_route_controller ?cfg store (cfg_reconcile_interval cfg) (cfg_reconcile_timeout cfg)"
  have c: "ic_cfg c = ?cfg" "ic_store c = store" "ic_routes c = None" "ic_table_id c = rule_table (rc_rule ?cfg)"
    by (simp_all add: c_def new_ip_route_controller_def)
  define s where "s = ctl_init ord hosts_ord ?cfg c"
  have s: "same_but_routes c s" "set_inv (ic_routes s)" using ctl_init_state [of c] c(3) by (simp_all add: s_def)
  have s_sel: "ic_cfg s = ?cfg" "ic_store s = store" "ic_table_id s = rule_table (rc_rule ?cfg)" using same_but_routesD [OF s(1)] c by simp_all
  have "store_inv (ic_store c)" "set_inv (ic_routes c)" using assms(2) by (simp_all add: c)
  from start_takes_over_routes [OF this(1) assms(5) this(2), of hosts_ord ?cfg]
  have routes: "set_elems (ic_routes s) = saved_routes hosts_ord ?cfg store"
    by (simp add: s_def c saved_routes_def)
  have purge: "store_get (ic_store (purged ch s)) d a =
      (case store_get store d a of None \<Rightarrow> None | Some r \<Rightarrow> if rec_expired (rch_purge_clock ch r) r ?timeout then None else Some r)" for d a
    using store_get_remove_expired(2) [OF assms(2), of "rch_purge_order ch"] assms(4) by (simp add: purged_def s_sel choice_ok_def)
  have live: "has_live_record (rch_clock ch r) ?timeout (ic_store (purged ch s)) (rt_addr r) \<longleftrightarrow>
      (\<exists>d rec. store_get store d (rt_addr r) = Some rec \<and> \<not> rec_expired (rch_purge_clock ch rec) rec ?timeout
         \<and> \<not> rec_expired (rch_clock ch r rec) rec ?timeout)" for r
    unfolding has_live_record_def purge by (auto split: option.splits if_splits)
  have wants: "wants ch s = {r \<in> saved_routes hosts_ord ?cfg store.
            \<exists>d rec. store_get store d (rt_addr r) = Some rec \<and> \<not> rec_expired (rch_purge_clock ch rec) rec ?timeout
              \<and> \<not> rec_expired (rch_clock ch r rec) rec ?timeout} \<union> static_set ?cfg"
    by (simp add: wants_def wanted_set_def s_sel routes live)
  then have sub: "wants ch s \<subseteq> saved_routes hosts_ord ?cfg store \<union> static_set ?cfg" by blast
  have accW: "\<forall>r \<in> wants ch s. acceptable (rule_table (rc_rule (ic_cfg s))) r" using acc sub by (auto simp: s_sel)
  have injW: "inj_on rt_addr (wants ch s)" using inj sub by (rule inj_on_subset)
  have router_s: "keeps_router (agent_client ip detail_ok) (rc_rule (ic_cfg s)) tbl has"
    using ip_router_keeps [OF router] by (simp add: s_sel)
  from ctl_reconcile_table [OF router_s assms(4) s(2) _ accW injW, of w] obtain s' w' where
    r: "ctl_reconcile (agent_client ip detail_ok) ch (s, w) = Inr (s', w')" "has w'" "same_but_routes (purged ch s) s'" "set_inv (ic_routes s')"
      "tbl w' = (tbl w \<inter> wants ch s) \<union> {r \<in> wants ch s. dest_free (tbl w) r}"
      "set_elems (ic_routes s') = (set_elems (ic_routes s) \<union> {r \<in> wants ch s. dest_free (tbl w) r}) - (tbl w - wants ch s)"
    using assms(2) by (auto simp: s_sel)
  have start: "start_controller cfg decode dump (agent_client ip detail_ok) ord hosts_ord ch w = Inr (s', w')"
    using r(1) assms(1) by (simp add: start_controller_def ctl_start_def Let_def s_def c_def [symmetric] c(1))
  have "ic_table_id s' = rule_table (rc_rule ?cfg)" using same_but_routesD(2) [OF r(3)] by (simp add: purged_def s_sel)
  with start wants r(2,4-6) show ?thesis unfolding routes by blast
qed

text \<open>The routes of saved records that are alive in a reconciliation: some record of the address has expired neither by
  the clock of the clean-up nor by the one of the pass over the routes.\<close>

definition live_saved_routes ::
  "(dns_record \<Rightarrow> (string \<times> hosts) order) \<Rightarrow> routing_config \<Rightarrow> reconcile_choice \<Rightarrow> dns_store \<Rightarrow> ip_route set"
where
  "live_saved_routes hosts_ord cfg ch st =
     {r \<in> saved_routes hosts_ord cfg st.
        \<exists>d rec. store_get st d (rt_addr r) = Some rec
          \<and> \<not> rec_expired (rch_purge_clock ch rec) rec (rd_route_timeout (rc_dynamic cfg))
          \<and> \<not> rec_expired (rch_clock ch r rec) rec (rd_route_timeout (rc_dynamic cfg))}"

text \<open>C7: A restart with the records saved before reconciles the table with the routes that belong, by the
  domain of the record itself, to a saved record, as far as the address still has an unexpired record, and with the
  static routes. A route of the table stays exactly when it is one of them: a route is deleted when all saved
  records of its address have expired, and when only an alias of the domain had asked for it. The routes of them that
  the table lacks are added where their destination is free; the theorem gives the exact table. (The
  wanted routes have acceptable interface names and distinct destinations.)\<close>

theorem restart_keeps_own_routes:
  assumes "store_inv st" and "store_order_ok sord"
    and codec: "\<And>rs content. encode rs = Inr content \<Longrightarrow> decode content = Inr rs"
    and saved: "store_save encode sord None st = (Some content, None)"
    and router: "ip_router ip (rc_rule (cfg_routing cfg)) tbl has" and "choice_ok ch" and "store_order_ok ord"
    and acc: "\<forall>r \<in> saved_routes hosts_ord (cfg_routing cfg) st \<union> static_set (cfg_routing cfg).
        acceptable (rule_table (rc_rule (cfg_routing cfg))) r"
    and inj: "inj_on rt_addr (saved_routes hosts_ord (cfg_routing cfg) st \<union> static_set (cfg_routing cfg))"
  shows "let W = live_saved_routes hosts_ord (cfg_routing cfg) ch st \<union> static_set (cfg_routing cfg) in
    \<exists>s' w'. start_controller cfg decode (FileData content) (agent_client ip detail_ok) ord hosts_ord ch w = Inr (s', w')
      \<and> has w'
      \<and> tbl w' = (tbl w \<inter> W) \<union> {r \<in> W. dest_free (tbl w) r}
      \<and> (\<forall>r \<in> tbl w. r \<in> tbl w' \<longleftrightarrow> r \<in> W)"
proof -
  let ?cfg = "cfg_routing cfg"
  have "encode (store_records sord st) = Inr content"
    using saved by (auto simp: store_save_def split: sum.splits)
  then have dec: "decode content = Inr (store_records sord st)" by (rule codec)
  define store where "store = store_fill new_dns_store (store_records sord st)"
  have load: "store_load decode new_dns_store (FileData content) = (store, None)"
    by (simp add: store_load_def dec store_def)
  have get: "store_get store d a = store_get st d a" for d a
    unfolding store_def by (rule store_fill_records [OF assms(1,2)])
  have own: "saved_routes hosts_ord ?cfg store = saved_routes hosts_ord ?cfg st" by (simp add: saved_routes_def get)
  have inv: "store_inv store" unfolding store_def by simp
  let ?W = "live_saved_routes hosts_ord ?cfg ch st \<union> static_set ?cfg"
  from start_controller_table [OF load inv router assms(6,7), of hosts_ord detail_ok w] acc inj obtain s' w' where
    start: "start_controller cfg decode (FileData content) (agent_client ip detail_ok) ord hosts_ord ch w = Inr (s', w')" "has w'"
    and tbl: "tbl w' = (tbl w \<inter> ?W) \<union> {r \<in> ?W. dest_free (tbl w) r}"
    unfolding own get live_saved_routes_def [symmetric] by blast
  have "r \<in> tbl w' \<longleftrightarrow> r \<in> ?W" if "r \<in> tbl w" for r using that unfolding tbl by blast
  with start tbl show ?thesis unfolding Let_def by blast
qed

definition sample_saved :: dns_store where
  "sample_saved = store_add new_dns_store sample_record"

lemma sample_saved_inv: "store_inv sample_saved"
  by (simp add: sample_saved_def)

lemma sample_saved_get: "store_get sample_saved d a = (if d = ''a.example'' \<and> a = IPv4 1 2 3 4 32 then Some sample_record else None)"
  unfolding sample_saved_def by (simp add: store_get_add) (auto simp: sample_record_def new_dns_record_def)

lemma sample_lookup_own: "routing_lookup_host rev sample_routing ''a.example'' = ''tun0''"
  by (simp add: routing_lookup_host_def sample_routing_def has_suffix_def)

lemma sample_saved_routes: "saved_routes (\<lambda>r. rev) sample_routing sample_saved = {sample_listed}"
proof -
  have "rule_table (rc_rule sample_routing) = 1000" by simp
  then show ?thesis
    by (auto simp: saved_routes_def sample_saved_get sample_lookup_own sample_listed_def intro: ip_route.equality)
qed

lemma sample_static: "static_set sample_routing = {\<lparr>rt_table = 1000, rt_iface = ''tun0'', rt_addr = IPv4 10 0 0 0 8\<rparr>}"
  by (auto simp: static_set_def sample_routing_def sample_rule_def intro: ip_route.equality)

definition sample_dump_codec :: "dns_record list \<Rightarrow> string + string" where
  "sample_dump_codec rs = (if rs = [sample_record] then Inr ''dump'' else Inl ''no'')"

definition sample_dump_decode :: "string \<Rightarrow> string + dns_record list" where
  "sample_dump_decode content = (if content = ''dump'' then Inr [sample_record] else Inl ''bad'')"

theorem restart_keeps_own_routes_witness:
  "\<exists>s' w' s'' w''.
     start_controller sample_config sample_dump_decode (FileData ''dump'') (agent_client sample_ip (\<lambda>d. True))
        (rev, rev) (\<lambda>r. rev) sample_choice
        ([sample_listed, \<lparr>rt_table = 1000, rt_iface = ''tun1'', rt_addr = IPv4 5 6 7 8 32\<rparr>], False) = Inr (s', w')
     \<and> sample_listed \<in> set (sample_table w') \<and> \<lparr>rt_table = 1000, rt_iface = ''tun1'', rt_addr = IPv4 5 6 7 8 32\<rparr> \<notin> set (sample_table w')
     \<and> start_controller sample_config sample_dump_decode (FileData ''dump'') (agent_client sample_ip (\<lambda>d. True))
        (rev, rev) (\<lambda>r. rev) (sample_choice\<lparr>rch_purge_clock := \<lambda>r. 10 ^ 18\<rparr>)
        ([sample_listed, \<lparr>rt_table = 1000, rt_iface = ''tun1'', rt_addr = IPv4 5 6 7 8 32\<rparr>], False) = Inr (s'', w'')
     \<and> sample_listed \<notin> set (sample_table w'')"
proof -
  let ?other = "\<lparr>rt_table = 1000, rt_iface = ''tun1'', rt_addr = IPv4 5 6 7 8 32\<rparr>"
  let ?w = "([sample_listed, ?other], False)" and ?late = "sample_choice\<lparr>rch_purge_clock := \<lambda>r. 10 ^ 18\<rparr>"
  have records: "store_records (rev, rev) sample_saved = [sample_record]"
    by (simp add: sample_saved_def store_records_def store_iterate_def store_add_def mm_set_def new_dns_store_def)
  have codec: "sample_dump_decode content = Inr rs" if "sample_dump_codec rs = Inr content" for rs content
    using that by (simp add: sample_dump_codec_def sample_dump_decode_def split: if_splits)
  have saved: "store_save sample_dump_codec (rev, rev) None sample_saved = (Some ''dump'', None)"
    by (simp add: store_save_def records sample_dump_codec_def)
  have cfg: "cfg_routing sample_config = sample_routing" by (simp add: sample_config_def)
  have ord: "store_order_ok (rev, rev)" by (simp add: store_order_ok_def)
  have late: "choice_ok ?late" using sample_choice_ok by (simp add: choice_ok_def)
  have router: "ip_router sample_ip (rc_rule (cfg_routing sample_config)) (\<lambda>w. set (sample_table w)) snd"
    using sample_ip_router by (simp add: cfg sample_routing_def)
  have words: "word_ok ''tun0''" "word_ok ''tun1''" by (simp_all add: word_ok_def is_space_def)
  have acc: "\<forall>r \<in> saved_routes (\<lambda>r. rev) (cfg_routing sample_config) sample_saved \<union> static_set (cfg_routing sample_config).
      acceptable (rule_table (rc_rule (cfg_routing sample_config))) r"
    using words by (simp add: cfg sample_saved_routes sample_static sample_listed_def acceptable_def route_ok_def ipv4_ok_def)
  have inj: "inj_on rt_addr (saved_routes (\<lambda>r. rev) (cfg_routing sample_config) sample_saved \<union> static_set (cfg_routing sample_config))"
    by (simp add: cfg sample_saved_routes sample_static sample_listed_def)
  have table: "sample_listed \<in> set (sample_table ?w)" "?other \<in> set (sample_table ?w)"
    using words by (simp_all add: sample_table_def sample_listed_def acceptable_def route_ok_def ipv4_ok_def)
  have fresh: "live_saved_routes (\<lambda>r. rev) sample_routing sample_choice sample_saved = {sample_listed}"
    unfolding live_saved_routes_def sample_saved_routes
    by (auto simp: sample_saved_get sample_listed_def sample_record_def new_dns_record_def
        rec_expired_def time_after_def sample_choice_def second_def sample_routing_def)
  have expired: "live_saved_routes (\<lambda>r. rev) sample_routing ?late sample_saved = {}"
    unfolding live_saved_routes_def sample_saved_routes
    by (auto simp: sample_saved_get sample_listed_def sample_record_def new_dns_record_def
        rec_expired_def time_after_def sample_choice_def second_def sample_routing_def)
  have wanted: "?other \<notin> {sample_listed} \<union> static_set sample_routing" "sample_listed \<notin> static_set sample_routing"
    by (simp_all add: sample_static sample_listed_def)
  note restart = restart_keeps_own_routes [where decode = sample_dump_decode and encode = sample_dump_codec, OF sample_saved_inv ord codec saved router _ ord acc inj,
      where detail_ok = "\<lambda>d. True" and w = ?w, unfolded cfg Let_def]
  from restart [OF _ sample_choice_ok, unfolded fresh] obtain s' w' where
    "start_controller sample_config sample_dump_decode (FileData ''dump'') (agent_client sample_ip (\<lambda>d. True))
        (rev, rev) (\<lambda>r. rev) sample_choice ?w = Inr (s', w')"
    "\<forall>r \<in> set (sample_table ?w). r \<in> set (sample_table w') \<longleftrightarrow> r \<in> {sample_listed} \<union> static_set sample_routing" by blast
  moreover from restart [OF _ late, unfolded expired] obtain s'' w'' where
    "start_controller sample_config sample_dump_decode (FileData ''dump'') (agent_client sample_ip (\<lambda>d. True))
        (rev, rev) (\<lambda>r. rev) ?late ?w = Inr (s'', w'')"
    "\<forall>r \<in> set (sample_table ?w). r \<in> set (sample_table w'') \<longleftrightarrow> r \<in> {} \<union> static_set sample_routing" by blast
  ultimately show ?thesis using table wanted by blast
qed

end
