(* ===== verification/Lifecycle.thy ===== *)
theory Lifecycle
  imports Startup
begin

text \<open>
  The process of the server (\<open>dns-server/cmd/main.go\<close>) from its start to its end: the stop signal
  (\<open>internal/setup/stop_signal.go\<close>), the two servers and the profile handler with the shutdown they register
  (\<open>Serve\<close> in \<open>dns_server_http.go\<close> and \<open>dns_server_udp.go\<close>, \<open>internal/setup/pprof.go\<close>), the periodic save
  (\<open>internal/util/util.go\<close>) and the end of \<open>main\<close>. The process is a state changed by the steps of its goroutines in
  any order; the theorems say what its end guarantees and what it does not.
\<close>

subsection \<open>Servers\<close>

text \<open>What the two constructors fix: the network and the time limits (for HTTP that of the headers); the rest as given.\<close>

record ('b, 's) server_config =
  sc_logger :: "'b handler"
  sc_resolver :: "'s resolver"
  sc_net :: string
  sc_addr :: string
  sc_read_timeout :: duration
  sc_write_timeout :: "duration option"

record ('b, 's, 'l, 'k) http_server = "('b, 's) server_config" +
  hs_routes :: ip_ctl
  hs_logs :: "(log_entry, string) buffered"
  hs_queries :: "(dns_query, 'l) buffered"
  hs_raw_queries :: "(dns_raw_query, 'k) buffered"

definition new_http_server ::
  "string \<Rightarrow> 'b handler \<Rightarrow> 's resolver \<Rightarrow> ip_ctl \<Rightarrow> (log_entry, string) buffered \<Rightarrow> (dns_query, 'l) buffered
     \<Rightarrow> (dns_raw_query, 'k) buffered \<Rightarrow> ('b, 's, 'l, 'k) http_server"
where
  "new_http_server addr logger resolve routes logs queries raw_queries =
     \<lparr>sc_logger = logger, sc_resolver = resolve, sc_net = ''tcp'', sc_addr = addr,
      sc_read_timeout = 10 * second, sc_write_timeout = None,
      hs_routes = routes, hs_logs = logs, hs_queries = queries, hs_raw_queries = raw_queries\<rparr>"

definition new_dns_server :: "string \<Rightarrow> 'b handler \<Rightarrow> 's resolver \<Rightarrow> ('b, 's) server_config" where
  "new_dns_server addr logger resolve =
     \<lparr>sc_logger = logger, sc_resolver = resolve, sc_net = ''udp'', sc_addr = addr,
      sc_read_timeout = 5 * second, sc_write_timeout = Some (10 * second)\<rparr>"

subsection \<open>The process\<close>

datatype server_id = HTTPServer | UDPServer | PprofServer

datatype serve_pc = ServeNotYet | ServeListening | ServeReturned

datatype after_pc = HookNotYet | HookRegistered | HookShutting | HookEnded

datatype save_pc = SaveIdle | SaveOpened

datatype main_pc = MainWaiting | MainSaving save_pc | MainReturned

text \<open>What \<open>ListenAndServe\<close> returns: no error, \<open>ErrServerClosed\<close>, or another error.\<close>

datatype listen_result = ListenOK | ListenClosed | ListenFailed string

text \<open>\<open>pr_active\<close> counts the requests a server is answering, \<open>pr_file\<close> is the dump file and \<open>pr_contents\<close> what it held at the
  start and what was written into it since; \<open>pr_log\<close> has level and message.\<close>

record process =
  pr_signal :: bool
  pr_stopper :: bool
  pr_done :: bool
  pr_serve :: "server_id \<Rightarrow> serve_pc"
  pr_after :: "server_id \<Rightarrow> after_pc"
  pr_active :: "server_id \<Rightarrow> nat"
  pr_main :: main_pc
  pr_saver :: save_pc
  pr_file :: string
  pr_contents :: "string list"
  pr_exit :: "int option"
  pr_log :: "(int \<times> string) list"

definition log_line :: "int \<Rightarrow> string \<Rightarrow> process \<Rightarrow> process" where
  "log_line level msg p = p\<lparr>pr_log := pr_log p @ [(level, msg)]\<rparr>"

text \<open>\<open>ListenStopSignal\<close>: a channel for one signal and a goroutine that ends the context on the first.\<close>

definition listen_stop_signal :: "process \<Rightarrow> process" where
  "listen_stop_signal p = p\<lparr>pr_signal := False, pr_stopper := True, pr_done := False\<rparr>"

definition notify_signal :: "process \<Rightarrow> process" where
  "notify_signal p = p\<lparr>pr_signal := True\<rparr>"

definition stop_on_signal :: "process \<Rightarrow> process" where
  "stop_on_signal p = (if pr_stopper p \<and> pr_signal p then p\<lparr>pr_signal := False, pr_stopper := False, pr_done := True\<rparr> else p)"

subsection \<open>Serve\<close>

definition set_serve :: "server_id \<Rightarrow> serve_pc \<Rightarrow> process \<Rightarrow> process" where
  "set_serve i pc p = p\<lparr>pr_serve := (pr_serve p)(i := pc)\<rparr>"

definition set_after :: "server_id \<Rightarrow> after_pc \<Rightarrow> process \<Rightarrow> process" where
  "set_after i pc p = p\<lparr>pr_after := (pr_after p)(i := pc)\<rparr>"

text \<open>\<open>Serve\<close> up to the call of \<open>ListenAndServe\<close>, the function it leaves for the end of the context, which has ten seconds
  to shut the server down, and what it does with the result. The two servers differ in the last only.\<close>

definition serve_begin :: "server_id \<Rightarrow> process \<Rightarrow> process" where
  "serve_begin i p = set_serve i ServeListening (log_line 0 ''server starting...'' (set_after i HookRegistered p))"

definition shutdown_begin :: "server_id \<Rightarrow> process \<Rightarrow> process" where
  "shutdown_begin i p = set_after i HookShutting (log_line 0 ''shutting down server...'' p)"

definition shutdown_end :: "server_id \<Rightarrow> string option \<Rightarrow> process \<Rightarrow> process" where
  "shutdown_end i err p =
     (case err of
        None \<Rightarrow> set_after i HookEnded p
      | Some e \<Rightarrow> set_after i HookEnded (log_line 8 ''failed to shutdown server'' p))"

definition exit_process :: "int \<Rightarrow> process \<Rightarrow> process" where
  "exit_process code p = p\<lparr>pr_exit := Some code\<rparr>"

definition http_serve_end :: "server_id \<Rightarrow> listen_result \<Rightarrow> process \<Rightarrow> process" where
  "http_serve_end i r p =
     (case r of
        ListenFailed err \<Rightarrow> exit_process 1 (log_line 8 ''failed to start server'' p)
      | _ \<Rightarrow> set_serve i ServeReturned p)"

definition udp_serve_end :: "server_id \<Rightarrow> listen_result \<Rightarrow> process \<Rightarrow> process" where
  "udp_serve_end i r p =
     (case r of
        ListenOK \<Rightarrow> set_serve i ServeReturned p
      | _ \<Rightarrow> exit_process 1 (log_line 8 ''failed to start server'' p))"

text \<open>The handler for profiles is optional; its failure is only logged, and at the end it is closed at once.\<close>

definition pprof_begin :: "string \<Rightarrow> process \<Rightarrow> process" where
  "pprof_begin addr p =
     (if addr = [] then p
      else set_serve PprofServer ServeListening (log_line 0 ''pprof handler started'' (set_after PprofServer HookRegistered p)))"

definition pprof_serve_end :: "listen_result \<Rightarrow> process \<Rightarrow> process" where
  "pprof_serve_end r p =
     (case r of
        ListenFailed err \<Rightarrow> set_serve PprofServer ServeReturned (log_line 8 ''failed to serve pprof handler'' p)
      | _ \<Rightarrow> set_serve PprofServer ServeReturned p)"

definition pprof_stop :: "process \<Rightarrow> process" where
  "pprof_stop p = set_after PprofServer HookEnded
     (log_line 0 ''pprof handler stopped'' (p\<lparr>pr_active := (pr_active p)(PprofServer := 0)\<rparr>))"

definition serve_end :: "server_id \<Rightarrow> listen_result \<Rightarrow> process \<Rightarrow> process" where
  "serve_end i r = (case i of HTTPServer \<Rightarrow> http_serve_end i r | UDPServer \<Rightarrow> udp_serve_end i r | PprofServer \<Rightarrow> pprof_serve_end r)"

subsection \<open>Saving and the end of main\<close>

text \<open>A save opens the file, which empties it, and then writes its content at the start of the file in one call.\<close>

definition save_open :: "process \<Rightarrow> process" where
  "save_open p = p\<lparr>pr_file := []\<rparr>"

definition save_write :: "string \<Rightarrow> process \<Rightarrow> process" where
  "save_write content p = p\<lparr>pr_file := content @ drop (length content) (pr_file p), pr_contents := pr_contents p @ [content]\<rparr>"

text \<open>The last lines of \<open>main\<close>: it waits for the end of the context, saves, and returns.\<close>

definition main_done :: "process \<Rightarrow> process" where
  "main_done p = (if pr_done p \<and> pr_main p = MainWaiting then p\<lparr>pr_main := MainSaving SaveIdle\<rparr> else p)"

definition main_save_open :: "process \<Rightarrow> process" where
  "main_save_open p = (save_open p)\<lparr>pr_main := MainSaving SaveOpened\<rparr>"

definition main_save_write :: "string \<Rightarrow> process \<Rightarrow> process" where
  "main_save_write content p = (save_write content p)\<lparr>pr_main := MainReturned\<rparr>"

definition main_return :: "process \<Rightarrow> process" where
  "main_return p = exit_process 0 p"

text \<open>\<open>RunPeriodically\<close> over what its \<open>select\<close> receives: it returns at the end of the context and calls the function on
  a tick.\<close>

datatype periodic_event = ContextDone | TimerTick

fun run_periodically :: "('a \<Rightarrow> 'a) \<Rightarrow> periodic_event list \<Rightarrow> 'a \<Rightarrow> 'a" where
  "run_periodically fn [] s = s"
| "run_periodically fn (ContextDone # es) s = s"
| "run_periodically fn (TimerTick # es) s = run_periodically fn es (fn s)"

subsection \<open>Runs of the process\<close>

text \<open>The state in which \<open>main\<close> starts its servers; the dump file holds \<open>content\<close>.\<close>

definition process_start :: "string \<Rightarrow> process" where
  "process_start content = listen_stop_signal
     \<lparr>pr_signal = False, pr_stopper = False, pr_done = False, pr_serve = (\<lambda>i. ServeNotYet), pr_after = (\<lambda>i. HookNotYet),
      pr_active = (\<lambda>i. 0), pr_main = MainWaiting, pr_saver = SaveIdle, pr_file = content, pr_contents = [content],
      pr_exit = None, pr_log = []\<rparr>"

text \<open>The libraries: a server that is shut down stops accepting requests and lets \<open>ListenAndServe\<close> return; the shutdown
  ends once no request is left or with an error of its context.\<close>

inductive server_move :: "server_id set \<Rightarrow> process \<Rightarrow> process \<Rightarrow> bool" for servers where
  signal: "server_move servers p (notify_signal p)"
| stop: "server_move servers p (stop_on_signal p)"
| serve: "i \<in> servers \<Longrightarrow> pr_serve p i = ServeNotYet \<Longrightarrow> server_move servers p (serve_begin i p)"
| pprof: "pr_serve p PprofServer = ServeNotYet \<Longrightarrow> server_move servers p (pprof_begin addr p)"
| hook: "i \<in> servers \<Longrightarrow> pr_done p \<Longrightarrow> pr_after p i = HookRegistered \<Longrightarrow> server_move servers p (shutdown_begin i p)"
| pprof_hook: "pr_done p \<Longrightarrow> pr_after p PprofServer = HookRegistered \<Longrightarrow> server_move servers p (pprof_stop p)"
| hook_end: "pr_after p i = HookShutting \<Longrightarrow> err = None \<longrightarrow> pr_active p i = 0 \<Longrightarrow> server_move servers p (shutdown_end i err p)"
| closed: "pr_serve p i = ServeListening \<Longrightarrow> pr_after p i \<in> {HookShutting, HookEnded}
     \<Longrightarrow> server_move servers p (serve_end i (if i = UDPServer then ListenOK else ListenClosed) p)"
| failed: "pr_serve p i = ServeListening \<Longrightarrow> server_move servers p (serve_end i (ListenFailed err) p)"
| request: "pr_serve p i = ServeListening \<Longrightarrow> pr_after p i = HookRegistered
     \<Longrightarrow> server_move servers p (p\<lparr>pr_active := (pr_active p)(i := pr_active p i + 1)\<rparr>)"
| answered: "0 < pr_active p i \<Longrightarrow> server_move servers p (p\<lparr>pr_active := (pr_active p)(i := pr_active p i - 1)\<rparr>)"

text \<open>With the savers and the end of \<open>main\<close>.\<close>

inductive proc_move :: "process \<Rightarrow> process \<Rightarrow> bool" where
  servers: "server_move {HTTPServer, UDPServer} p p' \<Longrightarrow> proc_move p p'"
| saver_open: "pr_saver p = SaveIdle \<Longrightarrow> proc_move p ((save_open p)\<lparr>pr_saver := SaveOpened\<rparr>)"
| saver_write: "pr_saver p = SaveOpened \<Longrightarrow> content \<noteq> [] \<Longrightarrow> proc_move p ((save_write content p)\<lparr>pr_saver := SaveIdle\<rparr>)"
| main_done: "proc_move p (main_done p)"
| main_open: "pr_main p = MainSaving SaveIdle \<Longrightarrow> proc_move p (main_save_open p)"
| main_write: "pr_main p = MainSaving SaveOpened \<Longrightarrow> content \<noteq> [] \<Longrightarrow> proc_move p (main_save_write content p)"
| main_return: "pr_main p = MainReturned \<Longrightarrow> proc_move p (main_return p)"

text \<open>A process that has ended does nothing more.\<close>

inductive proc_step :: "process \<Rightarrow> process \<Rightarrow> bool" where
  move: "pr_exit p = None \<Longrightarrow> proc_move p p' \<Longrightarrow> proc_step p p'"

definition whole_file :: "process \<Rightarrow> bool" where
  "whole_file p \<longleftrightarrow> (\<exists>c \<in> set (pr_contents p). \<exists>rest. pr_file p = c @ rest)"

definition proc_inv :: "string \<Rightarrow> process \<Rightarrow> bool" where
  "proc_inv content p \<longleftrightarrow>
     (pr_saver p = SaveIdle \<and> pr_main p \<noteq> MainSaving SaveOpened \<longrightarrow> whole_file p)
   \<and> (\<exists>written. pr_contents p = content # written \<and> (pr_main p = MainReturned \<longrightarrow> written \<noteq> []))
   \<and> (pr_main p \<noteq> MainWaiting \<longrightarrow> pr_done p)
   \<and> (case pr_exit p of None \<Rightarrow> True | Some code \<Rightarrow>
        (code = 0 \<and> pr_main p = MainReturned) \<or> (code = 1 \<and> (8, ''failed to start server'') \<in> set (pr_log p)))"

lemma proc_inv_start: "proc_inv content (process_start content)"
  by (auto simp: proc_inv_def process_start_def listen_stop_signal_def whole_file_def)

lemmas proc_defs = log_line_def notify_signal_def stop_on_signal_def set_serve_def set_after_def serve_begin_def shutdown_begin_def
  shutdown_end_def exit_process_def http_serve_end_def udp_serve_end_def pprof_begin_def pprof_serve_end_def pprof_stop_def
  main_done_def main_return_def

text \<open>What the servers do to the rest of the process: nothing, but for ending it after a failure they log.\<close>

lemma server_move_state:
  assumes "server_move servers p p'" and "pr_exit p = None"
  shows "pr_main p' = pr_main p" and "pr_saver p' = pr_saver p" and "pr_file p' = pr_file p" and "pr_contents p' = pr_contents p"
    and "pr_done p \<Longrightarrow> pr_done p'" and "pr_exit p' = None \<or> pr_exit p' = Some 1 \<and> (8, ''failed to start server'') \<in> set (pr_log p')"
proof -
  have "pr_main p' = pr_main p \<and> pr_saver p' = pr_saver p \<and> pr_file p' = pr_file p \<and> pr_contents p' = pr_contents p
    \<and> (pr_done p \<longrightarrow> pr_done p')
    \<and> (pr_exit p' = None \<or> pr_exit p' = Some 1 \<and> (8, ''failed to start server'') \<in> set (pr_log p'))"
    using assms
  proof (cases rule: server_move.cases)
    case (hook_end i err)
    then show ?thesis using assms(2) by (cases err) (simp_all add: proc_defs)
  next
    case (closed i)
    then show ?thesis using assms(2) by (cases i) (simp_all add: proc_defs serve_end_def)
  next
    case (failed i err)
    then show ?thesis using assms(2) by (cases i) (simp_all add: proc_defs serve_end_def)
  qed (use assms in \<open>simp_all add: proc_defs\<close>)
  then show "pr_main p' = pr_main p" "pr_saver p' = pr_saver p" "pr_file p' = pr_file p" "pr_contents p' = pr_contents p"
    "pr_done p \<Longrightarrow> pr_done p'" "pr_exit p' = None \<or> pr_exit p' = Some 1 \<and> (8, ''failed to start server'') \<in> set (pr_log p')"
    by blast+
qed

lemma proc_move_inv:
  assumes "proc_move p p'" and "proc_inv content p" and "pr_exit p = None"
  shows "proc_inv content p'"
  using assms
proof (cases rule: proc_move.cases)
  case servers
  note s = server_move_state [OF servers assms(3)]
  from s(6) show ?thesis using assms(2,3) s(5) unfolding proc_inv_def s(1-4) whole_file_def by auto
next
  case saver_open
  then show ?thesis using assms(2,3) by (auto simp: proc_inv_def save_open_def)
next
  case (saver_write c)
  then show ?thesis using assms(2,3) by (auto simp: proc_inv_def save_write_def whole_file_def)
next
  case main_open
  then show ?thesis using assms(2,3) by (auto simp: proc_inv_def main_save_open_def save_open_def)
next
  case (main_write c)
  then show ?thesis using assms(2,3) by (auto simp: proc_inv_def main_save_write_def save_write_def whole_file_def)
qed (use assms in \<open>auto simp: proc_inv_def proc_defs whole_file_def\<close>)

lemma proc_step_inv: "proc_step\<^sup>*\<^sup>* p p' \<Longrightarrow> proc_inv content p \<Longrightarrow> proc_inv content p'"
  by (induction rule: rtranclp_induct) (auto elim!: proc_step.cases intro: proc_move_inv)


text \<open>Once the context has ended, \<open>main\<close> waits for nobody: the process can end with code 0 while every request is
  still unanswered and no shutdown has begun, and in the middle of the periodic save, which leaves an empty dump file.\<close>

theorem exit_waits_for_nobody:
  assumes "pr_exit p = None" and "pr_done p" and "pr_main p = MainWaiting" and "pr_saver p = SaveIdle"
  shows "\<exists>p'. proc_step\<^sup>*\<^sup>* p p' \<and> pr_exit p' = Some 0 \<and> pr_file p' = '''' \<and> pr_active p' = pr_active p \<and> pr_after p' = pr_after p"
proof -
  let ?p1 = "main_done p"
  let ?p2 = "main_save_open ?p1"
  let ?p3 = "main_save_write ''[]'' ?p2"
  let ?p4 = "(save_open ?p3)\<lparr>pr_saver := SaveOpened\<rparr>"
  let ?p5 = "main_return ?p4"
  note d = main_done_def main_save_open_def main_save_write_def save_open_def save_write_def main_return_def exit_process_def
  have 1: "proc_step p ?p1" by (rule proc_step.move [OF assms(1) proc_move.main_done])
  have 2: "proc_step ?p1 ?p2" by (rule proc_step.move [OF _ proc_move.main_open]) (simp_all add: d assms)
  have 3: "proc_step ?p2 ?p3" by (rule proc_step.move [OF _ proc_move.main_write]) (simp_all add: d assms)
  have 4: "proc_step ?p3 ?p4" by (rule proc_step.move [OF _ proc_move.saver_open]) (simp_all add: d assms)
  have 5: "proc_step ?p4 ?p5" by (rule proc_step.move [OF _ proc_move.main_return]) (simp_all add: d assms)
  have "proc_step\<^sup>*\<^sup>* p ?p5"
    using 1 2 3 4 5 by (meson converse_rtranclp_into_rtranclp r_into_rtranclp)
  then show ?thesis by (intro exI [of _ ?p5]) (simp add: d assms)
qed

lemma proc_snoc: "proc_step\<^sup>*\<^sup>* a b \<Longrightarrow> pr_exit b = None \<Longrightarrow> proc_move b c \<Longrightarrow> proc_step\<^sup>*\<^sup>* a c"
  by (erule rtranclp.rtrancl_into_rtrancl) (rule proc_step.move)

text \<open>A server that is answering a request when the signal comes.\<close>

definition serving_process :: process where
  "serving_process = (let p = serve_begin HTTPServer (process_start ''old'') in p\<lparr>pr_active := (pr_active p)(HTTPServer := pr_active p HTTPServer + 1)\<rparr>)"

definition stopping_process :: process where
  "stopping_process = stop_on_signal (notify_signal serving_process)"

lemmas sample_process_defs = stopping_process_def serving_process_def process_start_def listen_stop_signal_def proc_defs Let_def

lemma stopping_reached: "proc_step\<^sup>*\<^sup>* (process_start ''old'') stopping_process"
proof -
  let ?p0 = "process_start ''old''"
  let ?p1 = "serve_begin HTTPServer ?p0"
  have e: "pr_exit ?p0 = None" "pr_exit ?p1 = None" "pr_exit serving_process = None" "pr_exit (notify_signal serving_process) = None"
    by (simp_all add: sample_process_defs)
  have serve: "HTTPServer \<in> {HTTPServer, UDPServer}" "pr_serve ?p0 HTTPServer = ServeNotYet" by (simp_all add: sample_process_defs)
  have req: "pr_serve ?p1 HTTPServer = ServeListening" "pr_after ?p1 HTTPServer = HookRegistered" by (simp_all add: sample_process_defs)
  have "proc_step\<^sup>*\<^sup>* ?p0 ?p1" by (rule proc_snoc [OF rtranclp.rtrancl_refl e(1) proc_move.servers [OF server_move.serve [OF serve]]])
  then have "proc_step\<^sup>*\<^sup>* ?p0 serving_process" unfolding serving_process_def Let_def by (rule proc_snoc [OF _ e(2) proc_move.servers [OF server_move.request [OF req]]])
  then have "proc_step\<^sup>*\<^sup>* ?p0 (notify_signal serving_process)" by (rule proc_snoc [OF _ e(3) proc_move.servers [OF server_move.signal]])
  then show ?thesis unfolding stopping_process_def by (rule proc_snoc [OF _ e(4) proc_move.servers [OF server_move.stop]])
qed

theorem exit_waits_for_nobody_witness:
  "\<exists>p'. proc_step\<^sup>*\<^sup>* stopping_process p' \<and> pr_exit p' = Some 0 \<and> pr_file p' = '''' \<and> pr_active p' HTTPServer = 1"
proof -
  have "pr_exit stopping_process = None" "pr_done stopping_process" "pr_main stopping_process = MainWaiting" "pr_saver stopping_process = SaveIdle"
    by (simp_all add: sample_process_defs)
  from exit_waits_for_nobody [OF this] have "\<exists>p'. proc_step\<^sup>*\<^sup>* stopping_process p' \<and> pr_exit p' = Some 0 \<and> pr_file p' = '''' \<and> pr_active p' = pr_active stopping_process"
    by blast
  moreover have "pr_active stopping_process HTTPServer = 1" by (simp add: sample_process_defs)
  ultimately show ?thesis by metis
qed


end
