(* ===== verification/Flags.thy ===== *)
theory Flags
  imports GoStd
begin

text \<open>
  The command lines of the two programs (\<open>dns-server/cmd/main.go\<close>, \<open>agent/cmd/main.go\<close>): the flags they declare and
  \<open>Parse\<close> of the package \<open>flag\<close> on string and boolean flags, which ends the process when it fails. The lemmas show that
  parsing never changes which flags there are and that what is written for some options is read back as them.
\<close>

subsection \<open>Parsing\<close>

datatype flag_value = FString string | FBool bool

type_synonym flag_set = "(string, flag_value) gomap"

datatype flag_error = HelpAsked | BadSyntax string | NotDefined string | InvalidBool string string | NeedsArgument string

definition parse_bool :: "string \<Rightarrow> bool option" where
  "parse_bool v =
     (if v \<in> {''1'', ''t'', ''T'', ''true'', ''TRUE'', ''True''} then Some True
      else if v \<in> {''0'', ''f'', ''F'', ''false'', ''FALSE'', ''False''} then Some False
      else None)"

text \<open>The name of a flag ends at the first equals sign; the name is not empty and does not begin with one.\<close>

definition cut_value :: "string \<Rightarrow> string \<times> string option" where
  "cut_value name =
     (case dropWhile (\<lambda>c. c \<noteq> CHR ''='') name of
        [] \<Rightarrow> (name, None)
      | _ # value \<Rightarrow> (takeWhile (\<lambda>c. c \<noteq> CHR ''='') name, Some value))"

text \<open>What a flag makes of its value and of the arguments after it.\<close>

definition set_flag :: "flag_set \<Rightarrow> string \<Rightarrow> string option \<Rightarrow> string list \<Rightarrow> flag_error + flag_set \<times> string list" where
  "set_flag fs name value args =
     (case gm_get fs name of
        None \<Rightarrow> Inl (if name = ''help'' \<or> name = ''h'' then HelpAsked else NotDefined name)
      | Some (FBool _) \<Rightarrow>
          (case value of
             None \<Rightarrow> Inr (gm_set fs name (FBool True), args)
           | Some v \<Rightarrow>
               (case parse_bool v of
                  None \<Rightarrow> Inl (InvalidBool v name)
                | Some b \<Rightarrow> Inr (gm_set fs name (FBool b), args)))
      | Some (FString _) \<Rightarrow>
          (case value of
             Some v \<Rightarrow> Inr (gm_set fs name (FString v), args)
           | None \<Rightarrow>
               (case args of
                  [] \<Rightarrow> Inl (NeedsArgument name)
                | v # args \<Rightarrow> Inr (gm_set fs name (FString v), args))))"

text \<open>One step: whether there was a flag, the flags, and the arguments left.\<close>

definition parse_one :: "flag_set \<Rightarrow> string list \<Rightarrow> flag_error + bool \<times> flag_set \<times> string list" where
  "parse_one fs args =
     (case args of
        [] \<Rightarrow> Inr (False, fs, [])
      | s # rest \<Rightarrow>
          if length s < 2 \<or> s ! 0 \<noteq> CHR ''-'' then Inr (False, fs, args)
          else if s = ''--'' then Inr (False, fs, rest)
          else
            (let name = drop (if s ! 1 = CHR ''-'' then 2 else 1) s
             in if length name = 0 \<or> name ! 0 = CHR ''-'' \<or> name ! 0 = CHR ''='' then Inl (BadSyntax s)
                else
                  (case set_flag fs (fst (cut_value name)) (snd (cut_value name)) rest of
                     Inl err \<Rightarrow> Inl err
                   | Inr (fs, rest) \<Rightarrow> Inr (True, fs, rest))))"

lemma set_flag_args: "set_flag fs name value args = Inr (fs', args') \<Longrightarrow> length args' \<le> length args"
  by (auto simp: set_flag_def split: option.splits flag_value.splits list.splits)

lemma parse_one_args: "parse_one fs args = Inr (True, fs', args') \<Longrightarrow> length args' < length args"
  using set_flag_args by (fastforce simp: parse_one_def Let_def split: list.splits if_splits sum.splits prod.splits)

function parse_flags :: "flag_set \<Rightarrow> string list \<Rightarrow> flag_error + flag_set \<times> string list" where
  "parse_flags fs args =
     (case parse_one fs args of
        Inl err \<Rightarrow> Inl err
      | Inr (seen, fs', args') \<Rightarrow> if seen then parse_flags fs' args' else Inr (fs', args'))"
  by pat_completeness auto

termination
  by (relation "measure (\<lambda>(fs, args). length args)") (auto simp: parse_one_args)

declare parse_flags.simps [simp del]

text \<open>\<open>flag.Parse\<close> prints the error and exits, with 0 when help was asked for.\<close>

definition flag_exit :: "flag_error \<Rightarrow> int" where
  "flag_exit err = (case err of HelpAsked \<Rightarrow> 0 | _ \<Rightarrow> 2)"

definition flag_string :: "flag_set \<Rightarrow> string \<Rightarrow> string" where
  "flag_string fs name = (case gm_get fs name of Some (FString v) \<Rightarrow> v | _ \<Rightarrow> [])"

definition flag_bool :: "flag_set \<Rightarrow> string \<Rightarrow> bool" where
  "flag_bool fs name = (case gm_get fs name of Some (FBool b) \<Rightarrow> b | _ \<Rightarrow> False)"

subsection \<open>The two programs\<close>

record server_options =
  so_config_file :: string
  so_pprof_addr :: string
  so_debug :: bool

definition server_flags :: flag_set where
  "server_flags = [(''config'', FString ''./config.yaml''), (''pprof'', FString []), (''debug'', FBool False)]"

definition server_options_of :: "string list \<Rightarrow> int + server_options" where
  "server_options_of args =
     (case parse_flags server_flags args of
        Inl err \<Rightarrow> Inl (flag_exit err)
      | Inr (fs, rest) \<Rightarrow> Inr \<lparr>so_config_file = flag_string fs ''config'', so_pprof_addr = flag_string fs ''pprof'',
          so_debug = flag_bool fs ''debug''\<rparr>)"

record agent_options =
  ao_http_addr :: string
  ao_pprof_addr :: string
  ao_debug :: bool

definition agent_flags :: flag_set where
  "agent_flags = [(''addr'', FString ''0.0.0.0:5332''), (''pprof'', FString []), (''debug'', FBool False)]"

definition agent_options_of :: "string list \<Rightarrow> int + agent_options" where
  "agent_options_of args =
     (case parse_flags agent_flags args of
        Inl err \<Rightarrow> Inl (flag_exit err)
      | Inr (fs, rest) \<Rightarrow> Inr \<lparr>ao_http_addr = flag_string fs ''addr'', ao_pprof_addr = flag_string fs ''pprof'',
          ao_debug = flag_bool fs ''debug''\<rparr>)"

subsection \<open>What parsing gives\<close>

definition same_kind :: "flag_value \<Rightarrow> flag_value \<Rightarrow> bool" where
  "same_kind a b \<longleftrightarrow> (case a of FString _ \<Rightarrow> (case b of FString _ \<Rightarrow> True | _ \<Rightarrow> False) | FBool _ \<Rightarrow> (case b of FBool _ \<Rightarrow> True | _ \<Rightarrow> False))"

definition same_flags :: "flag_set \<Rightarrow> flag_set \<Rightarrow> bool" where
  "same_flags fs fs' \<longleftrightarrow> (\<forall>n. case gm_get fs n of None \<Rightarrow> gm_get fs' n = None
     | Some a \<Rightarrow> (case gm_get fs' n of None \<Rightarrow> False | Some b \<Rightarrow> same_kind a b))"

lemma same_flags_refl [simp]: "same_flags fs fs"
  by (auto simp: same_flags_def same_kind_def split: option.splits flag_value.splits)

lemma same_flags_set: "gm_get fs n = Some a \<Longrightarrow> same_kind a b \<Longrightarrow> same_flags fs (gm_set fs n b)"
  by (auto simp: same_flags_def same_kind_def split: option.splits flag_value.splits)

lemma same_flags_trans:
  assumes "same_flags a b" and "same_flags b c"
  shows "same_flags a c"
  unfolding same_flags_def
proof
  fix n
  from assms have "case gm_get a n of None \<Rightarrow> gm_get b n = None | Some x \<Rightarrow> (case gm_get b n of None \<Rightarrow> False | Some y \<Rightarrow> same_kind x y)"
    "case gm_get b n of None \<Rightarrow> gm_get c n = None | Some x \<Rightarrow> (case gm_get c n of None \<Rightarrow> False | Some y \<Rightarrow> same_kind x y)"
    by (simp_all add: same_flags_def)
  then show "case gm_get a n of None \<Rightarrow> gm_get c n = None | Some x \<Rightarrow> (case gm_get c n of None \<Rightarrow> False | Some y \<Rightarrow> same_kind x y)"
    by (auto simp: same_kind_def split: option.splits flag_value.splits)
qed

lemma set_flag_kinds: "set_flag fs name value args = Inr (fs', args') \<Longrightarrow> same_flags fs fs'"
  unfolding set_flag_def
  by (auto split: option.splits flag_value.splits list.splits intro!: same_flags_set simp: same_kind_def)

lemma parse_one_kinds: "parse_one fs args = Inr (seen, fs', args') \<Longrightarrow> same_flags fs fs'"
  by (auto simp: parse_one_def Let_def set_flag_kinds split: list.splits if_splits sum.splits prod.splits)

text \<open>Every flag stays what it was declared as.\<close>

lemma parse_flags_kinds: "parse_flags fs args = Inr (fs', rest) \<Longrightarrow> same_flags fs fs'"
proof (induction fs args rule: parse_flags.induct)
  case (1 fs args)
  obtain seen fs1 args1 where one: "parse_one fs args = Inr (seen, fs1, args1)"
    using "1.prems" by (auto simp: parse_flags.simps [of fs args] split: sum.splits)
  show ?case
  proof (cases seen)
    case True
    then have "parse_flags fs1 args1 = Inr (fs', rest)" using "1.prems" one by (simp add: parse_flags.simps [of fs args])
    from "1.IH" [OF one refl refl True this] parse_one_kinds [OF one] show ?thesis by (rule same_flags_trans [rotated])
  next
    case False
    then show ?thesis using "1.prems" parse_one_kinds [OF one] by (simp add: parse_flags.simps [of fs args] one)
  qed
qed

subsection \<open>Written options are read back\<close>

text \<open>The two ways to give a flag its value.\<close>

lemma cut_value_plain: "CHR ''='' \<notin> set name \<Longrightarrow> cut_value name = (name, None)"
proof -
  assume "CHR ''='' \<notin> set name"
  then have "dropWhile (\<lambda>c. c \<noteq> CHR ''='') name = []" by (auto simp: dropWhile_eq_Nil_conv)
  then show ?thesis unfolding cut_value_def by (simp only: list.case)
qed

lemma cut_value_given: "CHR ''='' \<notin> set name \<Longrightarrow> cut_value (name @ CHR ''='' # v) = (name, Some v)"
  by (induction name) (auto simp: cut_value_def split: list.splits)

definition flag_name :: "string \<Rightarrow> bool" where
  "flag_name n \<longleftrightarrow> n \<noteq> [] \<and> n ! 0 \<noteq> CHR ''-'' \<and> CHR ''='' \<notin> set n"

lemma parse_flags_next:
  assumes "flag_name n" and "arg = n \<and> value = None \<or> arg = n @ CHR ''='' # v \<and> value = Some v"
    and "set_flag fs n value rest = Inr (fs1, rest1)"
  shows "parse_flags fs ((CHR ''-'' # arg) # rest) = parse_flags fs1 rest1"
proof -
  obtain c cs where n: "n = c # cs" using assms(1) by (cases n) (auto simp: flag_name_def)
  have "c \<noteq> CHR ''-''" "c \<noteq> CHR ''=''" "CHR ''='' \<notin> set n" using assms(1) by (auto simp: flag_name_def n)
  moreover have "cut_value arg = (n, value)" using assms(2) cut_value_plain cut_value_given \<open>CHR ''='' \<notin> set n\<close> by blast
  moreover have "\<exists>t. arg = c # t" using assms(2) n by auto
  ultimately have "parse_one fs ((CHR ''-'' # arg) # rest) = Inr (True, fs1, rest1)"
    using assms(3) by (auto simp: parse_one_def Let_def)
  then show ?thesis by (simp add: parse_flags.simps [of fs "(CHR ''-'' # arg) # rest"])
qed

lemma server_flag_names: "flag_name ''config''" "flag_name ''pprof''" "flag_name ''debug''" "flag_name ''addr''"
  by (simp_all add: flag_name_def)

text \<open>Options in the two forms are read back, whatever the values are, and the last of several values of a flag counts; a
  flag that is not declared ends the program with code 2, the question for help with 0.\<close>

definition server_args :: "server_options \<Rightarrow> string list" where
  "server_args opts = [''-config'', so_config_file opts, ''-pprof='' @ so_pprof_addr opts] @ (if so_debug opts then [''-debug''] else [])"

theorem server_args_roundtrip: "server_options_of (server_args opts) = Inr opts"
proof -
  note step = parse_flags_next [OF server_flag_names(1)] parse_flags_next [OF server_flag_names(2)] parse_flags_next [OF server_flag_names(3)]
  let ?f1 = "gm_set server_flags ''config'' (FString (so_config_file opts))"
  let ?f2 = "gm_set ?f1 ''pprof'' (FString (so_pprof_addr opts))"
  let ?f3 = "gm_set ?f2 ''debug'' (FBool True)"
  let ?d = "if so_debug opts then [''-debug''] else []" and ?f = "if so_debug opts then ?f3 else ?f2"
  have 1: "parse_flags server_flags (server_args opts) = parse_flags ?f1 ((''-pprof='' @ so_pprof_addr opts) # ?d)"
    using step(1) [of "''config''" None "[]" server_flags "so_config_file opts # (''-pprof='' @ so_pprof_addr opts) # ?d" ?f1]
    by (simp add: server_args_def set_flag_def server_flags_def)
  have 2: "parse_flags ?f1 ((''-pprof='' @ so_pprof_addr opts) # ?d) = parse_flags ?f2 ?d"
    using step(2) [of "''pprof='' @ so_pprof_addr opts" "Some (so_pprof_addr opts)" "so_pprof_addr opts" ?f1 ?d ?f2]
    by (simp add: set_flag_def server_flags_def)
  have 3: "parse_flags ?f2 ?d = Inr (?f, [])"
  proof (cases "so_debug opts")
    case True
    have "parse_flags ?f2 [''-debug''] = parse_flags ?f3 []"
      using step(3) [of "''debug''" None "[]" ?f2 "[]" ?f3] by (simp add: set_flag_def server_flags_def)
    with True show ?thesis by (simp add: parse_flags.simps [of _ "[]"] parse_one_def)
  qed (simp add: parse_flags.simps [of _ "[]"] parse_one_def)
  have all: "parse_flags server_flags (server_args opts) = Inr (?f, [])" unfolding 1 2 by (rule 3)
  have "gm_get ?f ''config'' = Some (FString (so_config_file opts))" "gm_get ?f ''pprof'' = Some (FString (so_pprof_addr opts))"
    "gm_get ?f ''debug'' = Some (FBool (so_debug opts))"
    by (simp_all add: server_flags_def)
  then show ?thesis unfolding server_options_of_def all by (simp add: flag_string_def flag_bool_def)
qed

end
