(* ===== verification/HTTPRoutes.thy ===== *)
theory HTTPRoutes
  imports Server HTTPApi
begin

text \<open>
  Which handler a request reaches: the router of the server (\<open>createHandler\<close>, \<open>dns-server/internal/dns_server_http.go\<close>)
  and of the agent (\<open>createHandler\<close> and \<open>createAPIHandler\<close>, \<open>agent/internal/http_server.go\<close>) on the \<open>ServeMux\<close> of the
  standard library, as far as their patterns use it, and the handlers of the server behind it as one function of a
  request. The third-party CORS handler around both and the generated RPC handler are not modelled.
\<close>

subsection \<open>Patterns\<close>

text \<open>A pattern is a method (empty for any) and a path; one that ends in a slash stands for all paths below it. The
  paths of requests are cleaned ones. \<open>ServeMux\<close> chooses the most specific pattern; a path that only lacks the
  final slash of a pattern is redirected. The \<open>Allow\<close> header of a refusal is left out.\<close>

type_synonym mux_pattern = "string \<times> string"

datatype 'h mux_result = MuxHandler 'h | MuxRedirect string | MuxNotAllowed | MuxNotFound

definition ends_in_slash :: "string \<Rightarrow> bool" where
  "ends_in_slash p \<longleftrightarrow> p \<noteq> [] \<and> last p = CHR ''/''"

definition mux_path_ok :: "string \<Rightarrow> string \<Rightarrow> bool" where
  "mux_path_ok pat path = (if ends_in_slash pat then has_prefix path pat else path = pat)"

definition mux_method_ok :: "string \<Rightarrow> string \<Rightarrow> bool" where
  "mux_method_ok m verb \<longleftrightarrow> m = [] \<or> m = verb \<or> (m = ''GET'' \<and> verb = ''HEAD'')"

definition more_specific :: "mux_pattern \<Rightarrow> mux_pattern \<Rightarrow> bool" where
  "more_specific a b \<longleftrightarrow> length (snd b) < length (snd a) \<or> (snd a = snd b \<and> fst a \<noteq> [] \<and> fst b = [])"

fun best_match :: "(mux_pattern \<times> 'h) list \<Rightarrow> (mux_pattern \<times> 'h) option" where
  "best_match [] = None"
| "best_match (x # xs) =
     (case best_match xs of
        None \<Rightarrow> Some x
      | Some y \<Rightarrow> if more_specific (fst y) (fst x) then Some y else Some x)"

definition mux_find :: "(mux_pattern \<times> 'h) list \<Rightarrow> string \<Rightarrow> string \<Rightarrow> (mux_pattern \<times> 'h) option" where
  "mux_find routes verb path =
     best_match (filter (\<lambda>r. mux_path_ok (snd (fst r)) path \<and> mux_method_ok (fst (fst r)) verb) routes)"

definition mux_serve :: "(mux_pattern \<times> 'h) list \<Rightarrow> string \<Rightarrow> string \<Rightarrow> 'h mux_result" where
  "mux_serve routes verb path =
     (let exact = (\<lambda>found path. case found of None \<Rightarrow> False | Some (pat, h) \<Rightarrow> snd pat = path);
          found = mux_find routes verb path
      in if \<not> exact found path \<and> path \<noteq> [] \<and> \<not> ends_in_slash path \<and> exact (mux_find routes verb (path @ ''/'')) (path @ ''/'')
         then MuxRedirect (path @ ''/'')
         else case found of
                Some (pat, h) \<Rightarrow> MuxHandler h
              | None \<Rightarrow> if \<exists>r \<in> set routes. mux_path_ok (snd (fst r)) path then MuxNotAllowed else MuxNotFound)"

subsection \<open>The routes of the server\<close>

datatype api_handler =
    HMetrics | HDnsQuery | HRoutes
  | HLogs | HLogsStream | HQueries | HQueriesStream | HRawQueries | HRawQueriesStream
  | HStatic string

definition create_handler :: "(mux_pattern \<times> api_handler) list" where
  "create_handler =
     [((''GET'', ''/metrics''), HMetrics),
      ((''POST'', ''/dns-query''), HDnsQuery),
      ((''GET'', ''/api/routes''), HRoutes),
      ((''GET'', ''/api/logs''), HLogs),
      ((''GET'', ''/api/logs/ws''), HLogsStream),
      ((''GET'', ''/api/dns-queries''), HQueries),
      ((''GET'', ''/api/dns-queries/ws''), HQueriesStream),
      ((''GET'', ''/api/dns-raw-queries''), HRawQueries),
      ((''GET'', ''/api/dns-raw-queries/ws''), HRawQueriesStream),
      ((''GET'', ''/app.js''), HStatic ''app.js''),
      ((''GET'', ''/''), HStatic ''index.html'')]"

text \<open>The reference: the pages by their exact path, the web page for every other one.\<close>

fun get_handler :: "(string \<times> api_handler) list \<Rightarrow> string \<Rightarrow> api_handler" where
  "get_handler [] path = HStatic ''index.html''"
| "get_handler ((p, h) # ps) path = (if path = p then h else get_handler ps path)"

definition pages :: "(string \<times> api_handler) list" where
  "pages = [(''/metrics'', HMetrics), (''/api/routes'', HRoutes), (''/api/logs'', HLogs), (''/api/logs/ws'', HLogsStream),
     (''/api/dns-queries'', HQueries), (''/api/dns-queries/ws'', HQueriesStream), (''/api/dns-raw-queries'', HRawQueries),
     (''/api/dns-raw-queries/ws'', HRawQueriesStream), (''/app.js'', HStatic ''app.js'')]"

definition dispatch :: "string \<Rightarrow> string \<Rightarrow> api_handler mux_result" where
  "dispatch verb path =
     (if verb = ''GET'' \<or> verb = ''HEAD'' then MuxHandler (get_handler pages path)
      else if verb = ''POST'' \<and> path = ''/dns-query'' then MuxHandler HDnsQuery
      else MuxNotAllowed)"

lemma mux_path_exact: "mux_path_ok ''/metrics'' path \<longleftrightarrow> path = ''/metrics''"
  "mux_path_ok ''/dns-query'' path \<longleftrightarrow> path = ''/dns-query''" "mux_path_ok ''/api/routes'' path \<longleftrightarrow> path = ''/api/routes''"
  "mux_path_ok ''/api/logs'' path \<longleftrightarrow> path = ''/api/logs''" "mux_path_ok ''/api/logs/ws'' path \<longleftrightarrow> path = ''/api/logs/ws''"
  "mux_path_ok ''/api/dns-queries'' path \<longleftrightarrow> path = ''/api/dns-queries''" "mux_path_ok ''/api/dns-queries/ws'' path \<longleftrightarrow> path = ''/api/dns-queries/ws''"
  "mux_path_ok ''/api/dns-raw-queries'' path \<longleftrightarrow> path = ''/api/dns-raw-queries''" "mux_path_ok ''/api/dns-raw-queries/ws'' path \<longleftrightarrow> path = ''/api/dns-raw-queries/ws''"
  "mux_path_ok ''/app.js'' path \<longleftrightarrow> path = ''/app.js''"
  by (simp_all add: mux_path_ok_def ends_in_slash_def)

lemma mux_path_root: "mux_path_ok ''/'' path \<longleftrightarrow> has_prefix path ''/''"
  by (simp add: mux_path_ok_def ends_in_slash_def)

lemmas mux_path_simps = mux_path_exact mux_path_root

lemma no_redirect:
  assumes "path \<noteq> []"
  shows "\<not> (case mux_find create_handler verb (path @ ''/'') of None \<Rightarrow> False | Some (pat, h) \<Rightarrow> snd pat = path @ ''/'')"
proof
  assume "case mux_find create_handler verb (path @ ''/'') of None \<Rightarrow> False | Some (pat, h) \<Rightarrow> snd pat = path @ ''/''"
  then obtain pat h where f: "mux_find create_handler verb (path @ ''/'') = Some (pat, h)" "snd pat = path @ ''/''"
    by (auto split: option.splits)
  have best: "best_match xs = Some x \<Longrightarrow> x \<in> set xs" for xs :: "(mux_pattern \<times> api_handler) list" and x
    by (induction xs rule: best_match.induct) (auto split: option.splits if_splits)
  have "(pat, h) \<in> set create_handler" using best [OF f(1) [unfolded mux_find_def]] by simp
  then have "ends_in_slash (snd pat) \<longrightarrow> snd pat = ''/''" by (auto simp: create_handler_def ends_in_slash_def)
  moreover have "ends_in_slash (snd pat)" by (simp add: f(2) ends_in_slash_def)
  ultimately show False using f(2) assms by simp
qed

lemma mux_serve_found: "path \<noteq> [] \<Longrightarrow> mux_find create_handler verb path = Some (pat, h) \<Longrightarrow> mux_serve create_handler verb path = MuxHandler h"
  using no_redirect [of path verb] by (simp add: mux_serve_def Let_def)

lemma mux_serve_refused:
  assumes "has_prefix path ''/''" and "mux_find create_handler verb path = None"
  shows "mux_serve create_handler verb path = MuxNotAllowed"
proof -
  have "path \<noteq> []" using assms(1) by (auto simp: has_prefix_def)
  moreover have "\<exists>r \<in> set create_handler. mux_path_ok (snd (fst r)) path"
    using assms(1) by (intro bexI [of _ "((''GET'', ''/''), HStatic ''index.html'')"]) (simp_all add: mux_path_root create_handler_def)
  ultimately show ?thesis using no_redirect [of path verb] by (simp add: mux_serve_def Let_def assms(2))
qed

lemma fixed_paths:
  "path \<in> fst ` set pages \<Longrightarrow> path \<in> {''/metrics'', ''/api/routes'', ''/api/logs'', ''/api/logs/ws'', ''/api/dns-queries'',
     ''/api/dns-queries/ws'', ''/api/dns-raw-queries'', ''/api/dns-raw-queries/ws'', ''/app.js''}"
  by (auto simp: pages_def)

lemma get_method: "verb = ''GET'' \<or> verb = ''HEAD'' \<Longrightarrow> mux_method_ok ''GET'' verb \<and> \<not> mux_method_ok ''POST'' verb"
  by (auto simp: mux_method_ok_def)

lemma other_method: "verb \<noteq> ''GET'' \<and> verb \<noteq> ''HEAD'' \<Longrightarrow> \<not> mux_method_ok ''GET'' verb \<and> mux_method_ok ''POST'' verb = (verb = ''POST'')"
  by (auto simp: mux_method_ok_def)

lemma find_page:
  assumes "path \<in> fst ` set pages" and "verb = ''GET'' \<or> verb = ''HEAD''"
  shows "\<exists>pat. mux_find create_handler verb path = Some (pat, get_handler pages path)"
  using fixed_paths [OF assms(1)] get_method [OF assms(2)] unfolding insert_iff empty_iff
  by (elim disjE) (simp_all add: mux_find_def create_handler_def mux_path_simps has_prefix_def more_specific_def pages_def)

lemma find_other:
  assumes "path \<notin> fst ` set pages" and "has_prefix path ''/''" and "verb = ''GET'' \<or> verb = ''HEAD''"
  shows "\<exists>pat. mux_find create_handler verb path = Some (pat, get_handler pages path)"
proof -
  have other: "get_handler pages path = HStatic ''index.html''" using assms(1) by (simp add: pages_def)
  have ne: "path \<noteq> ''/metrics''" "path \<noteq> ''/api/routes''" "path \<noteq> ''/api/logs''" "path \<noteq> ''/api/logs/ws''" "path \<noteq> ''/api/dns-queries''"
    "path \<noteq> ''/api/dns-queries/ws''" "path \<noteq> ''/api/dns-raw-queries''" "path \<noteq> ''/api/dns-raw-queries/ws''" "path \<noteq> ''/app.js''"
    using assms(1) by (auto simp: pages_def)
  have "filter (\<lambda>r. mux_path_ok (snd (fst r)) path \<and> mux_method_ok (fst (fst r)) verb) create_handler = [((''GET'', ''/''), HStatic ''index.html'')]"
    using ne assms(2) get_method [OF assms(3)] by (simp add: create_handler_def mux_path_simps)
  then show ?thesis by (simp add: mux_find_def other)
qed

lemma find_post:
  assumes "verb \<noteq> ''GET'' \<and> verb \<noteq> ''HEAD''"
  shows "mux_find create_handler verb path = (if verb = ''POST'' \<and> path = ''/dns-query'' then Some ((''POST'', ''/dns-query''), HDnsQuery) else None)"
proof (cases "verb = ''POST''")
  case True
  then have "\<not> mux_method_ok ''GET'' verb" "mux_method_ok ''POST'' verb" using other_method [OF assms] by simp_all
  then show ?thesis unfolding mux_find_def create_handler_def using True by (simp add: mux_path_exact mux_method_ok_def)
next
  case False
  then show ?thesis using other_method [OF assms] by (simp add: mux_find_def create_handler_def mux_path_exact)
qed

text \<open>The request router of the server sends every request for a clean path exactly where the reference table does:
  the listed pages to GET and HEAD, the web page for every other path, DNS messages by POST to their one path, and
  no other method anywhere.\<close>

lemma mux_dispatch:
  assumes "has_prefix path ''/''"
  shows "mux_serve create_handler verb path = dispatch verb path"
proof -
  have ne: "path \<noteq> []" using assms by (auto simp: has_prefix_def)
  show ?thesis
  proof (cases "verb = ''GET'' \<or> verb = ''HEAD''")
    case True
    then obtain pat where "mux_find create_handler verb path = Some (pat, get_handler pages path)"
      using find_page [of path verb] find_other [OF _ assms, of verb] by blast
    then show ?thesis using mux_serve_found [OF ne] True by (simp add: dispatch_def)
  next
    case False
    then have find: "mux_find create_handler verb path = (if verb = ''POST'' \<and> path = ''/dns-query'' then Some ((''POST'', ''/dns-query''), HDnsQuery) else None)"
      by (intro find_post) blast
    show ?thesis
    proof (cases "verb = ''POST'' \<and> path = ''/dns-query''")
      case True
      then show ?thesis using mux_serve_found [OF ne, of verb] find by (auto simp: dispatch_def)
    next
      case no: False
      then have "mux_serve create_handler verb path = MuxNotAllowed" using mux_serve_refused [OF assms] find by auto
      then show ?thesis using False no by (auto simp: dispatch_def)
    qed
  qed
qed

lemma dispatch_dns: "dispatch verb path = MuxHandler HDnsQuery \<Longrightarrow> verb = ''POST'' \<and> path = ''/dns-query''"
proof -
  have "get_handler ps path \<noteq> HDnsQuery" if "HDnsQuery \<notin> snd ` set ps" for ps
    using that by (induction ps path rule: get_handler.induct) auto
  moreover have "HDnsQuery \<notin> snd ` set pages" by (simp add: pages_def)
  ultimately show "dispatch verb path = MuxHandler HDnsQuery \<Longrightarrow> verb = ''POST'' \<and> path = ''/dns-query''"
    by (auto simp: dispatch_def split: if_splits)
qed

subsection \<open>A request through router and handler\<close>

datatype api_reply =
    MetricsReply
  | DnsReply http_reply
  | RoutesReply "ip_route_dns list"
  | LogsReply "log_entry list_page"
  | QueriesReply "dns_query list_page"
  | RawQueriesReply "dns_raw_query list_page"
  | StreamReply
  | FileReply string
  | RedirectReply string
  | RefusedReply int

record api_request =
  aq_method :: string
  aq_path :: string
  aq_query :: url_values
  aq_http :: http_request

text \<open>What the runtime and the clock choose while one request is served.\<close>

record api_choice =
  ach_routes :: "ip_route order"
  ach_lookup :: "ip_route \<Rightarrow> (string \<times> dns_record) order"
  ach_clock :: "ip_route \<Rightarrow> dns_record \<Rightarrow> instant"
  ach_hosts :: "(string \<times> hosts) order"

text \<open>\<open>url_text\<close> prints the URL of the request, \<open>logs\<close> is the stream of the log; a stream connection (\<open>LiveRun\<close>) and the
  page of the metrics library are only named.\<close>

definition serve_api ::
  "int \<Rightarrow> (url_values \<Rightarrow> string) \<Rightarrow> (string \<Rightarrow> string + dns_msg) \<Rightarrow> (dns_msg \<Rightarrow> string + string) \<Rightarrow> ('l, 'k, 'w) server_state resolver
     \<Rightarrow> api_choice \<Rightarrow> (log_entry, string) buffered \<Rightarrow> api_request \<Rightarrow> ('l, 'k, 'w) server_state
     \<Rightarrow> (api_reply \<times> ('l, 'k, 'w) server_state) panicking"
where
  "serve_api max_cap url_text unpack pack resolve ch logs req = (\<lambda>(cache, fl, sv, w).
     let s = (cache, fl, sv, w) in
     case mux_serve create_handler (aq_method req) (aq_path req) of
       MuxRedirect path \<Rightarrow> Inr (RedirectReply path, s)
     | MuxNotAllowed \<Rightarrow> Inr (RefusedReply 405, s)
     | MuxNotFound \<Rightarrow> Inr (RefusedReply 404, s)
     | MuxHandler h \<Rightarrow>
         (case h of
            HMetrics \<Rightarrow> Inr (MetricsReply, s)
          | HDnsQuery \<Rightarrow>
              (case wrap_handler (handle_dns_query unpack pack resolve (aq_http req) s) of
                 Inl panic \<Rightarrow> Inl panic
               | Inr (reply, s') \<Rightarrow> Inr (DnsReply reply, s'))
          | HRoutes \<Rightarrow> Inr (RoutesReply (handle_routes (ach_routes ch) (ach_lookup ch) (ach_clock ch) (sv_ctl sv)), s)
          | HLogs \<Rightarrow> (case list_handler max_cap url_text filter_logs logs (aq_query req) of
              Inl panic \<Rightarrow> Inl panic | Inr p \<Rightarrow> Inr (LogsReply p, s))
          | HQueries \<Rightarrow> (case list_handler max_cap url_text (filter_queries (ctl_lookup_host (ach_hosts ch) (sv_ctl sv))) (sv_queries sv) (aq_query req) of
              Inl panic \<Rightarrow> Inl panic | Inr p \<Rightarrow> Inr (QueriesReply p, s))
          | HRawQueries \<Rightarrow> (case list_handler max_cap url_text filter_raw_queries (sv_raw_queries sv) (aq_query req) of
              Inl panic \<Rightarrow> Inl panic | Inr p \<Rightarrow> Inr (RawQueriesReply p, s))
          | HStatic file \<Rightarrow> Inr (FileReply file, s)
          | _ \<Rightarrow> Inr (StreamReply, s)))"

lemma list_handler_one_page:
  assumes "stream_inv st" and "lq_count (list_request_of q) \<le> max_cap"
  shows "\<exists>p. list_handler max_cap url_text ff st q = Inr p
    \<and> qr_items (lp_result p) = map se_val (page_entries (list_request_of q) (ff q) (stream_entries st))"
proof -
  obtain res where r: "(if lq_backward (list_request_of q) = lq_after (list_request_of q)
        then stream_query_backward max_cap st (lq_cursor (list_request_of q)) (lq_count (list_request_of q)) (ff q)
        else stream_query max_cap st (lq_cursor (list_request_of q)) (lq_count (list_request_of q)) (ff q)) = Inr res"
    "qr_items (if \<not> lq_after (list_request_of q) then qr_reverse res else res)
       = map se_val (page_entries (list_request_of q) (ff q) (stream_entries st))"
    using list_result [OF assms, of "ff q"] unfolding Let_def by blast
  show ?thesis using r(2) unfolding list_handler_def Let_def r(1) sum.case by (intro exI conjI) (rule refl, simp)
qed

text \<open>Every request but a DNS message posted to its path is answered without a panic and leaves the server as it was,
  whatever it asks for, as long as the count it names can be allocated; a GET of a list is answered by the matching
  entries next to its cursor.\<close>

theorem api_requests_read_only:
  assumes "has_prefix (aq_path req) ''/''" and "\<not> (aq_method req = ''POST'' \<and> aq_path req = ''/dns-query'')"
    and "stream_inv logs" and "stream_inv (sv_queries sv)" and "stream_inv (sv_raw_queries sv)"
    and "lq_count (list_request_of (aq_query req)) \<le> max_cap"
  shows "\<exists>reply. serve_api max_cap url_text unpack pack resolve ch logs req (cache, fl, sv, w) = Inr (reply, (cache, fl, sv, w))
    \<and> (aq_method req = ''GET'' \<and> aq_path req = ''/api/logs'' \<longrightarrow>
         (\<exists>p. reply = LogsReply p \<and> qr_items (lp_result p)
             = map se_val (page_entries (list_request_of (aq_query req)) (filter_logs (aq_query req)) (stream_entries logs))))
    \<and> (aq_method req = ''GET'' \<and> aq_path req = ''/api/dns-queries'' \<longrightarrow>
         (\<exists>p. reply = QueriesReply p \<and> qr_items (lp_result p)
             = map se_val (page_entries (list_request_of (aq_query req))
                 (filter_queries (ctl_lookup_host (ach_hosts ch) (sv_ctl sv)) (aq_query req)) (stream_entries (sv_queries sv)))))"
proof -
  let ?run = "serve_api max_cap url_text unpack pack resolve ch logs req (cache, fl, sv, w)"
  note mux = mux_dispatch [OF assms(1), of "aq_method req"]
  obtain lp qp rp where
    pages: "list_handler max_cap url_text filter_logs logs (aq_query req) = Inr lp"
      "list_handler max_cap url_text (filter_queries (ctl_lookup_host (ach_hosts ch) (sv_ctl sv))) (sv_queries sv) (aq_query req) = Inr qp"
      "list_handler max_cap url_text filter_raw_queries (sv_raw_queries sv) (aq_query req) = Inr rp"
    and items: "qr_items (lp_result lp) = map se_val (page_entries (list_request_of (aq_query req)) (filter_logs (aq_query req)) (stream_entries logs))"
      "qr_items (lp_result qp) = map se_val (page_entries (list_request_of (aq_query req))
                 (filter_queries (ctl_lookup_host (ach_hosts ch) (sv_ctl sv)) (aq_query req)) (stream_entries (sv_queries sv)))"
    using list_handler_one_page [OF assms(3,6)] list_handler_one_page [OF assms(4,6)] list_handler_one_page [OF assms(5,6)] by meson
  show ?thesis
  proof (cases "mux_serve create_handler (aq_method req) (aq_path req)")
    case (MuxHandler h)
    then have h: "dispatch (aq_method req) (aq_path req) = MuxHandler h" unfolding mux .
    have "h \<noteq> HDnsQuery" using assms(2) dispatch_dns [of "aq_method req" "aq_path req"] h by blast
    moreover have "aq_method req = ''GET'' \<and> aq_path req = ''/api/logs'' \<Longrightarrow> h = HLogs"
      "aq_method req = ''GET'' \<and> aq_path req = ''/api/dns-queries'' \<Longrightarrow> h = HQueries"
      using h by (auto simp: dispatch_def pages_def)
    ultimately show ?thesis using items pages MuxHandler by (cases h) (auto simp: serve_api_def Let_def)
  qed (use mux in \<open>auto simp: serve_api_def Let_def dispatch_def pages_def\<close>)
qed

definition blank_stream :: "'a \<Rightarrow> ('a, 'l) buffered" where
  "blank_stream v = \<lparr>bs_buf = \<lparr>rb_start = 0, rb_end = - 1, rb_size = 0, rb_buf = [\<lparr>se_cursor = 0, se_val = v\<rparr>]\<rparr>,
     bs_index = 0, bs_listeners = [], bs_next_listener = 0\<rparr>"

lemma blank_stream_inv: "stream_inv (blank_stream v)" and blank_stream_entries: "stream_entries (blank_stream v) = []"
proof -
  show es: "stream_entries (blank_stream v) = []" by (simp add: blank_stream_def rb_list_def)
  have "rb_inv (bs_buf (blank_stream v))" by (simp add: blank_stream_def rb_inv_def rb_cap_def)
  then show "stream_inv (blank_stream v)" by (simp add: stream_inv_def es entries_sorted_def)
qed

definition sample_log_entry :: log_entry where
  "sample_log_entry = \<lparr>le_cursor = 10, le_time = 0, le_level = ''INFO'', le_msg = ''server starting...'', le_attrs = None\<rparr>"

definition sample_logs :: "(log_entry, string) buffered" where
  "sample_logs = \<lparr>bs_buf = \<lparr>rb_start = 0, rb_end = 0, rb_size = 1,
       rb_buf = [\<lparr>se_cursor = 10, se_val = sample_log_entry\<rparr>, \<lparr>se_cursor = 0, se_val = sample_log_entry\<rparr>]\<rparr>,
     bs_index = 1, bs_listeners = [], bs_next_listener = 0\<rparr>"

lemma sample_logs_inv: "stream_inv sample_logs"
  and sample_logs_entries: "stream_entries sample_logs = [\<lparr>se_cursor = 10, se_val = sample_log_entry\<rparr>]"
proof -
  show es: "stream_entries sample_logs = [\<lparr>se_cursor = 10, se_val = sample_log_entry\<rparr>]"
    by (simp add: sample_logs_def rb_list_def rb_cap_def)
  have "rb_inv (bs_buf sample_logs)" by (simp add: sample_logs_def rb_inv_def rb_cap_def)
  then show "stream_inv sample_logs" by (simp add: stream_inv_def es entries_sorted_def)
qed

definition sample_api_service :: "(unit, unit) service" where
  "sample_api_service = \<lparr>sv_ctl = sample_ctl, sv_queries = blank_stream zero_dns_query, sv_raw_queries = blank_stream zero_dns_raw_query\<rparr>"

definition sample_api_choice :: api_choice where
  "sample_api_choice = \<lparr>ach_routes = rev, ach_lookup = (\<lambda>r. rev), ach_clock = (\<lambda>r rec. 100), ach_hosts = rev\<rparr>"

definition sample_api_request :: api_request where
  "sample_api_request = \<lparr>aq_method = ''GET'', aq_path = ''/api/logs'', aq_query = [(''level'', [''INFO'']), (''backward'', [''1''])],
     aq_http = \<lparr>hq_content_type = [], hq_accept = [], hq_body = Inr [], hq_remote_addr = []\<rparr>\<rparr>"

lemma sample_api_list: "list_request_of (aq_query sample_api_request) = \<lparr>lq_backward = True, lq_after = True, lq_cursor = - 1, lq_count = 50\<rparr>"
  by (simp add: sample_api_request_def list_request_of_def values_has_def query_param_set_def values_get_def)

lemma sample_api_filter: "passes (filter_logs (aq_query sample_api_request)) sample_log_entry"
  by (simp add: sample_api_request_def filter_logs_def values_get_def passes_def sample_log_entry_def)

theorem api_requests_read_only_witness:
  "\<exists>p. serve_api 1000 (\<lambda>q. []) (\<lambda>b. Inl ''bad message'') (\<lambda>m. Inr []) (\<lambda>c m s. Inr (Inl ''refused'', s)) sample_api_choice sample_logs sample_api_request
        (new_dns_cache, new_single_inflight, sample_api_service, ())
      = Inr (LogsReply p, (new_dns_cache, new_single_inflight, sample_api_service, ()))
    \<and> qr_items (lp_result p) = [sample_log_entry]"
proof -
  have req: "has_prefix (aq_path sample_api_request) ''/''" "aq_method sample_api_request = ''GET''" "aq_path sample_api_request = ''/api/logs''"
    by (simp_all add: sample_api_request_def has_prefix_def)
  have not_dns: "\<not> (aq_method sample_api_request = ''POST'' \<and> aq_path sample_api_request = ''/dns-query'')" by (simp add: req)
  have streams: "stream_inv (sv_queries sample_api_service)" "stream_inv (sv_raw_queries sample_api_service)"
    by (simp_all add: sample_api_service_def blank_stream_inv)
  have cnt: "lq_count (list_request_of (aq_query sample_api_request)) \<le> 1000" by (simp add: sample_api_list)
  have page: "map se_val (page_entries (list_request_of (aq_query sample_api_request)) (filter_logs (aq_query sample_api_request)) (stream_entries sample_logs))
      = [sample_log_entry]"
    by (simp add: sample_api_list page_entries_def shown_def beyond_def sample_logs_entries sample_api_filter Let_def)
  from api_requests_read_only [OF req(1) not_dns sample_logs_inv streams cnt, of "\<lambda>q. []" "\<lambda>b. Inl ''bad message''" "\<lambda>m. Inr []" "\<lambda>c m s. Inr (Inl ''refused'', s)" sample_api_choice
      new_dns_cache new_single_inflight "()"] req(2,3) page show ?thesis by auto
qed

subsection \<open>The routes of the agent\<close>

datatype agent_handler = AMetrics | AApi

definition agent_create_handler :: "(mux_pattern \<times> agent_handler) list" where
  "agent_create_handler = [((''GET'', ''/metrics''), AMetrics), (([], ''/api/''), AApi)]"

text \<open>\<open>service_path\<close> is the path of the generated handler of the service, for all its procedures.\<close>

definition agent_create_api_handler :: "string \<Rightarrow> (mux_pattern \<times> unit) list" where
  "agent_create_api_handler service_path = [(([], service_path), ())]"

datatype agent_reply = AgentMetrics | AgentCall string | AgentRedirect string | AgentRefused int

definition agent_serve :: "string \<Rightarrow> string \<Rightarrow> string \<Rightarrow> agent_reply" where
  "agent_serve service_path verb path =
     (case mux_serve agent_create_handler verb path of
        MuxHandler AMetrics \<Rightarrow> AgentMetrics
      | MuxHandler AApi \<Rightarrow>
          (let rest = (if has_prefix path ''/api'' then drop 4 path else path) in
           if length rest < length path then
             (case mux_serve (agent_create_api_handler service_path) verb rest of
                MuxHandler _ \<Rightarrow> AgentCall rest
              | MuxRedirect p \<Rightarrow> AgentRedirect p
              | MuxNotAllowed \<Rightarrow> AgentRefused 405
              | MuxNotFound \<Rightarrow> AgentRefused 404)
           else AgentRefused 404)
      | MuxRedirect p \<Rightarrow> AgentRedirect p
      | MuxNotAllowed \<Rightarrow> AgentRefused 405
      | MuxNotFound \<Rightarrow> AgentRefused 404)"

text \<open>A call of the client, which posts to its base URL \<open>.../api\<close> followed by the procedure, reaches the service with
  the procedure's path.\<close>

lemma agent_call_reaches_service:
  assumes "service_path = ''/'' @ name @ ''/''"
  shows "agent_serve service_path verb (''/api'' @ service_path @ procedure) = AgentCall (service_path @ procedure)"
proof -
  let ?path = "''/api'' @ service_path @ procedure"
  have ok: "mux_path_ok ''/metrics'' ?path = False" "mux_path_ok ''/api/'' ?path = True"
    "mux_path_ok ''/metrics'' (?path @ ''/'') = False" "mux_path_ok ''/api/'' (?path @ ''/'') = True"
    by (simp_all add: mux_path_ok_def ends_in_slash_def has_prefix_def assms)
  have longer: "?path \<noteq> ''/api/''" "?path @ ''/'' \<noteq> ''/api/''" by (simp_all add: assms)
  have outer: "mux_serve agent_create_handler verb ?path = MuxHandler AApi"
    using longer by (simp add: mux_serve_def mux_find_def agent_create_handler_def ok Let_def mux_method_ok_def [of "[]"] del: append.simps append_assoc)
  have inner_ok: "mux_path_ok service_path (service_path @ procedure)" "mux_path_ok service_path ((service_path @ procedure) @ ''/'')"
    by (simp_all add: mux_path_ok_def ends_in_slash_def has_prefix_def assms)
  have "service_path \<noteq> (service_path @ procedure) @ ''/''" by simp
  then have inner: "mux_serve (agent_create_api_handler service_path) verb (service_path @ procedure) = MuxHandler ()"
    using inner_ok by (simp add: mux_serve_def mux_find_def agent_create_api_handler_def Let_def mux_method_ok_def del: append_assoc)
  show ?thesis unfolding agent_serve_def outer by (simp add: has_prefix_def inner Let_def)
qed

end
