(* ===== verification/AgentProcess.thy ===== *)
theory AgentProcess
  imports Lifecycle Flags HTTPRoutes
begin

text \<open>
  The process of the agent (\<open>agent/cmd/main.go\<close>, \<open>agent/internal/http_server.go\<close>): its options, its server and its end,
  on the steps of servers of \<open>Lifecycle\<close>; and the request router of the profile handler both programs can start
  (\<open>internal/setup/pprof.go\<close>), on the \<open>ServeMux\<close> of \<open>HTTPRoutes\<close>.
\<close>

subsection \<open>The server of the agent\<close>

text \<open>The RPC handler is what the generated code makes of the service, here the logger it writes to.\<close>

record 'b agent_server =
  as_logger :: "'b handler"
  as_addr :: string
  as_read_header_timeout :: duration
  as_network_service :: "'b handler"

definition new_network_service :: "'b handler \<Rightarrow> 'b handler" where
  "new_network_service logger = logger"

definition new_agent_server :: "string \<Rightarrow> 'b handler \<Rightarrow> 'b handler \<Rightarrow> 'b agent_server" where
  "new_agent_server addr logger svc =
     \<lparr>as_logger = logger, as_addr = addr, as_read_header_timeout = 10 * second, as_network_service = svc\<rparr>"

text \<open>\<open>main\<close> up to the start of the server: the code it exits with, or the options and the server.\<close>

definition agent_main :: "('b, 'w) slog_base \<Rightarrow> (int \<Rightarrow> 'b) \<Rightarrow> string list \<Rightarrow> int + agent_options \<times> 'b agent_server" where
  "agent_main ops text_handler args =
     (case agent_options_of args of
        Inl code \<Rightarrow> Inl code
      | Inr opts \<Rightarrow>
          let logger = setup_logger text_handler (ao_debug opts) None;
              svc = new_network_service (with_prefix ops ''network_svc'' logger)
          in Inr (opts, new_agent_server (ao_http_addr opts) (with_prefix ops ''http'' logger) svc))"

text \<open>\<open>main\<close> ends with the context.\<close>

definition agent_main_return :: "process \<Rightarrow> process" where
  "agent_main_return p = (if pr_done p then main_return p else p)"

inductive agent_step :: "process \<Rightarrow> process \<Rightarrow> bool" where
  servers: "pr_exit p = None \<Longrightarrow> server_move {HTTPServer} p p' \<Longrightarrow> agent_step p p'"
| main_return: "pr_exit p = None \<Longrightarrow> agent_step p (agent_main_return p)"

definition agent_inv :: "process \<Rightarrow> bool" where
  "agent_inv p \<longleftrightarrow> pr_serve p UDPServer = ServeNotYet \<and> pr_after p UDPServer = HookNotYet
   \<and> (case pr_exit p of None \<Rightarrow> True | Some code \<Rightarrow> (code = 0 \<and> pr_done p) \<or> (code = 1 \<and> (8, ''failed to start server'') \<in> set (pr_log p)))"

lemma agent_step_udp:
  assumes "server_move {HTTPServer} p p'" and "pr_serve p UDPServer = ServeNotYet" and "pr_after p UDPServer = HookNotYet"
  shows "pr_serve p' UDPServer = ServeNotYet \<and> pr_after p' UDPServer = HookNotYet"
  using assms
proof (cases rule: server_move.cases)
  case (hook_end i err)
  then show ?thesis using assms(2,3) by (cases err) (auto simp: proc_defs)
next
  case (closed i)
  then show ?thesis using assms(2,3) by (cases i) (auto simp: proc_defs serve_end_def)
next
  case (failed i err)
  then show ?thesis using assms(2,3) by (cases i) (auto simp: proc_defs serve_end_def)
qed (use assms in \<open>auto simp: proc_defs\<close>)

lemma agent_step_inv:
  assumes "agent_step p p'" and "agent_inv p"
  shows "agent_inv p'"
  using assms(1)
proof (cases rule: agent_step.cases)
  case servers
  from server_move_state(5,6) [OF servers(2,1)] agent_step_udp [OF servers(2)] assms(2) servers(1)
  show ?thesis by (auto simp: agent_inv_def split: option.splits)
next
  case main_return
  with assms(2) show ?thesis by (auto simp: agent_inv_def agent_main_return_def proc_defs)
qed

lemma agent_run_inv: "agent_step\<^sup>*\<^sup>* p p' \<Longrightarrow> agent_inv p \<Longrightarrow> agent_inv p'"
  by (induction rule: rtranclp_induct) (auto intro: agent_step_inv)

text \<open>The agent ends with code 0 only after the stop signal has ended its context, and with code 1 only after a failure of
  its listener that it logs; but once the context has ended its next step may end it, whatever requests it is answering.\<close>

theorem agent_exit:
  assumes "agent_step\<^sup>*\<^sup>* (process_start []) p"
  shows "(case pr_exit p of
            None \<Rightarrow> pr_done p \<longrightarrow> (\<exists>p'. agent_step p p' \<and> pr_exit p' = Some 0 \<and> pr_active p' = pr_active p \<and> pr_after p' = pr_after p)
          | Some code \<Rightarrow> (code = 0 \<and> pr_done p) \<or> (code = 1 \<and> (8, ''failed to start server'') \<in> set (pr_log p)))"
proof -
  have "agent_inv (process_start [])" by (simp add: agent_inv_def process_start_def listen_stop_signal_def)
  from agent_run_inv [OF assms this] have inv: "agent_inv p" .
  have "\<exists>p'. agent_step p p' \<and> pr_exit p' = Some 0 \<and> pr_active p' = pr_active p \<and> pr_after p' = pr_after p"
    if "pr_exit p = None" "pr_done p"
    using agent_step.main_return [OF that(1)] that(2) by (intro exI [of _ "agent_main_return p"]) (simp add: agent_main_return_def proc_defs)
  with inv show ?thesis by (auto simp: agent_inv_def split: option.splits)
qed

lemma agent_snoc: "agent_step\<^sup>*\<^sup>* a b \<Longrightarrow> pr_exit b = None \<Longrightarrow> server_move {HTTPServer} b c \<Longrightarrow> agent_step\<^sup>*\<^sup>* a c"
  by (erule rtranclp.rtrancl_into_rtrancl) (rule agent_step.servers)

text \<open>An agent that is answering a request when the signal comes.\<close>

definition stopping_agent :: process where
  "stopping_agent = stop_on_signal (notify_signal (let p = serve_begin HTTPServer (process_start []) in
     p\<lparr>pr_active := (pr_active p)(HTTPServer := pr_active p HTTPServer + 1)\<rparr>))"

lemma stopping_agent_reached: "agent_step\<^sup>*\<^sup>* (process_start []) stopping_agent"
proof -
  let ?p0 = "process_start []"
  let ?p1 = "serve_begin HTTPServer ?p0"
  let ?p2 = "?p1\<lparr>pr_active := (pr_active ?p1)(HTTPServer := pr_active ?p1 HTTPServer + 1)\<rparr>"
  note d = process_start_def listen_stop_signal_def proc_defs
  have e: "pr_exit ?p0 = None" "pr_exit ?p1 = None" "pr_exit ?p2 = None" "pr_exit (notify_signal ?p2) = None" by (simp_all add: d)
  have serve: "HTTPServer \<in> {HTTPServer}" "pr_serve ?p0 HTTPServer = ServeNotYet" by (simp_all add: d)
  have req: "pr_serve ?p1 HTTPServer = ServeListening" "pr_after ?p1 HTTPServer = HookRegistered" by (simp_all add: d)
  note run = agent_snoc [OF rtranclp.rtrancl_refl e(1) server_move.serve [OF serve]]
  note run = agent_snoc [OF run e(2) server_move.request [OF req]]
  note run = agent_snoc [OF run e(3) server_move.signal]
  note run = agent_snoc [OF run e(4) server_move.stop]
  then show ?thesis by (simp add: stopping_agent_def Let_def)
qed

theorem agent_exit_witness:
  "\<exists>p. agent_step\<^sup>*\<^sup>* (process_start []) stopping_agent \<and> agent_step stopping_agent p \<and> pr_exit p = Some 0 \<and> pr_active p HTTPServer = 1"
proof -
  have "pr_exit stopping_agent = None" "pr_done stopping_agent" "pr_active stopping_agent HTTPServer = 1"
    by (simp_all add: stopping_agent_def process_start_def listen_stop_signal_def proc_defs Let_def)
  note s = this
  then obtain p where "agent_step stopping_agent p" "pr_exit p = Some 0" "pr_active p = pr_active stopping_agent"
    using agent_exit [OF stopping_agent_reached] by auto
  with s(3) stopping_agent_reached show ?thesis by (intro exI [of _ p]) simp
qed

subsection \<open>The profile handler\<close>

datatype pprof_handler = PprofIndex | PprofCmdline | PprofProfile | PprofSymbol | PprofTrace | PprofNamed string

text \<open>\<open>ServeMux.HandleFunc\<close> for a pattern without a method and without wildcards: a second pattern for one path panics
  (\<open>None\<close>).\<close>

definition mux_handle_func :: "string \<Rightarrow> 'h \<Rightarrow> (mux_pattern \<times> 'h) list \<Rightarrow> (mux_pattern \<times> 'h) list option" where
  "mux_handle_func path h routes = (if ([], path) \<in> fst ` set routes then None else Some (routes @ [(([], path), h)]))"

fun register_profiles :: "string list \<Rightarrow> (mux_pattern \<times> pprof_handler) list \<Rightarrow> (mux_pattern \<times> pprof_handler) list option" where
  "register_profiles [] routes = Some routes"
| "register_profiles (name # names) routes =
     (case mux_handle_func (CHR ''/'' # name) (PprofNamed name) routes of
        None \<Rightarrow> None
      | Some routes \<Rightarrow> register_profiles names routes)"

definition pprof_fixed :: "(mux_pattern \<times> pprof_handler) list" where
  "pprof_fixed = [(([], ''/''), PprofIndex), (([], ''/cmdline''), PprofCmdline), (([], ''/profile''), PprofProfile),
     (([], ''/symbol''), PprofSymbol), (([], ''/trace''), PprofTrace)]"

text \<open>\<open>profiles\<close> are the names of the runtime's profiles.\<close>

definition pprof_mux :: "string list \<Rightarrow> (mux_pattern \<times> pprof_handler) list option" where
  "pprof_mux profiles = register_profiles profiles pprof_fixed"

text \<open>The path that the index handler sees, which shows the profile of that name.\<close>

definition pprof_path :: "pprof_handler \<Rightarrow> string \<Rightarrow> string" where
  "pprof_path h path = (case h of PprofNamed name \<Rightarrow> ''/debug/pprof/'' @ name | _ \<Rightarrow> path)"

definition profile_name :: "string \<Rightarrow> bool" where
  "profile_name n \<longleftrightarrow> n \<noteq> [] \<and> CHR ''/'' \<notin> set n"

lemma register_profiles_routes:
  "(\<forall>n \<in> set names. ([], CHR ''/'' # n) \<notin> fst ` set routes) \<Longrightarrow> distinct names
     \<Longrightarrow> register_profiles names routes = Some (routes @ map (\<lambda>n. (([], CHR ''/'' # n), PprofNamed n)) names)"
proof (induction names arbitrary: routes)
  case (Cons n ns)
  let ?r = "routes @ [(([], CHR ''/'' # n), PprofNamed n)]"
  have "register_profiles ns ?r = Some (?r @ map (\<lambda>n. (([], CHR ''/'' # n), PprofNamed n)) ns)"
    using Cons.prems by (intro Cons.IH) auto
  then show ?case using Cons.prems(1) by (simp add: mux_handle_func_def)
qed simp

lemma best_match_longest:
  assumes "(pat, h) \<in> set xs" and "\<forall>x \<in> set xs. x = (pat, h) \<or> length (snd (fst x)) < length (snd pat)"
  shows "best_match xs = Some (pat, h)"
proof -
  have nonempty: "best_match ys \<noteq> None" if "ys \<noteq> []" for ys :: "(mux_pattern \<times> 'a) list"
    using that by (cases ys) (auto split: option.splits)
  have "best_match ys \<in> Some ` set ys \<union> {None}" for ys :: "(mux_pattern \<times> 'a) list"
    by (induction ys) (auto split: option.splits if_splits)
  note member = this
  show ?thesis
    using assms
  proof (induction xs)
    case (Cons x xs)
    show ?case
    proof (cases "(pat, h) \<in> set xs")
      case True
      with Cons have "best_match xs = Some (pat, h)" by auto
      then show ?thesis using Cons.prems(2) by (auto simp: more_specific_def)
    next
      case False
      then have x: "x = (pat, h)" using Cons.prems(1) by auto
      then show ?thesis
      proof (cases "best_match xs")
        case (Some y)
        then have "y \<in> set xs" using member [of xs] by auto
        then have "length (snd (fst y)) < length (snd pat)" using Cons.prems(2) False by (metis list.set_intros(2))
        then show ?thesis using Some x by (auto simp: more_specific_def)
      qed simp
    qed
  qed simp
qed

lemma best_match_member: "best_match xs = Some x \<Longrightarrow> x \<in> set xs"
  by (induction xs arbitrary: x) (auto split: option.splits if_splits)

text \<open>A router of exact paths and the root, for any method.\<close>

lemma mux_exact_root:
  assumes plain: "\<forall>x \<in> set routes. fst (fst x) = [] \<and> (snd (fst x) = ''/'' \<or> \<not> ends_in_slash (snd (fst x)))"
    and "distinct (map fst routes)" and root: "(([], ''/''), h0) \<in> set routes" and "has_prefix path ''/''"
  shows "mux_serve routes verb path = MuxHandler (case map_of routes ([], path) of None \<Rightarrow> h0 | Some h \<Rightarrow> h)"
proof -
  let ?ok = "\<lambda>r. mux_path_ok (snd (fst r)) path \<and> mux_method_ok (fst (fst r)) verb"
  have ok: "?ok r \<longleftrightarrow> snd (fst r) = path \<or> snd (fst r) = ''/''" if "r \<in> set routes" for r
    using plain that assms(4) by (auto simp: mux_path_ok_def mux_method_ok_def ends_in_slash_def)
  obtain pat h where target: "(pat, h) \<in> set routes" "snd pat = path \<or> snd pat = ''/''"
    "h = (case map_of routes ([], path) of None \<Rightarrow> h0 | Some h \<Rightarrow> h)" "snd pat = path \<or> map_of routes ([], path) = None"
  proof (cases "map_of routes ([], path)")
    case None
    with root that [of "([], ''/'')" h0] show thesis by simp
  next
    case (Some h)
    show thesis by (rule that [of "([], path)" h]) (simp_all add: Some map_of_SomeD [OF Some])
  qed
  have pat: "fst pat = []" using bspec [OF plain target(1)] by simp
  have long: "r = (pat, h) \<or> length (snd (fst r)) < length (snd pat)" if r: "r \<in> set (filter ?ok routes)" for r
  proof -
    have mem: "r \<in> set routes" and "?ok r" using r by simp_all
    then have "snd (fst r) = path \<or> snd (fst r) = ''/''" using ok [OF mem] by blast
    moreover have empty: "fst (fst r) = []" using bspec [OF plain mem] by simp
    moreover have "r = (pat, h)" if "fst r = pat"
      using that mem target(1) eq_key_imp_eq_value [OF assms(2)] by (metis prod.collapse)
    moreover have "fst r = pat" if "snd (fst r) = snd pat" using that pat empty by (simp add: prod_eq_iff)
    moreover have "snd (fst r) \<noteq> path" if "map_of routes ([], path) = None"
      using that mem empty by (auto simp: map_of_eq_None_iff prod_eq_iff image_iff)
    moreover have "length ''/'' < length path" if "path \<noteq> ''/''" using assms(4) that by (cases path) (auto simp: has_prefix_def)
    ultimately show ?thesis using target(2,4) by (metis length_Cons list.size(3))
  qed
  have "(pat, h) \<in> set (filter ?ok routes)" using target(1,2) ok [OF target(1)] by simp
  from best_match_longest [OF this] long have find: "mux_find routes verb path = Some (pat, h)" by (simp add: mux_find_def)
  have slash: "snd (fst x) \<noteq> path @ ''/''" if "x \<in> set routes" "path \<noteq> []" for x
    using plain that assms(4) by (auto simp: ends_in_slash_def has_prefix_def)
  have "snd pat' \<noteq> path @ ''/''" if "mux_find routes verb (path @ ''/'') = Some (pat', h')" "path \<noteq> []" for pat' h'
    using slash [OF _ that(2), of "(pat', h')"] best_match_member [OF that(1) [unfolded mux_find_def]] by simp
  then have "\<not> (case mux_find routes verb (path @ ''/'') of None \<Rightarrow> False | Some (pat, h) \<Rightarrow> snd pat = path @ ''/'')" if "path \<noteq> []"
    using that by (auto split: option.splits)
  then show ?thesis using find target(3) by (auto simp: mux_serve_def Let_def)
qed

text \<open>Every profile of the runtime is shown under its own name, whatever the method, next to the four handlers of the
  package; any other path shows the index. Two profiles of one name, or one with the name of a handler, make the start
  of the program panic.\<close>

theorem pprof_dispatch:
  assumes "\<forall>n \<in> set profiles. profile_name n" and "has_prefix path ''/''"
  shows "(case pprof_mux profiles of
            None \<Rightarrow> \<not> distinct (profiles @ [''cmdline'', ''profile'', ''symbol'', ''trace''])
          | Some routes \<Rightarrow> \<exists>h. mux_serve routes verb path = MuxHandler h
              \<and> (if tl path \<in> set profiles then pprof_path h path = ''/debug/pprof/'' @ tl path
                 else h = (case map_of pprof_fixed ([], path) of None \<Rightarrow> PprofIndex | Some h \<Rightarrow> h) \<and> pprof_path h path = path))"
proof (cases "distinct (profiles @ [''cmdline'', ''profile'', ''symbol'', ''trace''])")
  case True
  let ?named = "map (\<lambda>n. (([] :: string, CHR ''/'' # n), PprofNamed n)) profiles"
  have fresh: "\<forall>n \<in> set profiles. (([] :: string), CHR ''/'' # n) \<notin> fst ` set pprof_fixed"
    using True assms(1) by (auto simp: pprof_fixed_def profile_name_def)
  have mux: "pprof_mux profiles = Some (pprof_fixed @ ?named)"
    unfolding pprof_mux_def using fresh True by (intro register_profiles_routes) simp_all
  have dn: "distinct (map fst ?named)" using True by (auto simp: distinct_map inj_on_def)
  have df: "distinct (map fst pprof_fixed)" by (simp add: pprof_fixed_def)
  have "set (map fst pprof_fixed) \<inter> set (map fst ?named) = {}" using fresh by auto
  with dn df have dist: "distinct (map fst (pprof_fixed @ ?named))" by simp
  have plain: "\<forall>x \<in> set (pprof_fixed @ ?named). fst (fst x) = [] \<and> (snd (fst x) = ''/'' \<or> \<not> ends_in_slash (snd (fst x)))"
  proof
    fix x
    assume "x \<in> set (pprof_fixed @ ?named)"
    then consider "x \<in> set pprof_fixed" | n where "n \<in> set profiles" "x = (([], CHR ''/'' # n), PprofNamed n)" by auto
    then show "fst (fst x) = [] \<and> (snd (fst x) = ''/'' \<or> \<not> ends_in_slash (snd (fst x)))"
    proof cases
      case 2
      then have n: "n \<noteq> []" "CHR ''/'' \<notin> set n" using assms(1) by (auto simp: profile_name_def)
      with last_in_set [of n] have "last n \<noteq> CHR ''/''" by metis
      with 2(2) n(1) show ?thesis by (simp add: ends_in_slash_def)
    qed (auto simp: pprof_fixed_def ends_in_slash_def)
  qed
  have root: "(([], ''/''), PprofIndex) \<in> set (pprof_fixed @ ?named)" by (simp add: pprof_fixed_def)
  note serve = mux_exact_root [OF plain dist root assms(2), of verb]
  obtain rest where path: "path = CHR ''/'' # rest" using assms(2) by (cases path) (auto simp: has_prefix_def)
  show ?thesis
  proof (cases "rest \<in> set profiles")
    case named: True
    then have "map_of pprof_fixed ([], path) = None" using fresh by (simp add: map_of_eq_None_iff path)
    moreover have "map_of ?named ([], path) = Some (PprofNamed rest)"
      using named path by (intro map_of_is_SomeI [OF dn]) auto
    ultimately show ?thesis using named serve by (simp add: mux path map_add_def pprof_path_def)
  next
    case False
    then have "map_of ?named ([], path) = None" by (auto simp: map_of_eq_None_iff path)
    then have h: "map_of (pprof_fixed @ ?named) ([], path) = map_of pprof_fixed ([], path)" by (simp add: map_add_def split: option.splits)
    have "pprof_path (case map_of pprof_fixed ([], path) of None \<Rightarrow> PprofIndex | Some h \<Rightarrow> h) path = path"
      by (auto simp: pprof_fixed_def pprof_path_def)
    then show ?thesis using serve [unfolded h] False by (simp add: mux path)
  qed
next
  case False
  have "register_profiles names routes = None"
    if "\<not> distinct names \<or> (\<exists>n \<in> set names. ([], CHR ''/'' # n) \<in> fst ` set routes)" for names routes
    using that
  proof (induction names arbitrary: routes)
    case (Cons n ns)
    show ?case
    proof (cases "([], CHR ''/'' # n) \<in> fst ` set routes")
      case new: False
      have "register_profiles ns (routes @ [(([], CHR ''/'' # n), PprofNamed n)]) = None"
        using Cons.prems new by (intro Cons.IH) (auto simp: image_Un)
      then show ?thesis by (simp add: mux_handle_func_def)
    qed (simp add: mux_handle_func_def)
  qed simp
  moreover have "\<not> distinct profiles \<or> (\<exists>n \<in> set profiles. ([], CHR ''/'' # n) \<in> fst ` set pprof_fixed)"
    using False by (auto simp: pprof_fixed_def)
  ultimately show ?thesis using False by (simp add: pprof_mux_def)
qed

theorem pprof_dispatch_witness:
  "\<exists>routes h. pprof_mux [''goroutine'', ''heap''] = Some routes \<and> mux_serve routes ''GET'' ''/heap'' = MuxHandler h
     \<and> pprof_path h ''/heap'' = ''/debug/pprof/heap''"
proof -
  have "\<forall>n \<in> set [''goroutine'', ''heap'']. profile_name n" "has_prefix ''/heap'' ''/''"
    by (simp_all add: profile_name_def has_prefix_def)
  from pprof_dispatch [OF this, of "''GET''"] show ?thesis by (auto split: option.splits)
qed

end
