(* ===== verification/Sync.thy ===== *)
theory Sync
  imports Startup
begin

text \<open>
  The routes the controller remembers (\<open>routes\<close> of \<open>dns-server/internal/ip_routes.go\<close>) against those of the router's
  table, while queries add routes and reconciliations add and delete them: each step runs under \<open>routesMu\<close>, so a
  run of the server is a sequence of the steps below. Once in step, the two stay in step; the theorems at the end say
  how a start or a lost answer puts them out of step, and what this does to the routes.
\<close>

subsection \<open>Routes remembered and routes there\<close>

text \<open>The steps of \<open>ctl_step\<close> on a router of table \<open>rule_table rule\<close>: the routes asked for, by the service or by
  the configuration, are ones the kernel accepts.\<close>

inductive net_step :: "('w, 'e) network_client \<Rightarrow> ip_routing_rule \<Rightarrow> ip_ctl \<times> 'w \<Rightarrow> ip_ctl \<times> 'w \<Rightarrow> bool" for nc rule where
  add_route: "acceptable (rule_table rule) (route_of s iface ip) \<Longrightarrow> net_step nc rule (s, w) (ctl_add_route nc iface ip (s, w))"
| add_record: "net_step nc rule (s, w) (s\<lparr>ic_store := store_add (ic_store s) r\<rparr>, w)"
| purge: "choice_ok ch \<Longrightarrow> net_step nc rule (s, w)
     (s\<lparr>ic_store := store_remove_expired (rch_purge_order ch) (rch_purge_clock ch) (ic_store s) timeout\<rparr>, w)"
| rules: "rc_rule cfg = rule \<Longrightarrow> net_step nc rule (s, w) (reconcile_rules nc cfg (s, w))"
| routes: "rc_rule cfg = rule \<Longrightarrow> choice_ok ch \<Longrightarrow> \<forall>r \<in> static_set cfg. acceptable (rule_table rule) r
     \<Longrightarrow> reconcile_routes nc ch cfg (s, w) = Inr sw' \<Longrightarrow> net_step nc rule (s, w) sw'"
| new_config: "net_step nc rule (s, w) (s\<lparr>ic_cfg := (ic_cfg s)\<lparr>rc_dynamic := d\<rparr>\<rparr>, w)"

inductive_cases net_stepE [consumes 1, case_names add_route add_record purge rules routes new_config]:
  "net_step nc rule (s, w) sw'"

lemma acceptable_ipv4_ok: "acceptable t (route_of s iface ip) \<Longrightarrow> ipv4_ok ip"
  by (simp add: acceptable_def route_ok_def route_of_def)

lemma net_step_ctl_step:
  assumes "net_step nc rule (s, w) sw'" and "rc_rule (ic_cfg s) = rule"
  shows "ctl_step nc (s, w) sw'"
  using assms(1)
proof (cases rule: net_stepE)
  case (add_route iface ip)
  show ?thesis unfolding add_route(1) by (rule ctl_step.add_route [OF acceptable_ipv4_ok [OF add_route(2)]])
next
  case (add_record r)
  show ?thesis unfolding add_record by (rule ctl_step.add_record)
next
  case (purge ch timeout)
  show ?thesis unfolding purge(1) by (rule ctl_step.purge [OF purge(2)])
next
  case (rules cfg)
  show ?thesis unfolding rules(1) by (rule ctl_step.rules) (simp add: rules(2) assms(2))
next
  case (routes cfg ch)
  show ?thesis by (rule ctl_step.routes [OF _ routes(2,4)]) (simp add: routes(1) assms(2))
next
  case (new_config d)
  show ?thesis unfolding new_config by (rule ctl_step.new_config)
qed

lemma fold_add_sync:
  assumes "keeps_router nc rule tbl has" and "\<forall>r \<in> set rs. acceptable (rule_table rule) r"
    and "in_sync tbl s w" and "fold (ctl_add_route_rpc nc) rs (s, w) = (s', w')"
  shows "in_sync tbl s' w' \<and> has w' = has w"
  using assms(2-4)
proof (induction rs arbitrary: s w)
  case (Cons r rs)
  obtain s1 w1 where 1: "ctl_add_route_rpc nc r (s, w) = (s1, w1)" by fastforce
  obtain res w2 where call: "nc_add_route nc (map_to_agent_route r) w = (res, w2)" by fastforce
  from Cons.prems(1) have "acceptable (rule_table rule) r" by simp
  note t = keeps_routerD(3) [OF assms(1) this call]
  from add_route_rpc_routes [OF 1 call] t Cons.prems(2)
  have "in_sync tbl s1 w1" "has w1 = has w" by (auto simp: in_sync_def split: if_splits)
  with Cons 1 show ?case by auto
qed simp

lemma fold_delete_sync:
  assumes "keeps_router nc rule tbl has" and "set rs \<subseteq> tbl w" and "distinct rs"
    and "in_sync tbl s w" and "fold (ctl_delete_route nc) rs (s, w) = (s', w')"
  shows "in_sync tbl s' w' \<and> has w' = has w"
proof -
  have "set_inv (ic_routes s)" using assms(4) by (simp add: in_sync_def)
  from fold_delete_table [OF assms(1-3) this] assms(5) fold_delete_state [OF assms(5) this] assms(4)
  show ?thesis by (auto simp: in_sync_def)
qed

lemma fold_add_grows:
  assumes "keeps_router nc rule tbl has" and "\<forall>r \<in> set rs. acceptable (rule_table rule) r"
    and "fold (ctl_add_route_rpc nc) rs (s, w) = (s', w')"
  shows "tbl w \<subseteq> tbl w'"
  using assms(2,3)
proof (induction rs arbitrary: s w)
  case (Cons r rs)
  obtain s1 w1 where 1: "ctl_add_route_rpc nc r (s, w) = (s1, w1)" by fastforce
  obtain res w2 where call: "nc_add_route nc (map_to_agent_route r) w = (res, w2)" by fastforce
  from Cons.prems(1) have "acceptable (rule_table rule) r" by simp
  from keeps_routerD(3) [OF assms(1) this call] add_route_rpc_routes [OF 1 call]
  have "tbl w \<subseteq> tbl w1" by (auto split: if_splits)
  moreover have "tbl w1 \<subseteq> tbl w'" using Cons 1 by simp
  ultimately show ?case by blast
qed simp

lemma reconcile_routes_sync:
  assumes "keeps_router nc rule tbl has" and "rc_rule cfg = rule" and "choice_ok ch"
    and "\<forall>w. \<forall>r \<in> tbl w. acceptable (rule_table rule) r"
    and "\<forall>r \<in> static_set cfg. acceptable (rule_table rule) r" and "store_inv (ic_store s)"
    and "in_sync tbl s w" and "reconcile_routes nc ch cfg (s, w) = Inr (s', w')"
  shows "in_sync tbl s' w' \<and> has w' = has w \<and> same_but_routes s s'"
proof -
  let ?wanted = "wanted_routes ch cfg s"
  from load_routes_table [OF assms(1), of w] obtain d w1
    where load: "load_routes nc (rule_table rule) w = Inr (d, w1)" "tbl w1 = tbl w" "has w1 = has w"
      "set_inv d" "set_elems d = tbl w" by blast
  let ?adds = "filter (\<lambda>r. \<not> set_has d r) ?wanted"
  let ?unknown = "fold (\<lambda>r u. set_remove u r) (filter (set_has d) ?wanted) d"
  let ?dels = "set_values (rch_unknown ch) ?unknown"
  have dels: "set ?dels \<subseteq> tbl w" "distinct ?dels"
    using fold_set_remove [OF load(4), of "filter (set_has d) ?wanted"] load(4,5) assms(3)
    by (auto simp: set_values_set set_values_distinct choice_ok_def)
  have "set ?wanted \<subseteq> set_elems (ic_routes s) \<union> static_set cfg"
    using wanted_routes_set [OF assms(3,6)] by (auto simp: wanted_set_def)
  then have acc: "\<forall>r \<in> set ?adds. acceptable (rule_table rule) r"
    using assms(4,5,7) unfolding in_sync_def by (metis UnE filter_is_subset subsetD)
  obtain s1 w2 where 1: "fold (ctl_add_route_rpc nc) ?adds (s, w1) = (s1, w2)" by fastforce
  have "in_sync tbl s w1" using assms(7) load(2) by (simp add: in_sync_def)
  from fold_add_sync [OF assms(1) acc this 1] have s1: "in_sync tbl s1 w2" "has w2 = has w1" by auto
  have "set ?dels \<subseteq> tbl w2" using dels(1) fold_add_grows [OF assms(1) acc 1] load(2) by blast
  moreover have "fold (ctl_delete_route nc) ?dels (s1, w2) = (s', w')"
    using assms(8) unfolding reconcile_routes_passes assms(2) load(1) sum.case prod.case 1 by simp
  ultimately have "in_sync tbl s' w'" "has w' = has w2" "fold (ctl_delete_route nc) ?dels (s1, w2) = (s', w')"
    using fold_delete_sync [OF assms(1) _ dels(2) s1(1)] by blast+
  moreover have "set_inv (ic_routes s)" using assms(7) by (simp add: in_sync_def)
  moreover note a = fold_add_state [OF 1 this]
  moreover have "same_but_routes s1 s'" using fold_delete_state [OF calculation(3)] a by blast
  ultimately show ?thesis using s1(2) load(3) same_but_routes_trans by metis
qed

definition net_inv :: "ip_routing_rule \<Rightarrow> ('w \<Rightarrow> ip_route set) \<Rightarrow> ip_ctl \<times> 'w \<Rightarrow> bool" where
  "net_inv rule tbl = (\<lambda>(s, w). in_sync tbl s w \<and> store_inv (ic_store s) \<and> rc_rule (ic_cfg s) = rule \<and> ic_table_id s = rule_table rule)"

lemma net_step_inv:
  assumes "ip_router ip rule tbl has" and "net_step (agent_client ip detail_ok) rule (s, w) (s', w')" and "net_inv rule tbl (s, w)"
  shows "net_inv rule tbl (s', w') \<and> (has w \<longrightarrow> has w')"
proof -
  note keeps = ip_router_keeps [OF assms(1), of detail_ok]
  have acc: "\<forall>w. \<forall>r \<in> tbl w. acceptable (rule_table rule) r" using ip_router_tables [OF assms(1)] by blast
  from assms(3) have inv: "in_sync tbl s w" "store_inv (ic_store s)" "rc_rule (ic_cfg s) = rule" "ic_table_id s = rule_table rule"
    by (simp_all add: net_inv_def)
  from assms(2) show ?thesis
  proof (cases rule: net_stepE)
    case (add_route iface addr)
    note run = add_route(1) [symmetric]
    from ctl_add_route_router [OF keeps add_route(2) inv(1) run] same_but_routesD [OF ctl_add_route_same [OF run]] inv
    show ?thesis by (simp add: net_inv_def)
  next
    case (add_record r)
    then show ?thesis using inv by (simp add: net_inv_def in_sync_def)
  next
    case (purge ch timeout)
    then show ?thesis using inv store_get_remove_expired(1) [OF inv(2), of "rch_purge_order ch"]
      by (simp add: net_inv_def in_sync_def choice_ok_def)
  next
    case (rules cfg)
    have k: "keeps_router (agent_client ip detail_ok) (rc_rule cfg) tbl has" using keeps rules(2) by simp
    obtain w1 where "reconcile_rules (agent_client ip detail_ok) cfg (s, w) = (s, w1)" "tbl w1 = tbl w" "has w1"
      using reconcile_rules_rule [OF k, of s w] by blast
    with rules(1) inv show ?thesis by (simp add: net_inv_def in_sync_def)
  next
    case (routes cfg ch)
    have "reconcile_routes (agent_client ip detail_ok) ch cfg (s, w) = Inr (s', w')" using routes by simp
    note r = reconcile_routes_sync [OF keeps routes(1,2) acc routes(3) inv(2,1) this]
    from same_but_routesD [of s s'] r inv show ?thesis by (simp add: net_inv_def)
  next
    case (new_config d)
    then show ?thesis using inv by (simp add: net_inv_def in_sync_def)
  qed
qed

text \<open>What the service and a reconciliation do is a sequence of these steps.\<close>

lemma add_routes_steps:
  "\<forall>i \<in> set is. acceptable (rule_table rule) (route_of c i ip) \<Longrightarrow>
   (net_step nc rule)\<^sup>*\<^sup>* (c, w) (fold (\<lambda>i. ctl_add_route nc i ip) is (c, w))"
proof (induction "is" arbitrary: c w)
  case (Cons i "is")
  obtain c1 w1 where 1: "ctl_add_route nc i ip (c, w) = (c1, w1)" by fastforce
  have "route_of c1 = route_of c"
    using same_but_routesD(2) [OF ctl_add_route_same [OF 1]] by (simp add: route_of_def fun_eq_iff)
  with Cons have "(net_step nc rule)\<^sup>*\<^sup>* (c1, w1) (fold (\<lambda>i. ctl_add_route nc i ip) is (c1, w1))" by simp
  moreover have "net_step nc rule (c, w) (c1, w1)"
    using net_step.add_route [of rule c i ip nc w] Cons.prems 1 by simp
  ultimately show ?case using 1 by (simp add: converse_rtranclp_into_rtranclp)
qed simp

lemma remember_ips_steps:
  "\<forall>ip \<in> set ips. \<forall>i \<in> set (dq_routed res). acceptable (rule_table rule) (route_of c i ip) \<Longrightarrow>
   (net_step nc rule)\<^sup>*\<^sup>* (c, w) (fold (remember_ip nc res) ips (c, w))"
proof (induction ips arbitrary: c w)
  case (Cons ip ips)
  let ?r = "new_dns_record (dq_domain res) ip (dq_time res + uint (dq_ttl res) * second)"
  let ?c0 = "c\<lparr>ic_store := store_add (ic_store c) ?r\<rparr>"
  obtain c1 w1 where 1: "fold (\<lambda>i. ctl_add_route nc i ip) (dq_routed res) (?c0, w) = (c1, w1)" by fastforce
  have same0: "route_of ?c0 = route_of c" by (simp add: route_of_def fun_eq_iff)
  have "ic_table_id c1 = ic_table_id c" using same_but_routes_store [OF add_routes_same [OF 1]] by simp
  then have same: "route_of c1 = route_of c" by (simp add: route_of_def fun_eq_iff)
  have "net_step nc rule (c, w) (?c0, w)" by (rule net_step.add_record)
  then have "(net_step nc rule)\<^sup>*\<^sup>* (c, w) (?c0, w)" ..
  also have "(net_step nc rule)\<^sup>*\<^sup>* (?c0, w) (c1, w1)"
    using add_routes_steps [of "dq_routed res" rule ?c0 ip nc w] Cons.prems 1 by (simp add: same0)
  also have "(net_step nc rule)\<^sup>*\<^sup>* (c1, w1) (fold (remember_ip nc res) ips (c1, w1))"
    using Cons by (simp add: same)
  finally show ?case using 1 by (simp add: remember_ip_def [of _ _ ip] Let_def)
qed simp

lemma ctl_reconcile_steps:
  assumes "ctl_reconcile nc ch (c, w) = Inr sw'" and "rc_rule (ic_cfg c) = rule" and "choice_ok ch"
    and "\<forall>r \<in> static_set (ic_cfg c). acceptable (rule_table rule) r"
  shows "(net_step nc rule)\<^sup>*\<^sup>* (c, w) sw'"
proof -
  obtain c1 w1 where 1: "reconcile_rules nc (ic_cfg c) (purged ch c, w) = (c1, w1)" by fastforce
  have "net_step nc rule (c, w) (purged ch c, w)" unfolding purged_def by (rule net_step.purge [OF assms(3)])
  then have "(net_step nc rule)\<^sup>*\<^sup>* (c, w) (purged ch c, w)" ..
  also have "net_step nc rule (purged ch c, w) (c1, w1)"
    using net_step.rules [of "ic_cfg c" rule nc "purged ch c" w] assms(2) 1 by simp
  also have "net_step nc rule (c1, w1) sw'"
  proof (rule net_step.routes [OF assms(2,3,4)])
    show "reconcile_routes nc ch (ic_cfg c) (c1, w1) = Inr sw'"
      using assms(1) 1 by (simp add: ctl_reconcile_def Let_def purged_def)
  qed
  finally show ?thesis .
qed

lemma net_steps_inv:
  assumes "ip_router ip rule tbl has" and "(net_step (agent_client ip detail_ok) rule)\<^sup>*\<^sup>* (s, w) (s', w')" and "net_inv rule tbl (s, w)"
  shows "net_inv rule tbl (s', w') \<and> (has w \<longrightarrow> has w')"
  using assms(2)
proof (induction "(s', w')" arbitrary: s' w' rule: rtranclp_induct)
  case base
  then show ?case using assms(3) by simp
next
  case (step y)
  obtain s1 w1 where y: "y = (s1, w1)" by (cases y)
  from step(3) [OF y] net_step_inv [OF assms(1) step(2) [unfolded y]] show ?case by blast
qed

lemma new_controller_net_inv:
  "rc_rule cfg = rule \<Longrightarrow> store_inv store \<Longrightarrow> net_inv rule tbl (new_ip_route_controller cfg store interval timeout, w)"
  by (simp add: net_inv_def in_sync_def new_ip_route_controller_def)

text \<open>Once every route the controller remembers is in the router's table, this stays so in any interleaving
  of queries and reconciliations whose routes the kernel accepts, and an installed rule stays installed: the
  controller then asks for a route exactly when the table lacks it.\<close>

theorem remembered_routes_stay:
  assumes "ip_router ip rule tbl has" and "set_inv (ic_routes s)" and "set_elems (ic_routes s) \<subseteq> tbl w"
    and "store_inv (ic_store s)" and "rc_rule (ic_cfg s) = rule" and "ic_table_id s = rule_table rule"
    and "(net_step (agent_client ip detail_ok) rule)\<^sup>*\<^sup>* (s, w) (s', w')"
  shows "set_elems (ic_routes s') \<subseteq> tbl w' \<and> (has w \<longrightarrow> has w') \<and> store_inv (ic_store s')"
proof -
  have "net_inv rule tbl (s, w)" using assms(2-6) by (simp add: net_inv_def in_sync_def)
  from net_steps_inv [OF assms(1,7) this] show ?thesis by (simp add: net_inv_def in_sync_def)
qed

text \<open>C12: After a start from records that have all expired, the controller remembers their routes although the table
  does not have them, and a query that then asks for such a route changes nothing: the address stays without a
  route until the next reconciliation.\<close>

theorem expired_saved_route_blocks_add:
  assumes "store_load decode new_dns_store dump = (store, err)" and "store_inv store"
    and "ip_router ip (rc_rule (cfg_routing cfg)) tbl has" and "choice_ok ch" and "store_order_ok ord"
    and "\<forall>r \<in> saved_routes hosts_ord (cfg_routing cfg) store \<union> static_set (cfg_routing cfg).
        acceptable (rule_table (rc_rule (cfg_routing cfg))) r"
    and "inj_on rt_addr (saved_routes hosts_ord (cfg_routing cfg) store \<union> static_set (cfg_routing cfg))"
    and saved: "r \<in> saved_routes hosts_ord (cfg_routing cfg) store" and "r \<notin> static_set (cfg_routing cfg)" and "r \<notin> tbl w"
    and expired: "\<forall>d rec. store_get store d (rt_addr r) = Some rec \<longrightarrow>
        rec_expired (rch_purge_clock ch rec) rec (rd_route_timeout (rc_dynamic (cfg_routing cfg)))"
  shows "\<exists>s' w'. start_controller cfg decode dump (agent_client ip detail_ok) ord hosts_ord ch w = Inr (s', w')
    \<and> r \<notin> tbl w' \<and> set_has (ic_routes s') r
    \<and> ctl_add_route (agent_client ip detail_ok) (rt_iface r) (rt_addr r) (s', w') = (s', w')"
proof -
  let ?W = "{r \<in> saved_routes hosts_ord (cfg_routing cfg) store.
            \<exists>d rec. store_get store d (rt_addr r) = Some rec
              \<and> \<not> rec_expired (rch_purge_clock ch rec) rec (rd_route_timeout (rc_dynamic (cfg_routing cfg)))
              \<and> \<not> rec_expired (rch_clock ch r rec) rec (rd_route_timeout (rc_dynamic (cfg_routing cfg)))} \<union> static_set (cfg_routing cfg)"
  from start_controller_table [OF assms(1-7), of detail_ok w] obtain s' w' where
    start: "start_controller cfg decode dump (agent_client ip detail_ok) ord hosts_ord ch w = Inr (s', w')" and
    tbl: "tbl w' = (tbl w \<inter> ?W) \<union> {r \<in> ?W. dest_free (tbl w) r}" and
    routes: "set_elems (ic_routes s') = (saved_routes hosts_ord (cfg_routing cfg) store \<union> {r \<in> ?W. dest_free (tbl w) r}) - (tbl w - ?W)" and
    s': "ic_table_id s' = rule_table (rc_rule (cfg_routing cfg))" "set_inv (ic_routes s')" by blast
  have "r \<notin> ?W" using assms(9) expired by blast
  then have "r \<notin> tbl w'" unfolding tbl by blast
  moreover have "r \<in> set_elems (ic_routes s')" using saved assms(10) unfolding routes by blast
  then have has: "set_has (ic_routes s') r" using s'(2) by simp
  moreover have "\<lparr>rt_table = ic_table_id s', rt_iface = rt_iface r, rt_addr = rt_addr r\<rparr> = r"
    using saved s'(1) by (auto simp: saved_routes_def)
  then have "ctl_add_route (agent_client ip detail_ok) (rt_iface r) (rt_addr r) (s', w') = (s', w')"
    using has by (simp add: ctl_add_route_def)
  ultimately show ?thesis using start by blast
qed

text \<open>C13: When the saved records cannot be read, as after a save that was cut off once the file was emptied, the start
  deletes every route of the table that is not configured statically and remembers none.\<close>

theorem unreadable_dump_drops_routes:
  assumes "store_save encode sord None st = (Some content, Some save_err)" and "decode '''' = Inl err"
    and "ip_router ip (rc_rule (cfg_routing cfg)) tbl has" and "choice_ok ch" and "store_order_ok ord"
    and "\<forall>r \<in> static_set (cfg_routing cfg). acceptable (rule_table (rc_rule (cfg_routing cfg))) r"
    and "inj_on rt_addr (static_set (cfg_routing cfg))"
  shows "\<exists>s' w'. start_controller cfg decode (FileData content) (agent_client ip detail_ok) ord hosts_ord ch w = Inr (s', w')
    \<and> has w' \<and> tbl w' = {r \<in> static_set (cfg_routing cfg). r \<in> tbl w \<or> dest_free (tbl w) r}
    \<and> set_elems (ic_routes s') \<subseteq> static_set (cfg_routing cfg)"
proof -
  have "content = ''''" using assms(1) by (auto simp: store_save_def split: sum.splits)
  then have load: "store_load decode new_dns_store (FileData content) = (new_dns_store, Some (''failed to load DNS records: '' @ err))"
    by (simp add: store_load_def assms(2))
  have inv: "store_inv new_dns_store" by simp
  have none: "saved_routes hosts_ord (cfg_routing cfg) new_dns_store = {}" by (simp add: saved_routes_def)
  have acc: "\<forall>r \<in> saved_routes hosts_ord (cfg_routing cfg) new_dns_store \<union> static_set (cfg_routing cfg).
        acceptable (rule_table (rc_rule (cfg_routing cfg))) r" using assms(6) by (simp add: none)
  have inj: "inj_on rt_addr (saved_routes hosts_ord (cfg_routing cfg) new_dns_store \<union> static_set (cfg_routing cfg))"
    using assms(7) by (simp add: none)
  from start_controller_table [OF load inv assms(3-5) acc inj, of detail_ok w] none show ?thesis by auto
qed

text \<open>A route that is in the table without being remembered, as after an \<open>AddRoute\<close> call whose answer was lost, is
  never taken over: asking for it again fails and changes nothing, and the next reconciliation deletes it although
  the record of its address is live, unless it is configured statically.\<close>

theorem unremembered_route_deleted:
  assumes "ip_router ip (rc_rule (ic_cfg c)) tbl has" and "choice_ok ch" and "store_inv (ic_store c)"
    and "in_sync tbl c w" and "ic_table_id c = rule_table (rc_rule (ic_cfg c))"
    and there: "r \<in> tbl w" and "\<not> set_has (ic_routes c) r" and "r \<notin> static_set (ic_cfg c)"
    and acc: "\<forall>r \<in> wants ch c. acceptable (rule_table (rc_rule (ic_cfg c))) r" and inj: "inj_on rt_addr (wants ch c)"
  shows "\<exists>w1. ctl_add_route (agent_client ip detail_ok) (rt_iface r) (rt_addr r) (c, w) = (c, w1) \<and> tbl w1 = tbl w
    \<and> (\<exists>c' w'. ctl_reconcile (agent_client ip detail_ok) ch (c, w1) = Inr (c', w') \<and> r \<notin> tbl w' \<and> \<not> set_has (ic_routes c') r)"
proof -
  let ?nc = "agent_client ip detail_ok"
  note keeps = ip_router_keeps [OF assms(1), of detail_ok]
  have acc_r: "acceptable (rule_table (rc_rule (ic_cfg c))) r" using ip_router_tables [OF assms(1)] there by blast
  then have "rt_table r = ic_table_id c" by (simp add: acceptable_def route_ok_def assms(5))
  then have r: "route_of c (rt_iface r) (rt_addr r) = r" by (simp add: route_of_def)
  obtain res w1 where call: "nc_add_route ?nc (map_to_agent_route r) w = (res, w1)" by fastforce
  have "\<not> dest_free (tbl w) r" using there by (auto simp: dest_free_def)
  with keeps_routerD(3) [OF keeps acc_r call] have refused: "tbl w1 = tbl w" "res \<noteq> Inr ()" by auto
  then obtain e where "res = Inl e" by (cases res) simp_all
  then have add: "ctl_add_route ?nc (rt_iface r) (rt_addr r) (c, w) = (c, w1)"
    using assms(7) call r by (simp add: ctl_add_route_def ctl_add_route_rpc_def route_of_def)
  have set_inv: "set_inv (ic_routes c)" using assms(4) by (simp add: in_sync_def)
  then have "r \<notin> set_elems (ic_routes c)" using assms(7) by simp
  from ctl_reconcile_table [OF keeps assms(2) set_inv assms(3) acc inj, of w1] obtain c' w' where
    t: "ctl_reconcile ?nc ch (c, w1) = Inr (c', w')" "set_inv (ic_routes c')"
      "tbl w' = (tbl w1 \<inter> wants ch c) \<union> {r \<in> wants ch c. dest_free (tbl w1) r}"
      "set_elems (ic_routes c') = (set_elems (ic_routes c) \<union> {r \<in> wants ch c. dest_free (tbl w1) r}) - (tbl w1 - wants ch c)" by blast
  have "r \<notin> wants ch c" using \<open>r \<notin> set_elems (ic_routes c)\<close> assms(8) by (auto simp: wants_def wanted_set_def)
  then have "r \<notin> tbl w'" "r \<notin> set_elems (ic_routes c')" using \<open>r \<notin> set_elems (ic_routes c)\<close> unfolding t(3,4) by auto
  with add refused(1) t(1,2) show ?thesis by auto
qed

lemma sample_words: "word_ok ''tun0''" "word_ok ''tun1''" by (simp_all add: word_ok_def is_space_def)

lemma sample_acceptable: "acceptable 1000 sample_listed" "acceptable 1000 \<lparr>rt_table = 1000, rt_iface = ''tun0'', rt_addr = IPv4 10 0 0 0 8\<rparr>"
  using sample_words by (simp_all add: sample_listed_def acceptable_def route_ok_def ipv4_ok_def)

lemma sample_in_table: "sample_listed \<in> set (sample_table ([sample_listed], b))"
  using sample_acceptable(1) by (simp add: sample_table_def)

lemma sample_router: "ip_router sample_ip (rc_rule sample_routing) (\<lambda>w. set (sample_table w)) snd"
  using sample_ip_router by (simp add: sample_routing_def)

lemma sample_saved_acceptable:
  "\<forall>r \<in> saved_routes (\<lambda>r. rev) sample_routing sample_saved \<union> static_set sample_routing. acceptable (rule_table (rc_rule sample_routing)) r"
  "inj_on rt_addr (saved_routes (\<lambda>r. rev) sample_routing sample_saved \<union> static_set sample_routing)"
  using sample_acceptable by (simp_all add: sample_saved_routes sample_static) (simp add: sample_listed_def)

lemma sample_config_routing: "cfg_routing sample_config = sample_routing"
  by (simp add: sample_config_def)

lemma sample_ctl_fields: "ic_cfg sample_ctl = sample_routing" "ic_routes sample_ctl = None" "ic_store sample_ctl = new_dns_store" "ic_table_id sample_ctl = 1000"
  by (simp_all add: sample_ctl_def new_ip_route_controller_def sample_routing_def sample_rule_def)

theorem remembered_routes_stay_witness:
  "\<exists>c w. ctl_add_route (agent_client sample_ip (\<lambda>d. True)) ''tun0'' (IPv4 1 2 3 4 32) (sample_ctl, ([], False)) = (c, w)
     \<and> set_has (ic_routes c) sample_listed \<and> set_elems (ic_routes c) \<subseteq> set (sample_table w)"
proof -
  let ?nc = "agent_client sample_ip (\<lambda>d. True)"
  obtain c w where run: "ctl_add_route ?nc ''tun0'' (IPv4 1 2 3 4 32) (sample_ctl, ([], False)) = (c, w)" by (rule prod.exhaust)
  have route: "route_of sample_ctl ''tun0'' (IPv4 1 2 3 4 32) = sample_listed"
    by (simp add: route_of_def sample_ctl_fields sample_listed_def)
  have acc: "acceptable (rule_table (rc_rule sample_routing)) sample_listed"
    using sample_acceptable by (simp add: sample_routing_def sample_rule_def)
  have "net_step ?nc (rc_rule sample_routing) (sample_ctl, ([], False)) (c, w)"
    using net_step.add_route [where s = sample_ctl and nc = ?nc and w = "([], False)", OF acc [folded route]] run by simp
  then have steps: "(net_step ?nc (rc_rule sample_routing))\<^sup>*\<^sup>* (sample_ctl, ([], False)) (c, w)" ..
  have table: "rule_table (rc_rule sample_routing) = ic_table_id sample_ctl" by (simp add: sample_ctl_fields sample_routing_def sample_rule_def)
  have "set_elems (ic_routes c) \<subseteq> set (sample_table w)"
    using remembered_routes_stay [OF sample_router _ _ _ _ _ steps] table by (simp add: sample_ctl_fields)
  note sync = this
  obtain res w2 where call: "nc_add_route ?nc (map_to_agent_route sample_listed) ([], False) = (res, w2)" by (rule prod.exhaust)
  have "dest_free (set (sample_table ([], False))) sample_listed" by (simp add: dest_free_def sample_table_def)
  with keeps_routerD(3) [OF ip_router_keeps [OF sample_router] acc call] have "res = Inr ()" by simp
  moreover have "ctl_add_route_rpc ?nc sample_listed (sample_ctl, ([], False)) = (c, w)"
    using run by (simp add: ctl_add_route_def Let_def sample_ctl_fields sample_listed_def [symmetric] set_has_def set_entries_def)
  ultimately have "ic_routes c = fst (set_add None sample_listed)" "w = w2"
    using add_route_rpc_routes [OF _ call] by (simp_all add: sample_ctl_fields)
  moreover have "set_inv (None :: ip_route goset)" by simp
  ultimately have "set_has (ic_routes c) sample_listed" by simp
  with run sync show ?thesis by blast
qed

definition late_choice :: reconcile_choice where
  "late_choice = sample_choice\<lparr>rch_purge_clock := (\<lambda>r. 1000 * second)\<rparr>"

theorem expired_saved_route_blocks_add_witness:
  "\<exists>s' w'. start_controller sample_config sample_dump_decode (FileData ''dump'') (agent_client sample_ip (\<lambda>d. True))
        (rev, rev) (\<lambda>r. rev) late_choice ([], False) = Inr (s', w')
     \<and> sample_listed \<notin> set (sample_table w')
     \<and> ctl_add_route (agent_client sample_ip (\<lambda>d. True)) ''tun0'' (IPv4 1 2 3 4 32) (s', w') = (s', w')"
proof -
  have load: "store_load sample_dump_decode new_dns_store (FileData ''dump'') = (sample_saved, None)"
    by (simp add: store_load_def sample_dump_decode_def store_fill_def sample_saved_def new_dns_store_def)
  have ok: "choice_ok late_choice" "store_order_ok (rev, rev)"
    using sample_choice_ok by (simp_all add: choice_ok_def late_choice_def store_order_ok_def)
  have saved: "sample_listed \<in> saved_routes (\<lambda>r. rev) sample_routing sample_saved" "sample_listed \<notin> static_set sample_routing"
    by (simp_all add: sample_saved_routes sample_static sample_listed_def)
  have none: "sample_listed \<notin> set (sample_table ([], False))" by (simp add: sample_table_def)
  have expired: "\<forall>d rec. store_get sample_saved d (rt_addr sample_listed) = Some rec \<longrightarrow>
        rec_expired (rch_purge_clock late_choice rec) rec (rd_route_timeout (rc_dynamic sample_routing))"
    by (simp add: sample_saved_get sample_record_def new_dns_record_def rec_expired_def time_after_def late_choice_def second_def sample_routing_def)
  from expired_saved_route_blocks_add [where cfg = sample_config, unfolded sample_config_routing, OF load sample_saved_inv sample_router ok
      sample_saved_acceptable saved none expired, of "\<lambda>d. True"]
  show ?thesis by (simp add: sample_listed_def) blast
qed

theorem unreadable_dump_drops_routes_witness:
  "\<exists>content s' w'. store_save (\<lambda>rs. Inl ''disk full'') (rev, rev) None sample_saved = (Some content, Some ''failed to save records to dump file: disk full'')
     \<and> start_controller sample_config sample_dump_decode (FileData content) (agent_client sample_ip (\<lambda>d. True))
          (rev, rev) (\<lambda>r. rev) sample_choice ([sample_listed], False) = Inr (s', w')
     \<and> sample_listed \<in> set (sample_table ([sample_listed], False)) \<and> sample_listed \<notin> set (sample_table w')"
proof -
  have save: "store_save (\<lambda>rs. Inl ''disk full'') (rev, rev) None sample_saved = (Some '''', Some ''failed to save records to dump file: disk full'')"
    by (simp add: store_save_def)
  have bad: "sample_dump_decode '''' = Inl ''bad''" by (simp add: sample_dump_decode_def)
  have ord: "store_order_ok (rev, rev)" by (simp add: store_order_ok_def)
  have static: "\<forall>r \<in> static_set sample_routing. acceptable (rule_table (rc_rule sample_routing)) r" "inj_on rt_addr (static_set sample_routing)"
    using sample_saved_acceptable by (auto simp: sample_static)
  have "sample_listed \<notin> static_set sample_routing" by (simp add: sample_static sample_listed_def)
  with unreadable_dump_drops_routes [where cfg = sample_config and decode = sample_dump_decode, unfolded sample_config_routing, OF save bad sample_router sample_choice_ok ord static,
      of "\<lambda>d. True" "\<lambda>r. rev" "([sample_listed], False)"] save sample_in_table
  show ?thesis by blast
qed

theorem unremembered_route_deleted_witness:
  "\<exists>w1 c' w'. ctl_add_route (agent_client sample_ip (\<lambda>d. True)) ''tun0'' (IPv4 1 2 3 4 32) (sample_ctl, ([sample_listed], False)) = (sample_ctl, w1)
     \<and> ctl_reconcile (agent_client sample_ip (\<lambda>d. True)) sample_choice (sample_ctl, w1) = Inr (c', w')
     \<and> sample_listed \<notin> set (sample_table w')"
proof -
  have router: "ip_router sample_ip (rc_rule (ic_cfg sample_ctl)) (\<lambda>w. set (sample_table w)) snd"
    using sample_router by (simp add: sample_ctl_fields)
  have state: "store_inv (ic_store sample_ctl)" "in_sync (\<lambda>w. set (sample_table w)) sample_ctl ([sample_listed], False)"
    "ic_table_id sample_ctl = rule_table (rc_rule (ic_cfg sample_ctl))"
    by (simp_all add: sample_ctl_fields in_sync_def sample_routing_def sample_rule_def)
  have r: "\<not> set_has (ic_routes sample_ctl) sample_listed" "sample_listed \<notin> static_set (ic_cfg sample_ctl)"
    by (simp_all add: sample_ctl_fields sample_static sample_listed_def set_has_def set_entries_def)
  have wants: "wants sample_choice sample_ctl = static_set sample_routing"
    by (simp add: wants_def wanted_set_def sample_ctl_fields)
  have acc: "\<forall>r \<in> wants sample_choice sample_ctl. acceptable (rule_table (rc_rule (ic_cfg sample_ctl))) r" "inj_on rt_addr (wants sample_choice sample_ctl)"
    using sample_saved_acceptable by (auto simp: wants sample_ctl_fields sample_static)
  from unremembered_route_deleted [OF router sample_choice_ok state sample_in_table r acc, of "\<lambda>d. True"]
  show ?thesis by (simp add: sample_listed_def) blast
qed

text \<open>C11: A changed configuration does not move a route: as long as a record of its address is live, every reconciliation
  keeps the route through the interface it was asked for, whatever the new configuration says of the host, and
  asking for the address through another interface is refused by the router.\<close>

theorem config_change_keeps_routes:
  assumes "ip_router ip (rc_rule (ic_cfg c)) tbl has" and "choice_ok ch" and "store_inv (ic_store c)"
    and "in_sync tbl c w" and "ic_table_id c = rule_table (rc_rule (ic_cfg c))"
    and used: "set_has (ic_routes c) r"
    and live: "has_live_record (rch_clock ch r) (rd_route_timeout d) (ic_store (purged ch (c\<lparr>ic_cfg := (ic_cfg c)\<lparr>rc_dynamic := d\<rparr>\<rparr>))) (rt_addr r)"
    and acc: "\<forall>r \<in> wants ch (c\<lparr>ic_cfg := (ic_cfg c)\<lparr>rc_dynamic := d\<rparr>\<rparr>). acceptable (rule_table (rc_rule (ic_cfg c))) r"
    and inj: "inj_on rt_addr (wants ch (c\<lparr>ic_cfg := (ic_cfg c)\<lparr>rc_dynamic := d\<rparr>\<rparr>))"
    and other: "iface \<noteq> rt_iface r" "word_ok iface"
  shows "\<exists>c' w'. ctl_update_config (agent_client ip detail_ok) ch d (c, w) = Inr (c', w') \<and> r \<in> tbl w' \<and> rc_dynamic (ic_cfg c') = d
    \<and> (\<exists>w''. ctl_add_route (agent_client ip detail_ok) iface (rt_addr r) (c', w') = (c', w'') \<and> tbl w'' = tbl w')"
proof -
  let ?nc = "agent_client ip detail_ok" and ?c = "c\<lparr>ic_cfg := (ic_cfg c)\<lparr>rc_dynamic := d\<rparr>\<rparr>"
  have keeps: "keeps_router ?nc (rc_rule (ic_cfg ?c)) tbl has" using ip_router_keeps [OF assms(1), of detail_ok] by simp
  have set_inv: "set_inv (ic_routes ?c)" "store_inv (ic_store ?c)" using assms(3,4) by (simp_all add: in_sync_def)
  have accW: "\<forall>r \<in> wants ch ?c. acceptable (rule_table (rc_rule (ic_cfg ?c))) r" using acc by simp
  from ctl_reconcile_table [OF keeps assms(2) set_inv accW inj, of w] obtain c' w' where
    t: "ctl_reconcile ?nc ch (?c, w) = Inr (c', w')" "same_but_routes (purged ch ?c) c'" "set_inv (ic_routes c')"
      "tbl w' = (tbl w \<inter> wants ch ?c) \<union> {r \<in> wants ch ?c. dest_free (tbl w) r}"
      "set_elems (ic_routes c') = (set_elems (ic_routes ?c) \<union> {r \<in> wants ch ?c. dest_free (tbl w) r}) - (tbl w - wants ch ?c)" by blast
  have r: "r \<in> set_elems (ic_routes c)" "r \<in> tbl w" using used assms(4) by (auto simp: in_sync_def)
  have "r \<in> wants ch ?c" using r(1) live by (simp add: wants_def wanted_set_def)
  then have kept: "r \<in> tbl w'" using r(2) unfolding t(4) by blast
  have acc_r: "acceptable (rule_table (rc_rule (ic_cfg c))) r" using ip_router_tables [OF assms(1)] r(2) by blast
  have table: "ic_table_id c' = rule_table (rc_rule (ic_cfg c))"
    using same_but_routesD(2) [OF t(2)] assms(5) by (simp add: purged_def)
  let ?o = "route_of c' iface (rt_addr r)"
  have acc_o: "acceptable (rule_table (rc_rule (ic_cfg ?c))) ?o"
    using acc_r other(2) by (simp add: acceptable_def route_ok_def route_of_def table)
  have "?o \<notin> tbl w'"
  proof
    assume "?o \<in> tbl w'"
    then have "?o \<in> wants ch ?c" unfolding t(4) by blast
    with \<open>r \<in> wants ch ?c\<close> inj have "?o = r" by (auto simp: inj_on_def route_of_def)
    with other(1) show False by (metis ip_route.select_convs(2) route_of_def)
  qed
  have sync: "set_elems (ic_routes c') \<subseteq> tbl w'"
    using assms(4) unfolding t(4,5) by (auto simp: in_sync_def)
  have taken: "\<not> dest_free (tbl w') ?o" using kept by (auto simp: dest_free_def route_of_def)
  obtain res w'' where call: "nc_add_route ?nc (map_to_agent_route ?o) w' = (res, w'')" by fastforce
  from keeps_routerD(3) [OF keeps acc_o call] taken obtain e where refused: "tbl w'' = tbl w'" "res = Inl e" by (cases res) auto
  have "\<not> set_has (ic_routes c') ?o" using sync \<open>?o \<notin> tbl w'\<close> t(3) by auto
  then have "ctl_add_route ?nc iface (rt_addr r) (c', w') = (c', w'')"
    using call refused(2) by (simp add: ctl_add_route_def ctl_add_route_rpc_def route_of_def)
  moreover have "ctl_update_config ?nc ch d (c, w) = Inr (c', w')" using t(1) by (simp add: ctl_update_config_def Let_def)
  moreover have "rc_dynamic (ic_cfg c') = d" using same_but_routesD(1) [OF t(2)] by (simp add: purged_def)
  ultimately show ?thesis using kept refused(1) by blast
qed

definition moved_hosts :: routing_dynamic_config where
  "moved_hosts = \<lparr>rd_route_timeout = 60 * second, rd_hosts = [(''tun1'', [''a.example''])], rd_static = []\<rparr>"

definition routed_ctl :: ip_ctl where
  "routed_ctl = (new_ip_route_controller sample_routing sample_saved (60 * second) second)\<lparr>ic_routes := fst (set_add None sample_listed)\<rparr>"

lemma routed_ctl_sel: "ic_cfg routed_ctl = sample_routing" "ic_store routed_ctl = sample_saved" "ic_table_id routed_ctl = 1000"
  "set_inv (ic_routes routed_ctl)" "set_elems (ic_routes routed_ctl) = {sample_listed}"
  by (simp_all add: routed_ctl_def new_ip_route_controller_def)

lemma sample_listed_addr: "rt_addr sample_listed = IPv4 1 2 3 4 32"
  by (simp add: sample_listed_def)

theorem config_change_keeps_routes_witness:
  "\<exists>c' w'. ctl_update_config (agent_client sample_ip (\<lambda>d. True)) sample_choice moved_hosts (routed_ctl, ([sample_listed], False)) = Inr (c', w')
     \<and> sample_listed \<in> set (sample_table w') \<and> routing_lookup_host rev (ic_cfg c') ''a.example'' = ''tun1''
     \<and> (\<exists>w''. ctl_add_route (agent_client sample_ip (\<lambda>d. True)) ''tun1'' (IPv4 1 2 3 4 32) (c', w') = (c', w'') \<and> set (sample_table w'') = set (sample_table w'))"
proof -
  let ?c = "routed_ctl\<lparr>ic_cfg := (ic_cfg routed_ctl)\<lparr>rc_dynamic := moved_hosts\<rparr>\<rparr>"
  have store: "store_get (ic_store (purged sample_choice ?c)) ''a.example'' (IPv4 1 2 3 4 32) = Some sample_record"
    using store_get_remove_expired(2) [OF sample_saved_inv, of "rch_purge_order sample_choice"] sample_choice_ok
    by (simp add: purged_def routed_ctl_sel choice_ok_def sample_saved_get sample_choice_def sample_record_def new_dns_record_def
        rec_expired_def time_after_def moved_hosts_def second_def)
  have fresh: "\<not> rec_expired (rch_clock sample_choice sample_listed sample_record) sample_record (rd_route_timeout moved_hosts)"
    by (simp add: sample_choice_def sample_record_def new_dns_record_def rec_expired_def time_after_def moved_hosts_def second_def)
  have live: "has_live_record (rch_clock sample_choice sample_listed) (rd_route_timeout moved_hosts) (ic_store (purged sample_choice ?c)) (rt_addr sample_listed)"
    unfolding has_live_record_def using store fresh by (metis sample_listed_addr)
  have "static_set (ic_cfg ?c) = {}" by (simp add: static_set_def moved_hosts_def)
  then have wants: "wants sample_choice ?c \<subseteq> {sample_listed}" by (auto simp: wants_def wanted_set_def routed_ctl_sel)
  have acc: "\<forall>r \<in> wants sample_choice ?c. acceptable (rule_table (rc_rule (ic_cfg routed_ctl))) r"
    using wants sample_acceptable(1) by (auto simp: routed_ctl_sel)
  have inj: "inj_on rt_addr (wants sample_choice ?c)" using wants by (auto simp: inj_on_def)
  have router: "ip_router sample_ip (rc_rule (ic_cfg routed_ctl)) (\<lambda>w. set (sample_table w)) snd"
    using sample_router by (simp add: routed_ctl_sel)
  have state: "store_inv (ic_store routed_ctl)" "in_sync (\<lambda>w. set (sample_table w)) routed_ctl ([sample_listed], False)"
    "ic_table_id routed_ctl = rule_table (rc_rule (ic_cfg routed_ctl))" "set_has (ic_routes routed_ctl) sample_listed"
    using sample_saved_inv sample_in_table by (simp_all add: routed_ctl_sel in_sync_def)
  have iface: "''tun1'' \<noteq> rt_iface sample_listed" "word_ok ''tun1''" using sample_words by (simp_all add: sample_listed_def)
  have "routing_lookup_host rev cfg ''a.example'' = ''tun1''" if "rc_dynamic cfg = moved_hosts" for cfg
    using that by (simp add: routing_lookup_host_def moved_hosts_def has_suffix_def)
  then show ?thesis
    using config_change_keeps_routes [OF router sample_choice_ok state live acc inj iface, of "\<lambda>d. True", unfolded sample_listed_addr] by blast
qed

end
