(* ===== verification/ServerRun.thy ===== *)
theory ServerRun
  imports Sync
begin

text \<open>
  The whole server over time: the state of \<open>Server\<close> under everything that changes it while it runs, which is a query
  through all resolvers (\<open>dns-server/internal/dns_resolver.go\<close>, \<open>service.go\<close>), a reconciliation or a changed
  configuration (\<open>ip_routes.go\<close>), and the clean-up of the cache (\<open>dns_cache.go\<close>). Each of them is a sequence of the
  controller's steps of \<open>Sync\<close>, so what holds of the router's table along those holds in every run. The calls are
  taken one after the other here; how concurrent queries interleave is the subject of \<open>Inflight\<close>, \<open>MDNSConn\<close> and
  \<open>Sharing\<close>.
\<close>

subsection \<open>A query as steps of the controller\<close>

text \<open>What the configuration has to provide: interface names that are words, and static routes the kernel accepts.\<close>

definition config_usable :: "routing_config \<Rightarrow> bool" where
  "config_usable cfg \<longleftrightarrow> (\<forall>(iface, hs) \<in> set (rd_hosts (rc_dynamic cfg)). word_ok iface)
     \<and> (\<forall>r \<in> static_set cfg. acceptable (rule_table (rc_rule cfg)) r)"

definition service_choice_ok :: "('l, 'k) service_choice \<Rightarrow> bool" where
  "service_choice_ok ch \<longleftrightarrow> is_order (sch_ifaces ch) \<and> (\<forall>h. is_order (sch_hosts ch h))"

lemma chain_ifaces_words:
  assumes "config_usable (ic_cfg c)" and "service_choice_ok ch" and "i \<in> chain_ifaces ch c p"
  shows "word_ok i"
proof -
  obtain h where i: "i \<noteq> []" "i = routing_lookup_host (sch_hosts ch h) (ic_cfg c) h"
    using assms(3) by (auto simp: chain_ifaces_def ctl_lookup_host_def)
  have "is_order (sch_hosts ch h)" using assms(2) by (simp add: service_choice_ok_def)
  from routing_lookup_host_cases [OF this, of "ic_cfg c" h] i assms(1) show ?thesis by (auto simp: config_usable_def)
qed

lemma process_type_a_steps:
  assumes "service_inv s" and "service_choice_ok ch" and "config_usable (ic_cfg (sv_ctl s))"
    and "ic_table_id (sv_ctl s) = rule_table rule" and "0 \<le> rule_table rule" "rule_table rule < 2 ^ 32"
    and run: "process_type_a nc ch client resp (s, w) = Inr (s', w')"
  shows "(net_step nc rule)\<^sup>*\<^sup>* (sv_ctl s, w) (sv_ctl s', w') \<and> ic_cfg (sv_ctl s') = ic_cfg (sv_ctl s)
    \<and> rb_inv (bs_buf (sv_queries s')) \<and> sv_raw_queries s' = sv_raw_queries s"
proof -
  obtain q qs where q: "msg_question resp = q # qs" using run by (auto simp: process_type_a_def split: list.splits)
  obtain name_ips cnames ttl where scan: "scan_answer (msg_answer resp) ([], None, - 1) = Inr (name_ips, cnames, ttl)"
    using run q by (cases "scan_answer (msg_answer resp) ([], None, - 1)") (auto simp: process_type_a_def Let_def)
  show ?thesis
  proof (cases "\<exists>p. cname_path cnames (q_name q) p \<and> addresses_of (last p) (msg_answer resp) \<noteq> []")
    case True
    then obtain p where p: "cname_path cnames (q_name q) p" "addresses_of (last p) (msg_answer resp) \<noteq> []" by blast
    have ord: "is_order (sch_ifaces ch)" using assms(2) by (simp add: service_choice_ok_def)
    obtain res qs' c' w'' where r: "process_type_a nc ch client resp (s, w) = Inr (s\<lparr>sv_queries := qs', sv_ctl := c'\<rparr>, w'')"
      "rb_inv (bs_buf qs')" "fold (remember_ip nc res) (sort (addresses_of (last p) (msg_answer resp))) (sv_ctl s, w) = (c', w'')"
      "set (dq_routed res) = chain_ifaces ch (sv_ctl s) p"
      using process_type_a_run [OF assms(1) ord q scan p, of nc client w] by blast
    have s': "s' = s\<lparr>sv_queries := qs', sv_ctl := c'\<rparr>" "w' = w''" using run r(1) by simp_all
    have "\<forall>ip \<in> set (sort (addresses_of (last p) (msg_answer resp))). \<forall>i \<in> set (dq_routed res). acceptable (rule_table rule) (route_of (sv_ctl s) i ip)"
      using host_route_acceptable [of _ "last p" "msg_answer resp" "sv_ctl s"] chain_ifaces_words [OF assms(3,2)] assms(4-6)
      by (simp add: r(4))
    from remember_ips_steps [OF this, of nc w] r(3) remember_ips_state [OF r(3)] r(2) show ?thesis by (simp add: s')
  next
    case False
    let ?lookup = "\<lambda>host. ctl_lookup_host (sch_hosts ch host) (sv_ctl s) host"
    have "fst (chase ?lookup cnames name_ips (q_name q) None None ttl) = []"
    proof (cases "\<exists>p. cname_path cnames (q_name q) p")
      case True
      then obtain p where p: "cname_path cnames (q_name q) p" by blast
      then have "addresses_of (last p) (msg_answer resp) = []" using False by blast
      then have "ips_of name_ips (last p) = []" using scan_answer_ips [OF scan, of "last p"] by (simp add: ips_of_def)
      then show ?thesis using chase_path [OF p, of None] by (simp add: ips_of_def)
    next
      case no: False
      then show ?thesis using chase_no_path [of None ?lookup cnames name_ips "q_name q" None ttl] by auto
    qed
    then have "s' = s \<and> w' = w" using run q scan by (auto simp: process_type_a_def Let_def split: prod.splits)
    then show ?thesis using assms(1) by (simp add: service_inv_def)
  qed
qed

lemma service_resolve_steps:
  assumes inv: "service_inv s" and "service_choice_ok ch" and "config_usable (ic_cfg (sv_ctl s))"
    and "ic_table_id (sv_ctl s) = rule_table rule" and "0 \<le> rule_table rule" "rule_table rule < 2 ^ 32"
    and run: "service_resolve show_msg nc upstream ch client msg (s, w) = Inr (res, (s', w'))"
  shows "\<exists>r w1. upstream client msg w = Inr (r, w1) \<and> (net_step nc rule)\<^sup>*\<^sup>* (sv_ctl s, w1) (sv_ctl s', w')
    \<and> ic_cfg (sv_ctl s') = ic_cfg (sv_ctl s) \<and> rb_inv (bs_buf (sv_queries s')) \<and> rb_inv (bs_buf (sv_raw_queries s'))"
proof -
  obtain rs1 where 1: "append_raw_query (sch_raw_listeners ch) (sch_request ch) client False (show_msg msg) s = Inr (s\<lparr>sv_raw_queries := rs1\<rparr>)"
    "rb_inv (bs_buf rs1)" using append_raw_query_ok [OF inv] by blast
  let ?s1 = "s\<lparr>sv_raw_queries := rs1\<rparr>"
  have inv1: "service_inv ?s1" using inv 1(2) by (simp add: service_inv_def)
  have app: "\<exists>rs2. append_raw_query (sch_raw_listeners ch) (sch_response ch) client True tx ?s1 = Inr (s\<lparr>sv_raw_queries := rs2\<rparr>) \<and> rb_inv (bs_buf rs2)" for tx
    using append_raw_query_ok [OF inv1, of "sch_raw_listeners ch" "sch_response ch" client True tx] by auto
  obtain r w1 where upst: "upstream client msg w = Inr (r, w1)"
    using run 1(1) by (auto simp: service_resolve_def split: sum.splits)
  show ?thesis
  proof (cases r)
    case (Inl err)
    obtain rs2 where 2: "append_raw_query (sch_raw_listeners ch) (sch_response ch) client True (error_text msg err) ?s1 = Inr (s\<lparr>sv_raw_queries := rs2\<rparr>)"
      "rb_inv (bs_buf rs2)" using app by blast
    then have "s' = s\<lparr>sv_raw_queries := rs2\<rparr> \<and> w' = w1" using run 1(1) upst Inl by (simp add: service_resolve_def)
    with upst 2(2) inv show ?thesis by (simp add: service_inv_def)
  next
    case (Inr resp)
    obtain rs2 where 2: "append_raw_query (sch_raw_listeners ch) (sch_response ch) client True (show_msg resp) ?s1 = Inr (s\<lparr>sv_raw_queries := rs2\<rparr>)"
      "rb_inv (bs_buf rs2)" using app by blast
    let ?s2 = "s\<lparr>sv_raw_queries := rs2\<rparr>"
    have inv2: "service_inv ?s2" using inv 2(2) by (simp add: service_inv_def)
    show ?thesis
    proof (cases "has_single_question msg [type_a]")
      case False
      then have "s' = ?s2 \<and> w' = w1" using run 1(1) 2(1) upst Inr by (simp add: service_resolve_def)
      with upst 2(2) inv show ?thesis by (simp add: service_inv_def)
    next
      case True
      then have "process_type_a nc ch client resp (?s2, w1) = Inr (s', w')"
        using run 1(1) 2(1) upst Inr by (auto simp: service_resolve_def split: sum.splits)
      from process_type_a_steps [OF inv2 assms(2) _ _ assms(5,6) this] assms(3,4) upst 2(2) show ?thesis by simp
    qed
  qed
qed

lemma single_inflight_state:
  assumes "single_inflight_resolve t ctx_err upstream client msg (fl, s) = Inr (res, (fl', s'))"
  shows "s' = s \<or> (\<exists>r. upstream client msg s = Inr (r, s'))"
  using assms by (auto simp: single_inflight_resolve_def Let_def split: thread_pc.splits sum.splits prod.splits)

lemma server_resolver_state:
  assumes "server_resolver cfg show_msg nc new_mdns_client doh_client dns_client ch client msg (cache, fl, sv, w) = Inr (res, (cache', fl', sv', w'))"
    and "cache_inv cache"
  shows "cache_inv cache' \<and> ((sv' = sv \<and> w' = w) \<or> (\<exists>r. service_resolve show_msg nc (server_upstream cfg new_mdns_client doh_client dns_client)
      (vch_service ch) client msg (sv, w) = Inr (r, (sv', w'))))"
proof -
  let ?svc = "service_resolve show_msg nc (server_upstream cfg new_mdns_client doh_client dns_client) (vch_service ch)"
  let ?si = "single_inflight_resolve (vch_thread ch) (vch_ctx_err ch) ?svc"
  let ?c = "cached_resolve (vch_cache ch) ?si"
  have eq: "server_resolver cfg show_msg nc new_mdns_client doh_client dns_client ch = new_ttl_overriding_resolver ?c (cfg_dns_ttl_override cfg)"
    by (simp add: server_resolver_def server_upstream_def Let_def)
  obtain r1 where 1: "?c client msg (cache, fl, sv, w) = Inr (r1, (cache', fl', sv', w'))"
    using assms(1) unfolding eq by (auto simp: new_ttl_overriding_resolver_def ttl_overriding_resolve_def Let_def split: sum.splits prod.splits if_splits)
  then have "(cache' = cache \<and> fl' = fl \<and> sv' = sv \<and> w' = w) \<or> (cache_inv cache' \<and> (\<exists>r2. ?si client msg (fl, sv, w) = Inr (r2, (fl', sv', w'))))"
    using assms(2) by (auto simp: cached_resolve_def Let_def split: sum.splits prod.splits if_splits option.splits)
  then show ?thesis
  proof
    assume "cache_inv cache' \<and> (\<exists>r2. ?si client msg (fl, sv, w) = Inr (r2, (fl', sv', w')))"
    then obtain r2 where "cache_inv cache'" "?si client msg (fl, (sv, w)) = Inr (r2, (fl', (sv', w')))" by blast
    with single_inflight_state [OF this(2)] show ?thesis by blast
  qed (use assms(2) in blast)
qed

subsection \<open>The server's steps\<close>

text \<open>What changes the state of the server while it runs: a query that goes through all layers, the periodic
  reconciliation, a changed configuration file, and the clean-up of the cache. What the kernel is asked for comes from
  a usable configuration.\<close>

inductive server_step :: "config \<Rightarrow> (dns_msg \<Rightarrow> string) \<Rightarrow> ('w, 'e) network_client \<Rightarrow> (mdns_config \<Rightarrow> 'w resolver)
    \<Rightarrow> (string \<Rightarrow> 'w resolver) \<Rightarrow> (string \<Rightarrow> 'w resolver) \<Rightarrow> ('l, 'k, 'w) server_state \<Rightarrow> ('l, 'k, 'w) server_state \<Rightarrow> bool"
  for cfg show_msg nc new_mdns_client doh_client dns_client where
  query: "service_choice_ok (vch_service ch)
     \<Longrightarrow> server_resolver cfg show_msg nc new_mdns_client doh_client dns_client ch client msg s = Inr (res, s')
     \<Longrightarrow> server_step cfg show_msg nc new_mdns_client doh_client dns_client s s'"
| reconcile: "choice_ok rch \<Longrightarrow> ctl_reconcile nc rch (sv_ctl sv, w) = Inr (c', w')
     \<Longrightarrow> server_step cfg show_msg nc new_mdns_client doh_client dns_client (cache, fl, sv, w) (cache, fl, sv\<lparr>sv_ctl := c'\<rparr>, w')"
| new_config: "choice_ok rch \<Longrightarrow> config_usable ((ic_cfg (sv_ctl sv))\<lparr>rc_dynamic := d\<rparr>)
     \<Longrightarrow> ctl_update_config nc rch d (sv_ctl sv, w) = Inr (c', w')
     \<Longrightarrow> server_step cfg show_msg nc new_mdns_client doh_client dns_client (cache, fl, sv, w) (cache, fl, sv\<lparr>sv_ctl := c'\<rparr>, w')"
| clean_up: "is_order ord
     \<Longrightarrow> server_step cfg show_msg nc new_mdns_client doh_client dns_client (cache, fl, sv, w) (cache_remove_expired ord now cache, fl, sv, w)"

inductive_cases server_stepE [consumes 1, case_names query reconcile new_config clean_up]:
  "server_step cfg show_msg nc new_mdns_client doh_client dns_client s s'"

definition run_inv :: "ip_routing_rule \<Rightarrow> ('w \<Rightarrow> ip_route set) \<Rightarrow> ('l, 'k, 'w) server_state \<Rightarrow> bool" where
  "run_inv rule tbl = (\<lambda>(cache, fl, sv, w). cache_inv cache \<and> service_inv sv \<and> net_inv rule tbl (sv_ctl sv, w) \<and> config_usable (ic_cfg (sv_ctl sv)))"

text \<open>Asking the servers of the configuration changes nothing on the router.\<close>

definition upstream_leaves_router :: "('w \<Rightarrow> ip_route set) \<Rightarrow> ('w \<Rightarrow> bool) \<Rightarrow> 'w resolver \<Rightarrow> bool" where
  "upstream_leaves_router tbl has upstream \<longleftrightarrow>
     (\<forall>client msg w r w'. upstream client msg w = Inr (r, w') \<longrightarrow> tbl w' = tbl w \<and> has w' = has w)"

lemma net_inv_router: "net_inv rule tbl (c, w) \<Longrightarrow> tbl w' = tbl w \<Longrightarrow> net_inv rule tbl (c, w')"
  by (simp add: net_inv_def in_sync_def)

lemma reconcile_rules_state: "reconcile_rules nc cfg (c, w) = (c', w') \<Longrightarrow> c' = c"
  by (auto simp: reconcile_rules_def ctl_add_rule_def Let_def split: prod.splits sum.splits if_splits)

lemma ctl_reconcile_cfg:
  assumes "ctl_reconcile nc ch (c, w) = Inr (c', w')" and "set_inv (ic_routes c)"
  shows "ic_cfg c' = ic_cfg c"
proof -
  obtain w1 where rules: "reconcile_rules nc (ic_cfg c) (purged ch c, w) = (purged ch c, w1)"
    using reconcile_rules_state [of nc "ic_cfg c" "purged ch c" w] by (metis prod.exhaust)
  then have run: "reconcile_routes nc ch (ic_cfg c) (purged ch c, w1) = Inr (c', w')"
    using assms(1) by (simp add: ctl_reconcile_def Let_def purged_def)
  let ?wanted = "wanted_routes ch (ic_cfg c) (purged ch c)"
  obtain d w2 where load: "load_routes nc (rule_table (rc_rule (ic_cfg c))) w1 = Inr (d, w2)"
    using run unfolding reconcile_routes_passes by (auto split: sum.splits)
  obtain c2 w3 where adds: "fold (ctl_add_route_rpc nc) (filter (\<lambda>r. \<not> set_has d r) ?wanted) (purged ch c, w2) = (c2, w3)"
    by (rule prod.exhaust)
  have dels: "fold (ctl_delete_route nc) (set_values (rch_unknown ch)
      (fold (\<lambda>r u. set_remove u r) (filter (set_has d) ?wanted) d)) (c2, w3) = (c', w')"
    using run unfolding reconcile_routes_passes load by (simp add: adds)
  have "set_inv (ic_routes (purged ch c))" using assms(2) by (simp add: purged_def)
  from fold_add_state [OF adds this] fold_delete_state [OF dels] have "same_but_routes (purged ch c) c'"
    using same_but_routes_trans by blast
  from same_but_routesD(1) [OF this] show ?thesis by (simp add: purged_def)
qed

lemma server_resolver_inv:
  assumes router: "ip_router ip rule tbl has"
    and up: "upstream_leaves_router tbl has (server_upstream cfg new_mdns_client doh_client dns_client)"
    and ch: "service_choice_ok (vch_service ch)" and inv: "run_inv rule tbl (cache, fl, sv, w)"
    and run: "server_resolver cfg show_msg (agent_client ip detail_ok) new_mdns_client doh_client dns_client ch client msg (cache, fl, sv, w)
      = Inr (res, (cache', fl', sv', w'))"
  shows "run_inv rule tbl (cache', fl', sv', w') \<and> (has w \<longrightarrow> has w')"
proof -
  let ?nc = "agent_client ip detail_ok"
  have i: "cache_inv cache" "service_inv sv" "net_inv rule tbl (sv_ctl sv, w)" "config_usable (ic_cfg (sv_ctl sv))"
    using inv by (simp_all add: run_inv_def)
  from server_resolver_state [OF run i(1)] have cache: "cache_inv cache'" and
    "(sv' = sv \<and> w' = w) \<or> (\<exists>r. service_resolve show_msg ?nc (server_upstream cfg new_mdns_client doh_client dns_client)
      (vch_service ch) client msg (sv, w) = Inr (r, (sv', w')))" by auto
  from this(2) show ?thesis
  proof
    assume "sv' = sv \<and> w' = w"
    then show ?thesis using i cache by (simp add: run_inv_def)
  next
    assume "\<exists>r. service_resolve show_msg ?nc (server_upstream cfg new_mdns_client doh_client dns_client)
      (vch_service ch) client msg (sv, w) = Inr (r, (sv', w'))"
    then obtain r where r: "service_resolve show_msg ?nc (server_upstream cfg new_mdns_client doh_client dns_client)
      (vch_service ch) client msg (sv, w) = Inr (r, (sv', w'))" ..
    have t: "ic_table_id (sv_ctl sv) = rule_table rule" using i(3) by (simp add: net_inv_def)
    have b: "0 \<le> rule_table rule" "rule_table rule < 2 ^ 32" using router by (auto simp: ip_router_def)
    obtain r1 w1 where s: "server_upstream cfg new_mdns_client doh_client dns_client client msg w = Inr (r1, w1)"
      "(net_step ?nc rule)\<^sup>*\<^sup>* (sv_ctl sv, w1) (sv_ctl sv', w')" "ic_cfg (sv_ctl sv') = ic_cfg (sv_ctl sv)"
      "rb_inv (bs_buf (sv_queries sv'))" "rb_inv (bs_buf (sv_raw_queries sv'))"
      using service_resolve_steps [OF i(2) ch i(4) t b r] by blast
    have w1: "tbl w1 = tbl w" "has w1 = has w" using up s(1) unfolding upstream_leaves_router_def by blast+
    from net_steps_inv [OF router s(2) net_inv_router [OF i(3) w1(1)]]
    have n: "net_inv rule tbl (sv_ctl sv', w')" "has w1 \<longrightarrow> has w'" by auto
    then have "service_inv sv'" using s(4,5) by (simp add: service_inv_def net_inv_def in_sync_def)
    with n cache i(4) s(3) w1(2) show ?thesis by (simp add: run_inv_def)
  qed
qed

lemma ctl_reconcile_returns:
  assumes router: "ip_router ip rule tbl has" and "choice_ok ch" and "net_inv rule tbl (c, w)" and "config_usable (ic_cfg c)"
  shows "\<exists>c' w'. ctl_reconcile (agent_client ip detail_ok) ch (c, w) = Inr (c', w') \<and> has w'"
proof -
  let ?nc = "agent_client ip detail_ok"
  have i: "in_sync tbl c w" "store_inv (ic_store c)" "rc_rule (ic_cfg c) = rule" using assms(3) by (simp_all add: net_inv_def)
  note keeps = ip_router_keeps [OF router, of detail_ok]
  obtain w1 where 1: "reconcile_rules ?nc (ic_cfg c) (purged ch c, w) = (purged ch c, w1)" "tbl w1 = tbl w" "has w1"
    using reconcile_rules_rule [OF keeps [folded i(3)], of "purged ch c" w] by blast
  obtain d w2 where "load_routes ?nc (rule_table (rc_rule (ic_cfg c))) w1 = Inr (d, w2)"
    using load_routes_table [OF keeps, of w1] i(3) by blast
  then have "\<exists>sw. reconcile_routes ?nc ch (ic_cfg c) (purged ch c, w1) = Inr sw" unfolding reconcile_routes_passes by simp
  then obtain c' w' where 2: "reconcile_routes ?nc ch (ic_cfg c) (purged ch c, w1) = Inr (c', w')" by (metis prod.exhaust)
  have "in_sync tbl (purged ch c) w1" using i(1) 1(2) by (simp add: in_sync_def)
  moreover have "\<forall>r \<in> static_set (ic_cfg c). acceptable (rule_table rule) r" using assms(4) i(3) by (simp add: config_usable_def)
  moreover have "\<forall>w. \<forall>r \<in> tbl w. acceptable (rule_table rule) r" using ip_router_tables [OF router] by blast
  ultimately have "has w'"
    using reconcile_routes_sync [OF keeps i(3) assms(2) _ _ purged_inv [OF assms(2) i(2)] _ 2] 1(3) by blast
  with 1(1) 2 show ?thesis by (simp add: ctl_reconcile_def Let_def purged_def)
qed

lemma ctl_reconcile_inv:
  assumes "ip_router ip rule tbl has" and "choice_ok ch" and "net_inv rule tbl (c, w)" and "config_usable (ic_cfg c)"
    and run: "ctl_reconcile (agent_client ip detail_ok) ch (c, w) = Inr (c', w')"
  shows "net_inv rule tbl (c', w') \<and> (has w \<longrightarrow> has w') \<and> ic_cfg c' = ic_cfg c"
proof -
  have c: "rc_rule (ic_cfg c) = rule" "set_inv (ic_routes c)" using assms(3) by (simp_all add: net_inv_def in_sync_def)
  have "\<forall>r \<in> static_set (ic_cfg c). acceptable (rule_table rule) r" using assms(4) c(1) by (simp add: config_usable_def)
  from net_steps_inv [OF assms(1) ctl_reconcile_steps [OF run c(1) assms(2) this] assms(3)] ctl_reconcile_cfg [OF run c(2)]
  show ?thesis by blast
qed

lemma run_inv_ctl:
  assumes "run_inv rule tbl (cache, fl, sv, w)" and "net_inv rule tbl (c', w')" and "config_usable (ic_cfg c')"
  shows "run_inv rule tbl (cache, fl, sv\<lparr>sv_ctl := c'\<rparr>, w')"
  using assms by (simp add: run_inv_def service_inv_def net_inv_def in_sync_def)

lemma server_step_inv:
  assumes "ip_router ip rule tbl has"
    and "upstream_leaves_router tbl has (server_upstream cfg new_mdns_client doh_client dns_client)"
    and "server_step cfg show_msg (agent_client ip detail_ok) new_mdns_client doh_client dns_client s s'" and "run_inv rule tbl s"
  shows "run_inv rule tbl s' \<and> (has (snd (snd (snd s))) \<longrightarrow> has (snd (snd (snd s'))))"
  using assms(3)
proof (cases rule: server_stepE)
  case (query ch client msg res)
  obtain cache fl sv w cache' fl' sv' w' where s: "s = (cache, fl, sv, w)" "s' = (cache', fl', sv', w')" by (metis prod_cases4)
  from server_resolver_inv [OF assms(1,2) query(1) assms(4) [unfolded s] query(2) [unfolded s]] show ?thesis by (simp add: s)
next
  case (reconcile rch sv w c' w' cache fl)
  have inv: "run_inv rule tbl (cache, fl, sv, w)" using assms(4) reconcile(1) by simp
  then have i: "net_inv rule tbl (sv_ctl sv, w)" "config_usable (ic_cfg (sv_ctl sv))" by (simp_all add: run_inv_def)
  from ctl_reconcile_inv [OF assms(1) reconcile(3) i reconcile(4)] i(2) run_inv_ctl [OF inv, of c' w'] reconcile(1,2)
  show ?thesis by simp
next
  case (new_config rch d sv w c' w' cache fl)
  let ?c = "(sv_ctl sv)\<lparr>ic_cfg := (ic_cfg (sv_ctl sv))\<lparr>rc_dynamic := d\<rparr>\<rparr>"
  have inv: "run_inv rule tbl (cache, fl, sv, w)" using assms(4) new_config(1) by simp
  then have "net_inv rule tbl (?c, w)" by (simp add: run_inv_def net_inv_def in_sync_def)
  moreover have "config_usable (ic_cfg ?c)" using new_config(4) by simp
  moreover have "ctl_reconcile (agent_client ip detail_ok) rch (?c, w) = Inr (c', w')"
    using new_config(5) by (simp add: ctl_update_config_def Let_def)
  moreover note ctl_reconcile_inv [OF assms(1) new_config(3) calculation]
  ultimately show ?thesis using run_inv_ctl [OF inv, of c' w'] new_config(1,2) by simp
next
  case (clean_up ord sv cache fl w now)
  then show ?thesis using assms(4) cache_remove_expired_spec(1) by (auto simp: run_inv_def)
qed

lemma server_run_inv:
  assumes "ip_router ip rule tbl has"
    and "upstream_leaves_router tbl has (server_upstream cfg new_mdns_client doh_client dns_client)"
    and "(server_step cfg show_msg (agent_client ip detail_ok) new_mdns_client doh_client dns_client)\<^sup>*\<^sup>* s s'" and "run_inv rule tbl s"
  shows "run_inv rule tbl s' \<and> (has (snd (snd (snd s))) \<longrightarrow> has (snd (snd (snd s'))))"
  using assms(3)
proof (induction rule: rtranclp_induct)
  case (step y z)
  from server_step_inv [OF assms(1,2) step(2)] step(3) show ?case by blast
qed (simp add: assms(4))

lemma new_server_run_inv:
  assumes "0 < cfg_dns_query_history_size cfg" and "store_inv store" and "config_usable rcfg" and "rc_rule rcfg = rule"
    and "new_server_state cfg (new_ip_route_controller rcfg store interval timeout) w = Inr (s :: ('a, 'b, 'w) server_state)"
  shows "run_inv rule tbl s \<and> (\<exists>sv. s = (new_dns_cache, new_single_inflight, sv, w))"
proof -
  let ?c = "new_ip_route_controller rcfg store interval timeout"
  have c: "set_inv (ic_routes ?c)" "store_inv (ic_store ?c)" "ic_cfg ?c = rcfg" using assms(2) by (simp_all add: new_ip_route_controller_def)
  obtain sv :: "('a, 'b) service" where "new_dns_routing_service ?c (cfg_dns_query_history_size cfg) = Inr sv" "sv_ctl sv = ?c" "service_inv sv"
    using new_service_inv [OF assms(1) c(1,2)] by blast
  note sv = this
  have "s = (new_dns_cache, new_single_inflight, sv, w)" using assms(5) by (simp add: new_server_state_def sv(1))
  with sv(3) new_controller_net_inv [OF assms(4,2), of tbl interval timeout w] assms(3) c(3)
  show ?thesis by (simp add: run_inv_def sv(2))
qed

subsection \<open>Properties\<close>

text \<open>From the first state on, through any sequence of queries, reconciliations, changed configurations and cache
  clean-ups: every route the controller remembers is in the router's table, an installed rule stays, the next
  reconciliation does not panic, and the histories and the store keep their invariants.\<close>

theorem server_run_in_sync:
  assumes "ip_router ip rule tbl has"
    and "upstream_leaves_router tbl has (server_upstream cfg new_mdns_client doh_client dns_client)"
    and "0 < cfg_dns_query_history_size cfg" and "store_inv store" and "config_usable rcfg" and "rc_rule rcfg = rule"
    and "new_server_state cfg (new_ip_route_controller rcfg store interval timeout) w0 = Inr s0"
    and "(server_step cfg show_msg (agent_client ip detail_ok) new_mdns_client doh_client dns_client)\<^sup>*\<^sup>* s0 (cache, fl, sv, w)"
  shows "set_elems (ic_routes (sv_ctl sv)) \<subseteq> tbl w \<and> (has w0 \<longrightarrow> has w) \<and> cache_inv cache \<and> service_inv sv
    \<and> (choice_ok rch \<longrightarrow> (\<exists>c' w'. ctl_reconcile (agent_client ip detail_ok) rch (sv_ctl sv, w) = Inr (c', w') \<and> has w'))"
proof -
  obtain sv0 where s0: "s0 = (new_dns_cache, new_single_inflight, sv0, w0)" "run_inv rule tbl s0"
    using new_server_run_inv [OF assms(3-7)] by blast
  from server_run_inv [OF assms(1,2,8) s0(2)] s0(1)
  have inv: "run_inv rule tbl (cache, fl, sv, w)" "has w0 \<longrightarrow> has w" by simp_all
  then have "\<exists>c' w'. ctl_reconcile (agent_client ip detail_ok) rch (sv_ctl sv, w) = Inr (c', w') \<and> has w'" if "choice_ok rch"
    using ctl_reconcile_returns [OF assms(1) that] by (simp add: run_inv_def)
  with inv show ?thesis by (simp add: run_inv_def net_inv_def in_sync_def)
qed


lemma sample_usable: "config_usable sample_routing"
  using sample_acceptable(2) sample_words by (simp add: config_usable_def sample_static) (simp add: sample_routing_def sample_rule_def)

lemma sample_service_choice_ok: "service_choice_ok (vch_service (sample_choice_at t))"
  by (simp add: service_choice_ok_def sample_choice_at_def sample_svc_choice_def)

lemma sample_upstream_leaves:
  "upstream_leaves_router tbl has (server_upstream sample_server_config mc doh sample_upstream)"
  by (simp add: upstream_leaves_router_def sample_server_upstream)

lemma sample_history: "0 < cfg_dns_query_history_size sample_server_config"
  by (simp add: sample_server_config_def sample_config_def)

lemma sample_server_start:
  "\<exists>sv. new_server_state sample_server_config (new_ip_route_controller sample_routing new_dns_store (60 * second) second) w
      = Inr (new_dns_cache, new_single_inflight, sv :: (unit, unit) service, w) \<and> sv_ctl sv = sample_ctl \<and> service_inv sv"
proof -
  obtain sv :: "(unit, unit) service" where "new_dns_routing_service sample_ctl (cfg_dns_query_history_size sample_server_config) = Inr sv"
    "sv_ctl sv = sample_ctl" "service_inv sv"
    using new_service_inv [OF sample_history, of sample_ctl] by (auto simp: sample_ctl_fields)
  then show ?thesis by (simp add: new_server_state_def sample_ctl_def [symmetric])
qed

theorem server_run_in_sync_witness:
  "\<exists>s0 cache fl sv w. new_server_state sample_server_config (new_ip_route_controller sample_routing new_dns_store (60 * second) second) ([], False)
       = Inr (s0 :: (unit, unit, sample_router) server_state)
     \<and> server_step sample_server_config (\<lambda>m. []) (agent_client sample_ip (\<lambda>d. True)) (\<lambda>c. sample_upstream []) sample_upstream sample_upstream
         s0 (cache, fl, sv, w)
     \<and> set_elems (ic_routes (sv_ctl sv)) \<subseteq> set (sample_table w)
     \<and> (\<exists>c' w'. ctl_reconcile (agent_client sample_ip (\<lambda>d. True)) sample_choice (sv_ctl sv, w) = Inr (c', w') \<and> snd w')"
proof -
  let ?nc = "agent_client sample_ip (\<lambda>d. True)"
  let ?step = "server_step sample_server_config (\<lambda>m. []) ?nc (\<lambda>c. sample_upstream []) sample_upstream sample_upstream"
  obtain sv0 :: "(unit, unit) service" where start:
    "new_server_state sample_server_config (new_ip_route_controller sample_routing new_dns_store (60 * second) second) ([] :: ip_route list, False)
      = Inr (new_dns_cache, new_single_inflight, sv0, ([], False))" "service_inv sv0"
    using sample_server_start [of "([], False)"] by blast
  let ?s0 = "(new_dns_cache, new_single_inflight, sv0, ([], False))"
  obtain a fl sv w where "server_resolver sample_server_config (\<lambda>m. []) ?nc (\<lambda>c. sample_upstream []) sample_upstream sample_upstream
      (sample_choice_at 0) ''10.0.0.2:5000'' (sample_msg []) ?s0
    = Inr (Inr a, (cache_put (cc_put (vch_cache (sample_choice_at 0))) new_dns_cache (msg_question (sample_msg []) ! 0) (sample_msg [sample_answer 60]), fl, sv, w))"
    by (rule server_asks [OF sample_asked [OF start(2), of 0] sample_server_upstream, where show_msg = "\<lambda>m. []" and nc = ?nc]) (rule that; assumption)
  from server_step.query [OF sample_service_choice_ok this] obtain cache where step: "?step ?s0 (cache, fl, sv, w)" by blast
  then have run: "?step\<^sup>*\<^sup>* ?s0 (cache, fl, sv, w)" ..
  from server_run_in_sync [OF sample_router sample_upstream_leaves sample_history new_store_inv sample_usable refl start(1) run, of sample_choice]
  show ?thesis using start(1) step sample_choice_ok by blast
qed

lemma chain_ifaces_cfg: "ic_cfg c = ic_cfg c' \<Longrightarrow> chain_ifaces ch c p = chain_ifaces ch c' p"
  by (simp add: chain_ifaces_def ctl_lookup_host_def)


end
