(* ===== verification/Concurrent.thy ===== *)
theory Concurrent
  imports ServerRun
begin

text \<open>
  Calls of many clients in any order, together with the routing table (\<open>service.go\<close> \<open>Resolve\<close> and
  \<open>processTypeAResponse\<close>, \<open>ip_routes.go\<close> \<open>reconcile\<close>). \<open>process_type_a_ops\<close> splits the work on an answer into the
  operations that each hold a lock of their own (\<open>route_op\<close>); \<open>conc_step\<close> lets the operations of all calls come between
  each other and between the parts of reconciliations (\<open>reconcile_part\<close>), with the merging layer of \<open>Inflight\<close> above
  them. \<open>conc_inv\<close> is the invariant of the steps, \<open>window_inv\<close> what holds besides while no record expires: what a call
  has achieved so far is never undone by the steps of the others. \<open>inflight_conc_steps\<close> relates the steps to the
  functions of \<open>Inflight\<close> and \<open>Service\<close>; the properties are in \<open>CachedRun\<close>.

  A call looks up the hosts of its answer in one configuration, the one loaded when it records its query; a
  reconciliation's pass over the routes reads the store at one instant. The cache above the merging layer is
  added in \<open>CachedRun\<close>; the layers below the service are its \<open>upstream\<close>.
\<close>

subsection \<open>The answer's work, one critical section at a time\<close>

text \<open>What the loop over the addresses does: each of the two calls holds its lock on its own.\<close>

datatype route_op = AddRecord dns_record | RequestRoute string ipv4

definition query_ops :: "dns_query \<Rightarrow> route_op list" where
  "query_ops res = concat (map (\<lambda>ip.
     AddRecord (new_dns_record (dq_domain res) ip (dq_time res + uint (dq_ttl res) * second))
       # map (\<lambda>iface. RequestRoute iface ip) (dq_routed res)) (dq_ips res))"

fun do_op :: "('w, 'e) network_client \<Rightarrow> route_op \<Rightarrow> ip_ctl \<times> 'w \<Rightarrow> ip_ctl \<times> 'w" where
  "do_op nc (AddRecord rec) (c, w) = (c\<lparr>ic_store := store_add (ic_store c) rec\<rparr>, w)"
| "do_op nc (RequestRoute iface ip) (c, w) = ctl_add_route nc iface ip (c, w)"

text \<open>The first half of \<open>processTypeAResponse\<close>: the query to be recorded, when the answer has an address.\<close>

definition type_a_query :: "('l, 'k) service_choice \<Rightarrow> string \<Rightarrow> ip_ctl \<Rightarrow> dns_msg \<Rightarrow> dns_query option panicking" where
  "type_a_query ch client c resp =
     (case msg_question resp of
        [] \<Rightarrow> Inl IndexOutOfRange
      | q # qs \<Rightarrow>
          (case scan_answer (msg_answer resp) ([], None, - 1) of
             Inl panic \<Rightarrow> Inl panic
           | Inr (name_ips, cnames, ttl) \<Rightarrow>
               let (ips, ifaces, ttl) =
                 chase (\<lambda>host. ctl_lookup_host (sch_hosts ch host) c host) cnames name_ips (q_name q) None None ttl
               in if 0 < length ips then
                    Inr (Some \<lparr>dq_cursor = 0, dq_time = fst (sch_query ch), dq_client_addr = client,
                               dq_domain = normalize_name (q_name q), dq_ttl = max ttl 1, dq_ips = sort ips,
                               dq_routed = set_values (sch_ifaces ch) ifaces\<rparr>)
                  else Inr None))"

lemma do_op_route: "do_op nc (RequestRoute iface ip) cw = ctl_add_route nc iface ip cw"
  by (cases cw) simp

lemma fold_request_routes: "fold (do_op nc) (map (\<lambda>i. RequestRoute i ip) is) cw = fold (\<lambda>i. ctl_add_route nc i ip) is cw"
  by (induction "is" arbitrary: cw) (simp_all add: do_op_route)

lemma fold_query_ops: "fold (do_op nc) (query_ops res) cw = fold (remember_ip nc res) (dq_ips res) cw"
proof -
  have "remember_ip nc res ip cw = fold (do_op nc)
      (AddRecord (new_dns_record (dq_domain res) ip (dq_time res + uint (dq_ttl res) * second))
        # map (\<lambda>iface. RequestRoute iface ip) (dq_routed res)) cw" for ip cw
    by (cases cw) (simp add: fold_request_routes remember_ip_def)
  then have "fold (do_op nc) (concat (map (\<lambda>ip. AddRecord (new_dns_record (dq_domain res) ip (dq_time res + uint (dq_ttl res) * second))
       # map (\<lambda>iface. RequestRoute iface ip) (dq_routed res)) ips)) cw = fold (remember_ip nc res) ips cw" for ips
    by (induction ips arbitrary: cw) simp_all
  then show ?thesis by (simp add: query_ops_def)
qed

lemma process_type_a_ops:
  "process_type_a nc ch client resp (s, w) =
     (case type_a_query ch client (sv_ctl s) resp of
        Inl panic \<Rightarrow> Inl panic
      | Inr None \<Rightarrow> Inr (s, w)
      | Inr (Some res) \<Rightarrow>
          (case append_query ch res s of
             Inl panic \<Rightarrow> Inl panic
           | Inr s \<Rightarrow> let (c, w) = fold (do_op nc) (query_ops res) (sv_ctl s, w) in Inr (s\<lparr>sv_ctl := c\<rparr>, w)))"
  unfolding fold_query_ops
  by (auto simp: process_type_a_def type_a_query_def Let_def split: list.splits sum.splits prod.splits)

subsection \<open>Calls, service and router\<close>

text \<open>Where a call is inside \<open>Resolve\<close> of the service: recording the question, waiting for the upstream answer, having it,
  having recorded it, routing its addresses, or about to return.\<close>

datatype service_pc =
    SvcIdle
  | SvcAsking dns_msg
  | SvcAnswered dns_msg "string + dns_msg"
  | SvcRecorded dns_msg dns_msg
  | SvcRouting dns_msg dns_msg "route_op list"
  | SvcServed dns_msg "string + dns_msg"

record ('l, 'k, 'w) conc_state =
  cs_flights :: inflight
  cs_pc :: "nat \<Rightarrow> service_pc"
  cs_service :: "('l, 'k) service"
  cs_world :: 'w

text \<open>The calls that have left the merging layer for the service: those that lead, and those it does not merge.\<close>

definition asks :: "inflight \<Rightarrow> nat \<Rightarrow> dns_msg \<Rightarrow> bool" where
  "asks fl t msg \<longleftrightarrow> (\<exists>req. si_pc fl t = Leading msg req) \<or> si_pc fl t = Direct msg"

definition sf_answer :: "nat \<Rightarrow> string + dns_msg \<Rightarrow> inflight \<Rightarrow> inflight" where
  "sf_answer t res fl =
     (case si_pc fl t of
        Leading msg req \<Rightarrow> sf_done t msg req res fl
      | Direct msg \<Rightarrow> sf_direct t msg res fl
      | _ \<Rightarrow> fl)"

fun after_record :: "dns_msg \<Rightarrow> string + dns_msg \<Rightarrow> service_pc" where
  "after_record msg (Inl err) = SvcServed msg (Inl err)"
| "after_record msg (Inr resp) = (if has_single_question msg [type_a] then SvcRecorded msg resp else SvcServed msg (Inr resp))"

fun result_text :: "(dns_msg \<Rightarrow> string) \<Rightarrow> dns_msg \<Rightarrow> string + dns_msg \<Rightarrow> string" where
  "result_text show_msg msg (Inl err) = error_text msg err"
| "result_text show_msg msg (Inr resp) = show_msg resp"

definition set_pc :: "nat \<Rightarrow> service_pc \<Rightarrow> ('l, 'k, 'w) conc_state \<Rightarrow> ('l, 'k, 'w) conc_state" where
  "set_pc t pc s = s\<lparr>cs_pc := (cs_pc s)(t := pc)\<rparr>"

definition cs_net :: "('l, 'k, 'w) conc_state \<Rightarrow> ip_ctl \<times> 'w" where
  "cs_net s = (sv_ctl (cs_service s), cs_world s)"

definition set_net :: "ip_ctl \<times> 'w \<Rightarrow> ('l, 'k, 'w) conc_state \<Rightarrow> ('l, 'k, 'w) conc_state" where
  "set_net = (\<lambda>(c, w) s. s\<lparr>cs_service := (cs_service s)\<lparr>sv_ctl := c\<rparr>, cs_world := w\<rparr>)"

text \<open>What is known of a run from outside: the reconciliations in it (what they choose, and the configuration they
  have loaded), the queries it records, and the configurations it is given.\<close>

record run_limits =
  lm_reconcile :: "reconcile_choice \<Rightarrow> routing_config \<Rightarrow> bool"
  lm_query :: "dns_query \<Rightarrow> bool"
  lm_config :: "routing_dynamic_config \<Rightarrow> bool"

text \<open>The parts of a reconciliation, which others may come between: \<open>RemoveExpired\<close>, the rule, and the routes with
  \<open>routesMu\<close> held.\<close>

inductive reconcile_part :: "run_limits \<Rightarrow> ('w, 'e) network_client \<Rightarrow> ip_ctl \<times> 'w \<Rightarrow> ip_ctl \<times> 'w \<Rightarrow> bool" for lim nc where
  purge: "lm_reconcile lim ch cfg \<Longrightarrow> reconcile_part lim nc (c, w)
     (c\<lparr>ic_store := store_remove_expired (rch_purge_order ch) (rch_purge_clock ch) (ic_store c) (rd_route_timeout (rc_dynamic cfg))\<rparr>, w)"
| rules: "lm_reconcile lim ch cfg \<Longrightarrow> reconcile_part lim nc (c, w) (reconcile_rules nc cfg (c, w))"
| routes: "lm_reconcile lim ch cfg \<Longrightarrow> reconcile_routes nc ch cfg (c, w) = Inr cw' \<Longrightarrow> reconcile_part lim nc (c, w) cw'"
| new_config: "lm_config lim d \<Longrightarrow> reconcile_part lim nc (c, w) (c\<lparr>ic_cfg := (ic_cfg c)\<lparr>rc_dynamic := d\<rparr>\<rparr>, w)"

inductive_cases reconcile_partE [consumes 1, case_names purge rules routes new_config]: "reconcile_part lim nc (c, w) cw'"

inductive conc_step :: "run_limits \<Rightarrow> (dns_msg \<Rightarrow> string) \<Rightarrow> ('w, 'e) network_client \<Rightarrow> 'w resolver \<Rightarrow> (nat \<Rightarrow> string)
    \<Rightarrow> ('l, 'k, 'w) conc_state \<Rightarrow> ('l, 'k, 'w) conc_state \<Rightarrow> bool"
  for lim show_msg nc upstream client where
  flight: "sf_step (cs_flights s) fl \<Longrightarrow> si_upstream fl = si_upstream (cs_flights s)
     \<Longrightarrow> conc_step lim show_msg nc upstream client s (s\<lparr>cs_flights := fl\<rparr>)"
| begin_call: "asks (cs_flights s) t msg \<Longrightarrow> cs_pc s t = SvcIdle
     \<Longrightarrow> append_raw_query ord tm (client t) False (show_msg msg) (cs_service s) = Inr svc
     \<Longrightarrow> conc_step lim show_msg nc upstream client s (set_pc t (SvcAsking msg) (s\<lparr>cs_service := svc\<rparr>))"
| answer: "cs_pc s t = SvcAsking msg \<Longrightarrow> upstream (client t) msg (cs_world s) = Inr (res, w)
     \<Longrightarrow> conc_step lim show_msg nc upstream client s (set_pc t (SvcAnswered msg res) (s\<lparr>cs_world := w\<rparr>))"
| record_answer: "cs_pc s t = SvcAnswered msg res
     \<Longrightarrow> append_raw_query ord tm (client t) True (result_text show_msg msg res) (cs_service s) = Inr svc
     \<Longrightarrow> conc_step lim show_msg nc upstream client s (set_pc t (after_record msg res) (s\<lparr>cs_service := svc\<rparr>))"
| no_address: "cs_pc s t = SvcRecorded msg resp \<Longrightarrow> service_choice_ok (ch :: ('l, 'k) service_choice)
     \<Longrightarrow> type_a_query ch (client t) (sv_ctl (cs_service s)) resp = Inr None
     \<Longrightarrow> conc_step lim show_msg nc upstream client s (set_pc t (SvcServed msg (Inr resp)) s)"
| record_query: "cs_pc s t = SvcRecorded msg resp \<Longrightarrow> service_choice_ok ch
     \<Longrightarrow> type_a_query ch (client t) (sv_ctl (cs_service s)) resp = Inr (Some res) \<Longrightarrow> lm_query lim res
     \<Longrightarrow> append_query ch res (cs_service s) = Inr svc
     \<Longrightarrow> conc_step lim show_msg nc upstream client s (set_pc t (SvcRouting msg resp (query_ops res)) (s\<lparr>cs_service := svc\<rparr>))"
| route: "cs_pc s t = SvcRouting msg resp (act # acts)
     \<Longrightarrow> conc_step lim show_msg nc upstream client s (set_pc t (SvcRouting msg resp acts) (set_net (do_op nc act (cs_net s)) s))"
| routed: "cs_pc s t = SvcRouting msg resp []
     \<Longrightarrow> conc_step lim show_msg nc upstream client s (set_pc t (SvcServed msg (Inr resp)) s)"
| end_call: "cs_pc s t = SvcServed msg res \<Longrightarrow> asks (cs_flights s) t msg
     \<Longrightarrow> conc_step lim show_msg nc upstream client s (set_pc t SvcIdle (s\<lparr>cs_flights := sf_answer t res (cs_flights s)\<rparr>))"
| reconcile: "reconcile_part lim nc (cs_net s) cw
     \<Longrightarrow> conc_step lim show_msg nc upstream client s (set_net cw s)"

inductive_cases conc_stepE [consumes 1, case_names flight begin_call answer record_answer no_address record_query route routed end_call reconcile]:
  "conc_step lim show_msg nc upstream client s s'"

lemma cs_sel [simp]:
  "cs_flights (set_pc t pc s) = cs_flights s" "cs_pc (set_pc t pc s) = (cs_pc s)(t := pc)" "cs_service (set_pc t pc s) = cs_service s"
  "cs_world (set_pc t pc s) = cs_world s" "cs_net (set_pc t pc s) = cs_net s" "cs_net (s\<lparr>cs_flights := fl\<rparr>) = cs_net s"
  "cs_flights (set_net cw s) = cs_flights s" "cs_pc (set_net cw s) = cs_pc s" "cs_net (set_net cw s) = cw"
  "cs_net (s\<lparr>cs_world := w\<rparr>) = (fst (cs_net s), w)"
  by (simp_all add: set_pc_def set_net_def cs_net_def split_beta)

lemma append_keeps_ctl:
  "append_raw_query ord tm cl b txt s = Inr s' \<Longrightarrow> sv_ctl s' = sv_ctl s"
  "append_query ch q s = Inr s' \<Longrightarrow> sv_ctl s' = sv_ctl s"
  by (auto simp: append_raw_query_def append_query_def split: sum.splits prod.splits)

text \<open>The merging layer sees one of its own runs.\<close>

lemma sf_answer_step: "asks fl t msg \<Longrightarrow> sf_step fl (sf_answer t res fl)"
  unfolding asks_def sf_answer_def by (auto intro: sf_step.upstream sf_step.direct)

lemma conc_step_flights:
  assumes "conc_step lim show_msg nc upstream client s s'"
  shows "sf_step\<^sup>*\<^sup>* (cs_flights s) (cs_flights s')"
  using assms
proof (cases rule: conc_stepE)
  case (end_call t msg res)
  from sf_answer_step [OF end_call(3), of res] have "sf_step\<^sup>*\<^sup>* (cs_flights s) (sf_answer t res (cs_flights s))" ..
  then show ?thesis by (simp add: end_call(1))
qed auto

lemma conc_run_flights:
  "(conc_step lim show_msg nc upstream client)\<^sup>*\<^sup>* s s' \<Longrightarrow> sf_step\<^sup>*\<^sup>* (cs_flights s) (cs_flights s')"
proof (induction rule: rtranclp_induct)
  case (step y z)
  from conc_step_flights [OF step(2)] step(3) show ?case by (rule rtranclp_trans [rotated])
qed simp

subsection \<open>What is recorded\<close>

lemma type_a_query_path:
  assumes "is_order (sch_ifaces ch)" and "msg_question resp = q # qs"
    and "scan_answer (msg_answer resp) ([], None, - 1) = Inr (name_ips, cnames, ttl)" and "cname_path cnames (q_name q) p"
  shows "if addresses_of (last p) (msg_answer resp) = [] then type_a_query ch client c resp = Inr None
    else \<exists>res. type_a_query ch client c resp = Inr (Some res) \<and> dq_ips res = sort (addresses_of (last p) (msg_answer resp))
      \<and> set (dq_routed res) = chain_ifaces ch c p"
proof -
  let ?lookup = "\<lambda>host. ctl_lookup_host (sch_hosts ch host) c host"
  have "(case gm_get name_ips (last p) of None \<Rightarrow> [] | Some ips \<Rightarrow> ips) = addresses_of (last p) (msg_answer resp)"
    using scan_answer_ips [OF assms(3), of "last p"] by (simp add: ips_of_def)
  then have "chase ?lookup cnames name_ips (q_name q) None None ttl
      = (addresses_of (last p) (msg_answer resp), fold (note_iface ?lookup) p None, fold (note_ttl cnames) p ttl)"
    using chase_path [OF assms(4), of None] by simp
  moreover have "set (set_values (sch_ifaces ch) (fold (note_iface ?lookup) p None)) = chain_ifaces ch c p"
    using fold_note_iface [of None ?lookup p] assms(1) by (simp add: set_values_set chain_ifaces_def)
  ultimately show ?thesis by (simp add: type_a_query_def assms(2,3))
qed

lemma type_a_query_cases:
  assumes "is_order (sch_ifaces ch)" and "type_a_query ch client c resp = Inr (Some res)"
  obtains q qs name_ips cnames ttl p where "msg_question resp = q # qs"
    "scan_answer (msg_answer resp) ([], None, - 1) = Inr (name_ips, cnames, ttl)" "cname_path cnames (q_name q) p"
    "dq_ips res = sort (addresses_of (last p) (msg_answer resp))" "set (dq_routed res) = chain_ifaces ch c p"
proof -
  obtain q qs where q: "msg_question resp = q # qs" using assms(2) by (auto simp: type_a_query_def split: list.splits)
  obtain name_ips cnames ttl where scan: "scan_answer (msg_answer resp) ([], None, - 1) = Inr (name_ips, cnames, ttl)"
    using assms(2) q by (cases "scan_answer (msg_answer resp) ([], None, - 1)") (auto simp: type_a_query_def)
  let ?lookup = "\<lambda>host. ctl_lookup_host (sch_hosts ch host) c host"
  have "fst (chase ?lookup cnames name_ips (q_name q) None None ttl) \<noteq> []"
    using assms(2) q scan by (auto simp: type_a_query_def split: prod.splits if_splits)
  from chase_no_path [OF set_inv_None this] obtain p where p: "cname_path cnames (q_name q) p" ..
  from type_a_query_path [OF assms(1) q scan p, of client c] assms(2)
  have "dq_ips res = sort (addresses_of (last p) (msg_answer resp))" "set (dq_routed res) = chain_ifaces ch c p"
    by (auto split: if_splits)
  with q scan p show thesis by (rule that)
qed

text \<open>The routes asked for are ones the kernel accepts.\<close>

lemma query_ops_acceptable:
  assumes "service_choice_ok ch" and "type_a_query ch client c resp = Inr (Some res)" and "config_usable (ic_cfg c)"
    and "ic_table_id c = rule_table rule" and "0 \<le> rule_table rule" "rule_table rule < 2 ^ 32"
    and "RequestRoute i ip \<in> set (query_ops res)"
  shows "acceptable (rule_table rule) \<lparr>rt_table = rule_table rule, rt_iface = i, rt_addr = ip\<rparr>"
proof -
  have "is_order (sch_ifaces ch)" using assms(1) by (simp add: service_choice_ok_def)
  from type_a_query_cases [OF this assms(2)] obtain q qs name_ips cnames ttl p where
    p: "dq_ips res = sort (addresses_of (last p) (msg_answer resp))" "set (dq_routed res) = chain_ifaces ch c p" by blast
  have "ip \<in> set (addresses_of (last p) (msg_answer resp))" "i \<in> chain_ifaces ch c p"
    using assms(7) by (auto simp: query_ops_def p)
  from host_route_acceptable [OF this(1), of c i] chain_ifaces_words [OF assms(3,1) this(2)] assms(4-6)
  show ?thesis by (simp add: route_of_def)
qed

subsection \<open>The routing table along every interleaving\<close>

definition limits_ok :: "ip_routing_rule \<Rightarrow> run_limits \<Rightarrow> bool" where
  "limits_ok rule lim \<longleftrightarrow>
     (\<forall>ch cfg. lm_reconcile lim ch cfg \<longrightarrow> choice_ok ch \<and> rc_rule cfg = rule \<and> (\<forall>r \<in> static_set cfg. acceptable (rule_table rule) r))
   \<and> (\<forall>cfg d. lm_config lim d \<longrightarrow> rc_rule cfg = rule \<longrightarrow> config_usable (cfg\<lparr>rc_dynamic := d\<rparr>))"

lemma limits_okD:
  assumes "limits_ok rule lim"
  shows "lm_reconcile lim ch cfg \<Longrightarrow> choice_ok ch" "lm_reconcile lim ch cfg \<Longrightarrow> rc_rule cfg = rule"
    "lm_reconcile lim ch cfg \<Longrightarrow> r \<in> static_set cfg \<Longrightarrow> acceptable (rule_table rule) r"
    "lm_config lim d \<Longrightarrow> rc_rule cfg = rule \<Longrightarrow> config_usable (cfg\<lparr>rc_dynamic := d\<rparr>)"
  using assms by (auto simp: limits_ok_def)

definition conc_inv :: "ip_routing_rule \<Rightarrow> ('w \<Rightarrow> ip_route set) \<Rightarrow> ('l, 'k, 'w) conc_state \<Rightarrow> bool" where
  "conc_inv rule tbl s \<longleftrightarrow> net_inv rule tbl (cs_net s) \<and> config_usable (ic_cfg (fst (cs_net s)))
     \<and> (\<forall>t msg resp acts i ip. cs_pc s t = SvcRouting msg resp acts \<longrightarrow> RequestRoute i ip \<in> set acts
          \<longrightarrow> acceptable (rule_table rule) \<lparr>rt_table = rule_table rule, rt_iface = i, rt_addr = ip\<rparr>)"

lemma conc_invD:
  assumes "conc_inv rule tbl s" and "cs_net s = (c, w)"
  shows "net_inv rule tbl (c, w)" "config_usable (ic_cfg c)" "rc_rule (ic_cfg c) = rule" "ic_table_id c = rule_table rule"
    "store_inv (ic_store c)" "in_sync tbl c w"
    "cs_pc s t = SvcRouting msg resp acts \<Longrightarrow> RequestRoute i ip \<in> set acts
      \<Longrightarrow> acceptable (rule_table rule) \<lparr>rt_table = rule_table rule, rt_iface = i, rt_addr = ip\<rparr>"
  using assms by (auto simp: conc_inv_def net_inv_def)

lemma reconcile_part_step:
  assumes "limits_ok rule lim" and "reconcile_part lim nc (c, w) cw'"
  shows "net_step nc rule (c, w) cw'"
  using assms(2)
proof (cases rule: reconcile_partE)
  case (purge ch cfg)
  with limits_okD(1) [OF assms(1)] have "choice_ok ch" by blast
  then show ?thesis unfolding purge(1) by (rule net_step.purge)
next
  case (rules ch cfg)
  with limits_okD(2) [OF assms(1)] have "rc_rule cfg = rule" by blast
  then show ?thesis unfolding rules(1) by (rule net_step.rules)
next
  case (routes ch cfg)
  with limits_okD [OF assms(1)] have "rc_rule cfg = rule" "choice_ok ch" "\<forall>r \<in> static_set cfg. acceptable (rule_table rule) r"
    by blast+
  then show ?thesis using routes(2) by (rule net_step.routes)
next
  case (new_config d)
  show ?thesis unfolding new_config(1) by (rule net_step.new_config)
qed

lemma do_op_step:
  assumes "\<And>i ip. act = RequestRoute i ip \<Longrightarrow> acceptable (rule_table rule) (route_of c i ip)"
  shows "net_step nc rule (c, w) (do_op nc act (c, w))"
  using assms by (cases act) (auto intro: net_step.add_record net_step.add_route)

lemma do_op_cfg: "ic_cfg (fst (do_op nc act (c, w))) = ic_cfg c"
proof (cases act)
  case (RequestRoute i ip)
  obtain c' w' where "ctl_add_route nc i ip (c, w) = (c', w')" by fastforce
  with same_but_routesD(1) [OF ctl_add_route_same [OF this]] RequestRoute show ?thesis by simp
qed simp

lemma reconcile_routes_cfg:
  assumes "reconcile_routes nc ch cfg (c, w) = Inr (c', w')" and "set_inv (ic_routes c)"
  shows "same_but_routes c c'"
proof -
  obtain d w2 where load: "load_routes nc (rule_table (rc_rule cfg)) w = Inr (d, w2)"
    using assms(1) unfolding reconcile_routes_passes by (auto split: sum.splits)
  let ?wanted = "wanted_routes ch cfg c"
  obtain c2 w3 where adds: "fold (ctl_add_route_rpc nc) (filter (\<lambda>r. \<not> set_has d r) ?wanted) (c, w2) = (c2, w3)"
    by (rule prod.exhaust)
  have dels: "fold (ctl_delete_route nc) (set_values (rch_unknown ch)
      (fold (\<lambda>r u. set_remove u r) (filter (set_has d) ?wanted) d)) (c2, w3) = (c', w')"
    using assms(1) unfolding reconcile_routes_passes load by (simp add: adds)
  from fold_add_state [OF adds assms(2)] fold_delete_state [OF dels] show ?thesis
    using same_but_routes_trans by blast
qed

lemma reconcile_part_cfg:
  assumes "limits_ok rule lim" and "reconcile_part lim nc (c, w) (c', w')" and "set_inv (ic_routes c)"
    and "config_usable (ic_cfg c)" and "rc_rule (ic_cfg c) = rule"
  shows "config_usable (ic_cfg c')"
  using assms(2)
proof (cases rule: reconcile_partE)
  case (rules ch cfg)
  with reconcile_rules_state [of nc cfg c w c' w'] assms(4) show ?thesis by simp
next
  case (routes ch cfg)
  with same_but_routesD(1) [OF reconcile_routes_cfg [OF routes(2) assms(3)]] assms(4) show ?thesis by simp
next
  case (new_config d)
  then show ?thesis using limits_okD(4) [OF assms(1)] assms(5) by simp
qed (use assms(4) in simp)

lemma conc_step_inv:
  assumes router: "ip_router ip rule tbl has" and up: "upstream_leaves_router tbl has upstream" and lim: "limits_ok rule lim"
    and step: "conc_step lim show_msg (agent_client ip detail_ok) upstream client s s'" and inv: "conc_inv rule tbl s"
  shows "conc_inv rule tbl s' \<and> (has (cs_world s) \<longrightarrow> has (cs_world s'))"
proof -
  obtain c w where cw: "cs_net s = (c, w)" by fastforce
  then have w: "cs_world s = w" "sv_ctl (cs_service s) = c" by (simp_all add: cs_net_def)
  note i = conc_invD [OF inv cw]
  have b: "0 \<le> rule_table rule" "rule_table rule < 2 ^ 32" using router by (auto simp: ip_router_def)
  have move: "conc_inv rule tbl s1 \<and> (has (cs_world s) \<longrightarrow> has (cs_world s1))"
    if "net_step (agent_client ip detail_ok) rule (c, w) (cs_net s1)" "config_usable (ic_cfg (fst (cs_net s1)))"
      "\<And>t msg resp acts. cs_pc s1 t = SvcRouting msg resp acts \<Longrightarrow> \<exists>acts'. cs_pc s t = SvcRouting msg resp acts' \<and> set acts \<subseteq> set acts'" for s1
  proof -
    obtain c1 w1 where 1: "cs_net s1 = (c1, w1)" by fastforce
    from net_step_inv [OF router that(1) [unfolded 1] i(1)] have "net_inv rule tbl (c1, w1)" "has w \<longrightarrow> has w1" by auto
    moreover have "cs_world s1 = w1" using 1 by (simp add: cs_net_def)
    ultimately show ?thesis using that(2,3) i(7) w(1) unfolding conc_inv_def 1 by (metis fst_conv subsetD)
  qed
  have same: "conc_inv rule tbl s1 \<and> (has (cs_world s) \<longrightarrow> has (cs_world s1))"
    if "cs_net s1 = cs_net s" "\<And>t msg resp acts. cs_pc s1 t = SvcRouting msg resp acts \<Longrightarrow> cs_pc s t = SvcRouting msg resp acts" for s1
  proof -
    have "cs_world s1 = cs_world s" using that(1) by (simp add: cs_net_def)
    then show ?thesis using inv that unfolding conc_inv_def by metis
  qed
  from step show ?thesis
  proof (cases rule: conc_stepE)
    case (flight fl)
    show ?thesis unfolding flight(1) by (rule same) simp_all
  next
    case (begin_call t msg ord tm svc)
    show ?thesis unfolding begin_call(1)
      by (rule same) (use append_keeps_ctl(1) [OF begin_call(4)] in \<open>auto simp: cs_net_def split: if_splits\<close>)
  next
    case (answer t msg res w1)
    have r: "tbl w1 = tbl w" "has w1 = has w" using up answer(3) w(1) unfolding upstream_leaves_router_def by blast+
    have "net_inv rule tbl (c, w1)" by (rule net_inv_router [OF i(1) r(1)])
    then show ?thesis using i(2,7) r(2) w(1) cw by (auto simp: answer(1) conc_inv_def split: if_splits)
  next
    case (record_answer t msg res ord tm svc)
    have "after_record msg res \<noteq> SvcRouting m r a" for m r a by (cases res) simp_all
    then show ?thesis unfolding record_answer(1)
      by (intro same) (use append_keeps_ctl(1) [OF record_answer(3)] in \<open>auto simp: cs_net_def split: if_splits\<close>)
  next
    case (no_address t msg resp ch)
    show ?thesis unfolding no_address(1) by (rule same) (auto split: if_splits)
  next
    case (record_query t msg resp ch res svc)
    have net: "cs_net (s\<lparr>cs_service := svc\<rparr>) = (c, w)" using append_keeps_ctl(2) [OF record_query(6)] cw by (simp add: cs_net_def)
    have "acceptable (rule_table rule) \<lparr>rt_table = rule_table rule, rt_iface = i, rt_addr = a\<rparr>"
      if "RequestRoute i a \<in> set (query_ops res)" for i a
      by (rule query_ops_acceptable [OF record_query(3) record_query(4) [unfolded w(2)] i(2,4) b that])
    then show ?thesis using i(1,2,7) net w(1) by (auto simp: record_query(1) conc_inv_def split: if_splits)
  next
    case (route t msg resp act acts)
    have "acceptable (rule_table rule) (route_of c j a)" if "act = RequestRoute j a" for j a
      using i(7) [OF route(2), of j a] that by (simp add: route_of_def i(4))
    from do_op_step [OF this] do_op_cfg [of "agent_client ip detail_ok" act c w] i(2)
    show ?thesis unfolding route(1) by (intro move) (auto simp: cw route(2) split: if_splits)
  next
    case (routed t msg resp)
    show ?thesis unfolding routed(1) by (rule same) (auto split: if_splits)
  next
    case (end_call t msg res)
    show ?thesis unfolding end_call(1) by (rule same) (auto split: if_splits)
  next
    case (reconcile cw')
    obtain c' w' where cw': "cw' = (c', w')" by (cases cw')
    have part: "reconcile_part lim (agent_client ip detail_ok) (c, w) (c', w')" using reconcile(2) by (simp add: cw cw')
    have "set_inv (ic_routes c)" using i(6) by (simp add: in_sync_def)
    from reconcile_part_cfg [OF lim part this i(2,3)] reconcile_part_step [OF lim part]
    show ?thesis unfolding reconcile(1) cw' by (intro move) auto
  qed
qed

lemma conc_run_inv:
  assumes "ip_router ip rule tbl has" and "upstream_leaves_router tbl has upstream" and "limits_ok rule lim"
    and "(conc_step lim show_msg (agent_client ip detail_ok) upstream client)\<^sup>*\<^sup>* s s'" and "conc_inv rule tbl s"
  shows "conc_inv rule tbl s' \<and> (has (cs_world s) \<longrightarrow> has (cs_world s'))"
  using assms(4)
proof (induction rule: rtranclp_induct)
  case (step y z)
  from conc_step_inv [OF assms(1-3) step(2)] step(3) show ?case by blast
qed (simp add: assms(5))

subsection \<open>A window in which no record expires\<close>

text \<open>The reconciliations of the window use one configuration and read clocks up to \<open>T\<close>; the queries recorded in it
  make records that last until \<open>T\<close>, by the controller's measure; the configuration does not change.\<close>

definition in_window :: "instant \<Rightarrow> routing_config \<Rightarrow> run_limits \<Rightarrow> bool" where
  "in_window T cfg lim \<longleftrightarrow>
     (\<forall>ch cfg'. lm_reconcile lim ch cfg' \<longrightarrow> cfg' = cfg \<and> (\<forall>r. rch_purge_clock ch r \<le> T) \<and> (\<forall>r rec. rch_clock ch r rec \<le> T))
   \<and> (\<forall>res. lm_query lim res \<longrightarrow> T \<le> dq_time res + uint (dq_ttl res) * second + rd_route_timeout (rc_dynamic cfg))
   \<and> (\<forall>d. \<not> lm_config lim d)"

lemma in_windowD:
  assumes "in_window T cfg lim"
  shows "lm_reconcile lim ch cfg' \<Longrightarrow> cfg' = cfg" "lm_reconcile lim ch cfg' \<Longrightarrow> rch_purge_clock ch rec \<le> T"
    "lm_reconcile lim ch cfg' \<Longrightarrow> rch_clock ch r rec \<le> T"
    "lm_query lim res \<Longrightarrow> T \<le> dq_time res + uint (dq_ttl res) * second + rd_route_timeout (rc_dynamic cfg)"
    "\<not> lm_config lim d"
  using assms by (auto simp: in_window_def)

definition outlives :: "instant \<Rightarrow> routing_config \<Rightarrow> ip_ctl \<Rightarrow> ipv4 \<Rightarrow> bool" where
  "outlives T cfg c ip \<longleftrightarrow> has_live_record (\<lambda>r. T) (rd_route_timeout (rc_dynamic cfg)) (ic_store c) ip"

definition settled :: "instant \<Rightarrow> routing_config \<Rightarrow> ('w \<Rightarrow> ip_route set) \<Rightarrow> ip_ctl \<times> 'w \<Rightarrow> ipv4 \<Rightarrow> bool" where
  "settled T cfg tbl = (\<lambda>(c, w) ip. outlives T cfg c ip \<and> ip \<in> rt_addr ` tbl w)"

text \<open>What the window keeps of controller and router: every route of the table is one the controller remembers or a
  static one.\<close>

definition owned :: "routing_config \<Rightarrow> ('w \<Rightarrow> ip_route set) \<Rightarrow> ip_ctl \<times> 'w \<Rightarrow> bool" where
  "owned cfg tbl = (\<lambda>(c, w). ic_cfg c = cfg \<and> tbl w \<subseteq> set_elems (ic_routes c) \<union> static_set cfg)"

lemma outlives_add:
  assumes "store_inv (ic_store c)" and "outlives T cfg c ip \<or> rec_ip r = ip" and "\<not> rec_expired T r (rd_route_timeout (rc_dynamic cfg))"
  shows "outlives T cfg (c\<lparr>ic_store := store_add (ic_store c) r\<rparr>) ip"
  using assms(2)
proof
  assume "outlives T cfg c ip"
  then obtain d rec where "store_get (ic_store c) d ip = Some rec" "\<not> rec_expired T rec (rd_route_timeout (rc_dynamic cfg))"
    by (auto simp: outlives_def has_live_record_def)
  with assms(3) have "\<exists>rec'. store_get (store_add (ic_store c) r) d ip = Some rec' \<and> \<not> rec_expired T rec' (rd_route_timeout (rc_dynamic cfg))"
    by (simp add: store_get_add [OF assms(1)])
  then show ?thesis by (auto simp: outlives_def has_live_record_def)
next
  assume "rec_ip r = ip"
  then have "store_get (store_add (ic_store c) r) (rec_domain r) ip = Some r" by (simp add: store_get_add [OF assms(1)])
  with assms(3) show ?thesis by (auto simp: outlives_def has_live_record_def)
qed

lemma outlives_purge:
  assumes "store_inv (ic_store c)" and "choice_ok ch" and "\<forall>r. rch_purge_clock ch r \<le> T" and "outlives T cfg c ip"
  shows "outlives T cfg (c\<lparr>ic_store := store_remove_expired (rch_purge_order ch) (rch_purge_clock ch) (ic_store c)
    (rd_route_timeout (rc_dynamic cfg))\<rparr>) ip"
proof -
  obtain d rec where rec: "store_get (ic_store c) d ip = Some rec" "\<not> rec_expired T rec (rd_route_timeout (rc_dynamic cfg))"
    using assms(4) by (auto simp: outlives_def has_live_record_def)
  have "\<not> rec_expired (rch_purge_clock ch rec) rec (rd_route_timeout (rc_dynamic cfg))"
    using rec(2) rec_expired_mono assms(3) by blast
  then have "store_get (store_remove_expired (rch_purge_order ch) (rch_purge_clock ch) (ic_store c) (rd_route_timeout (rc_dynamic cfg))) d ip = Some rec"
    using store_get_remove_expired(2) [OF assms(1)] assms(2) rec(1) by (simp add: choice_ok_def)
  with rec(2) show ?thesis by (auto simp: outlives_def has_live_record_def)
qed

text \<open>A reconciliation keeps every wanted route of the table, and leaves only wanted ones it remembers.\<close>

lemma fold_add_owned:
  assumes "keeps_router nc rule tbl has" and "\<forall>r \<in> set rs. acceptable (rule_table rule) r" and "set_inv (ic_routes s)"
    and "fold (ctl_add_route_rpc nc) rs (s, w) = (s', w')"
  shows "tbl w' - tbl w \<subseteq> set_elems (ic_routes s')"
  using assms(2-4)
proof (induction rs arbitrary: s w)
  case (Cons r rs)
  obtain s1 w1 where 1: "ctl_add_route_rpc nc r (s, w) = (s1, w1)" by fastforce
  obtain res w2 where call: "nc_add_route nc (map_to_agent_route r) w = (res, w2)" by fastforce
  have acc: "acceptable (rule_table rule) r" using Cons.prems(1) by simp
  from add_route_rpc_routes [OF 1 call] keeps_routerD(3) [OF assms(1) acc call] Cons.prems(2)
  have s1: "tbl w1 - tbl w \<subseteq> set_elems (ic_routes s1)" "set_inv (ic_routes s1)" by (auto split: if_splits)
  have run: "fold (ctl_add_route_rpc nc) rs (s1, w1) = (s', w')" using Cons.prems(3) 1 by simp
  from Cons.IH [OF _ s1(2) run] fold_add_state [OF run s1(2)] s1(1) Cons.prems(1) show ?case by auto
qed simp

lemma reconcile_routes_owned:
  assumes keeps: "keeps_router nc rule tbl has" and "rc_rule cfg = rule" and "choice_ok ch"
    and acc: "\<forall>w. \<forall>r \<in> tbl w. acceptable (rule_table rule) r" "\<forall>r \<in> static_set cfg. acceptable (rule_table rule) r"
    and "store_inv (ic_store s)" and "in_sync tbl s w" and run: "reconcile_routes nc ch cfg (s, w) = Inr (s', w')"
  shows "tbl w \<inter> wanted_set (rch_clock ch) cfg s \<subseteq> tbl w' \<and> tbl w' \<subseteq> set_elems (ic_routes s') \<union> static_set cfg"
proof -
  let ?wanted = "wanted_routes ch cfg s"
  have wanted: "set ?wanted = wanted_set (rch_clock ch) cfg s" by (rule wanted_routes_set [OF assms(3,6)])
  obtain d w1 where load: "load_routes nc (rule_table (rc_rule cfg)) w = Inr (d, w1)" "tbl w1 = tbl w" "set_inv d" "set_elems d = tbl w"
    using load_routes_table [OF keeps, of w] assms(2) by blast
  let ?adds = "filter (\<lambda>r. \<not> set_has d r) ?wanted"
  let ?dels = "set_values (rch_unknown ch) (fold (\<lambda>r u. set_remove u r) (filter (set_has d) ?wanted) d)"
  have dels: "set ?dels = tbl w - set ?wanted" "distinct ?dels"
    using fold_set_remove [OF load(3), of "filter (set_has d) ?wanted"] load(3,4) assms(3)
    by (auto simp: set_values_set set_values_distinct choice_ok_def)
  have "wanted_set (rch_clock ch) cfg s \<subseteq> tbl w \<union> static_set cfg" using assms(7) by (auto simp: wanted_set_def in_sync_def)
  then have accA: "\<forall>r \<in> set ?adds. acceptable (rule_table rule) r" using acc wanted by (metis UnE filter_is_subset subsetD)
  obtain s1 w2 where 1: "fold (ctl_add_route_rpc nc) ?adds (s, w1) = (s1, w2)" by fastforce
  have inv: "set_inv (ic_routes s)" using assms(7) by (simp add: in_sync_def)
  note a = fold_add_state [OF 1 inv] and o = fold_add_owned [OF keeps accA inv 1]
  have grow: "tbl w \<subseteq> tbl w2" using fold_add_grows [OF keeps accA 1] load(2) by simp
  have 2: "fold (ctl_delete_route nc) ?dels (s1, w2) = (s', w')"
    using run unfolding reconcile_routes_passes load(1) sum.case prod.case 1 by simp
  have sub: "set ?dels \<subseteq> tbl w2" using dels(1) grow by blast
  have "set_inv (ic_routes s1)" using a by blast
  from fold_delete_table [OF keeps sub dels(2) this] 2
  have t: "tbl w' = tbl w2 - set ?dels" "set_elems (ic_routes s') = set_elems (ic_routes s1) - set ?dels" by simp_all
  show ?thesis using grow a o load(2) wanted unfolding t dels(1) by (auto simp: wanted_set_def)
qed

lemma reconcile_part_window:
  assumes router: "ip_router ip rule tbl has" and lim: "limits_ok rule lim" "in_window T cfg lim"
    and inv: "net_inv rule tbl (c, w)" "owned cfg tbl (c, w)"
    and part: "reconcile_part lim (agent_client ip detail_ok) (c, w) (c', w')"
  shows "owned cfg tbl (c', w') \<and> (\<forall>a. outlives T cfg c a \<longrightarrow> outlives T cfg c' a)
    \<and> (\<forall>a. settled T cfg tbl (c, w) a \<longrightarrow> settled T cfg tbl (c', w') a)"
proof -
  note keeps = ip_router_keeps [OF router, of detail_ok]
  have acc: "\<forall>w. \<forall>r \<in> tbl w. acceptable (rule_table rule) r" using ip_router_tables [OF router] by blast
  have i: "in_sync tbl c w" "store_inv (ic_store c)" "set_inv (ic_routes c)" using inv(1) by (simp_all add: net_inv_def in_sync_def)
  have o: "ic_cfg c = cfg" "tbl w \<subseteq> set_elems (ic_routes c) \<union> static_set cfg" using inv(2) by (simp_all add: owned_def)
  from part show ?thesis
  proof (cases rule: reconcile_partE)
    case (purge ch cfg')
    have cfg: "cfg' = cfg" by (rule in_windowD(1) [OF lim(2) purge(2)])
    have ok: "choice_ok ch" by (rule limits_okD(1) [OF lim(1) purge(2)])
    have clock: "\<forall>r. rch_purge_clock ch r \<le> T" by (rule allI) (rule in_windowD(2) [OF lim(2) purge(2)])
    have c': "c' = c\<lparr>ic_store := store_remove_expired (rch_purge_order ch) (rch_purge_clock ch) (ic_store c)
        (rd_route_timeout (rc_dynamic cfg))\<rparr>" "w' = w" using purge(1) by (simp_all add: cfg)
    have "outlives T cfg c a \<longrightarrow> outlives T cfg c' a" for a
      unfolding c'(1) by (rule impI) (rule outlives_purge [OF i(2) ok clock])
    moreover have "owned cfg tbl (c', w')" using o by (simp add: owned_def c')
    ultimately show ?thesis by (simp add: settled_def c'(2))
  next
    case (rules ch cfg')
    have "rc_rule cfg' = rule" by (rule limits_okD(2) [OF lim(1) rules(2)])
    with keeps have "keeps_router (agent_client ip detail_ok) (rc_rule cfg') tbl has" by simp
    from reconcile_rules_rule [OF this, of c w] rules(1) have "c' = c" "tbl w' = tbl w" by auto
    with o show ?thesis by (simp add: owned_def settled_def)
  next
    case (routes ch cfg')
    have cfg: "cfg' = cfg" by (rule in_windowD(1) [OF lim(2) routes(1)])
    have p: "choice_ok ch" "rc_rule cfg = rule" "\<forall>r \<in> static_set cfg. acceptable (rule_table rule) r"
      "\<forall>r rec. rch_clock ch r rec \<le> T"
      using limits_okD(1-3) [OF lim(1) routes(1)] in_windowD(3) [OF lim(2) routes(1)] unfolding cfg by blast+
    have run: "reconcile_routes (agent_client ip detail_ok) ch cfg (c, w) = Inr (c', w')" using routes(2) unfolding cfg .
    note r = reconcile_routes_owned [OF keeps p(2,1) acc p(3) i(2,1) run]
    have same: "ic_cfg c' = ic_cfg c" "ic_store c' = ic_store c"
      using same_but_routesD [OF reconcile_routes_cfg [OF run i(3)]] by simp_all
    have out: "outlives T cfg c' a = outlives T cfg c a" for a by (simp add: outlives_def same(2))
    have "a \<in> rt_addr ` tbl w'" if lives: "outlives T cfg c a" and there: "a \<in> rt_addr ` tbl w" for a
    proof -
      obtain r0 where r0: "r0 \<in> tbl w" "rt_addr r0 = a" using there by blast
      have "has_live_record (rch_clock ch r0) (rd_route_timeout (rc_dynamic cfg)) (ic_store c) a"
        using lives rec_expired_mono p(4) unfolding outlives_def has_live_record_def by blast
      then have "r0 \<in> wanted_set (rch_clock ch) cfg c" using o(2) r0 by (auto simp: wanted_set_def)
      with r r0 show ?thesis by blast
    qed
    with r o(1) same(1) out show ?thesis by (simp add: owned_def settled_def)
  next
    case (new_config d)
    with in_windowD(5) [OF lim(2)] show ?thesis by simp
  qed
qed

lemma do_op_window:
  assumes router: "ip_router ip rule tbl has" and inv: "net_inv rule tbl (c, w)" "owned cfg tbl (c, w)"
    and acc: "\<And>i a. act = RequestRoute i a \<Longrightarrow> acceptable (rule_table rule) (route_of c i a)"
    and lasts: "\<And>r. act = AddRecord r \<Longrightarrow> \<not> rec_expired T r (rd_route_timeout (rc_dynamic cfg))"
    and run: "do_op (agent_client ip detail_ok) act (c, w) = (c', w')"
  shows "owned cfg tbl (c', w') \<and> (\<forall>a. outlives T cfg c a \<longrightarrow> outlives T cfg c' a)
    \<and> (\<forall>a. settled T cfg tbl (c, w) a \<longrightarrow> settled T cfg tbl (c', w') a)
    \<and> (case act of AddRecord r \<Rightarrow> outlives T cfg c' (rec_ip r) | RequestRoute i a \<Rightarrow> a \<in> rt_addr ` tbl w')"
proof -
  have i: "in_sync tbl c w" "store_inv (ic_store c)" using inv(1) by (simp_all add: net_inv_def)
  have o: "ic_cfg c = cfg" "tbl w \<subseteq> set_elems (ic_routes c) \<union> static_set cfg" using inv(2) by (simp_all add: owned_def)
  show ?thesis
  proof (cases act)
    case (AddRecord r)
    with run have "c' = c\<lparr>ic_store := store_add (ic_store c) r\<rparr>" "w' = w" by auto
    with outlives_add [OF i(2) _ lasts [OF AddRecord]] o AddRecord show ?thesis by (simp add: owned_def settled_def)
  next
    case (RequestRoute j a)
    then have add: "ctl_add_route (agent_client ip detail_ok) j a (c, w) = (c', w')" using run by simp
    note t = ctl_add_route_router [OF ip_router_keeps [OF router] acc [OF RequestRoute] i(1) add]
    note same = same_but_routesD [OF ctl_add_route_same [OF add]]
    have "tbl w' \<subseteq> set_elems (ic_routes c') \<union> static_set cfg"
    proof (cases "set_has (ic_routes c) (route_of c j a)")
      case True
      then show ?thesis using add o(2) by (simp add: ctl_add_route_def route_of_def)
    next
      case False
      then have one: "fold (ctl_add_route_rpc (agent_client ip detail_ok)) [route_of c j a] (c, w) = (c', w')"
        using add by (simp add: ctl_add_route_def route_of_def)
      have inv: "set_inv (ic_routes c)" using i(1) by (simp add: in_sync_def)
      have ok: "\<forall>r \<in> set [route_of c j a]. acceptable (rule_table rule) r" using acc [OF RequestRoute] by simp
      from fold_add_owned [OF ip_router_keeps [OF router] ok inv one] fold_add_state [OF one inv] o(2) show ?thesis by blast
    qed
    with t same o RequestRoute show ?thesis by (auto simp: owned_def settled_def outlives_def route_of_def)
  qed
qed

subsection \<open>Answers stay routed\<close>

text \<open>A name that belongs to an interface whatever the order in which the configuration's map is visited.\<close>

definition host_routed :: "routing_config \<Rightarrow> string \<Rightarrow> bool" where
  "host_routed cfg name \<longleftrightarrow> (\<forall>ord. is_order ord \<longrightarrow> routing_lookup_host ord cfg (normalize_name name) \<noteq> [])"

definition answer_path :: "dns_msg \<Rightarrow> string list \<Rightarrow> bool" where
  "answer_path resp p \<longleftrightarrow> (\<exists>q qs name_ips cnames ttl. msg_question resp = q # qs
     \<and> scan_answer (msg_answer resp) ([], None, - 1) = Inr (name_ips, cnames, ttl) \<and> cname_path cnames (q_name q) p)"

definition answer_settled :: "instant \<Rightarrow> routing_config \<Rightarrow> ('w \<Rightarrow> ip_route set) \<Rightarrow> ip_ctl \<times> 'w \<Rightarrow> dns_msg \<Rightarrow> string + dns_msg \<Rightarrow> bool" where
  "answer_settled T cfg tbl cw msg res \<longleftrightarrow>
     (\<forall>resp p. res = Inr resp \<longrightarrow> has_single_question msg [type_a] \<longrightarrow> answer_path resp p \<longrightarrow> (\<exists>n \<in> set p. host_routed cfg n)
        \<longrightarrow> (\<forall>a \<in> set (addresses_of (last p) (msg_answer resp)). settled T cfg tbl cw a))"

text \<open>What the operations done so far have achieved.\<close>

fun op_done :: "instant \<Rightarrow> routing_config \<Rightarrow> ('w \<Rightarrow> ip_route set) \<Rightarrow> ip_ctl \<times> 'w \<Rightarrow> route_op \<Rightarrow> bool" where
  "op_done T cfg tbl (c, w) (AddRecord r) = outlives T cfg c (rec_ip r)"
| "op_done T cfg tbl (c, w) (RequestRoute i a) = settled T cfg tbl (c, w) a"

definition recorded_query :: "instant \<Rightarrow> routing_config \<Rightarrow> dns_msg \<Rightarrow> dns_query \<Rightarrow> bool" where
  "recorded_query T cfg resp res \<longleftrightarrow>
     T \<le> dq_time res + uint (dq_ttl res) * second + rd_route_timeout (rc_dynamic cfg)
   \<and> (\<forall>p. answer_path resp p \<longrightarrow> set (dq_ips res) = set (addresses_of (last p) (msg_answer resp))
        \<and> ((\<exists>n \<in> set p. host_routed cfg n) \<longrightarrow> dq_routed res \<noteq> []))"

fun pc_ok :: "instant \<Rightarrow> routing_config \<Rightarrow> ('w \<Rightarrow> ip_route set) \<Rightarrow> ip_ctl \<times> 'w \<Rightarrow> service_pc \<Rightarrow> bool" where
  "pc_ok T cfg tbl cw (SvcRouting msg resp acts) \<longleftrightarrow>
     (\<exists>res before. query_ops res = before @ acts \<and> recorded_query T cfg resp res \<and> (\<forall>act \<in> set before. op_done T cfg tbl cw act))"
| "pc_ok T cfg tbl cw (SvcServed msg res) \<longleftrightarrow> answer_settled T cfg tbl cw msg res"
| "pc_ok T cfg tbl cw pc \<longleftrightarrow> True"

definition window_inv :: "ip_routing_rule \<Rightarrow> instant \<Rightarrow> routing_config \<Rightarrow> ('w \<Rightarrow> ip_route set) \<Rightarrow> ('l, 'k, 'w) conc_state \<Rightarrow> bool" where
  "window_inv rule T cfg tbl s \<longleftrightarrow> conc_inv rule tbl s \<and> owned cfg tbl (cs_net s)
     \<and> (\<forall>t. pc_ok T cfg tbl (cs_net s) (cs_pc s t))
     \<and> (\<forall>(msg, res) \<in> set (si_upstream (cs_flights s)). answer_settled T cfg tbl (cs_net s) msg res)"

definition net_le :: "instant \<Rightarrow> routing_config \<Rightarrow> ('w \<Rightarrow> ip_route set) \<Rightarrow> ip_ctl \<times> 'w \<Rightarrow> ip_ctl \<times> 'w \<Rightarrow> bool" where
  "net_le T cfg tbl cw cw' \<longleftrightarrow> (\<forall>a. outlives T cfg (fst cw) a \<longrightarrow> outlives T cfg (fst cw') a)
     \<and> (\<forall>a. settled T cfg tbl cw a \<longrightarrow> settled T cfg tbl cw' a)"

lemma net_le_refl [simp]: "net_le T cfg tbl cw cw"
  by (simp add: net_le_def)

lemma answer_settled_mono: "answer_settled T cfg tbl cw msg res \<Longrightarrow> net_le T cfg tbl cw cw' \<Longrightarrow> answer_settled T cfg tbl cw' msg res"
  unfolding answer_settled_def net_le_def by blast

lemma op_done_mono: "op_done T cfg tbl cw act \<Longrightarrow> net_le T cfg tbl cw cw' \<Longrightarrow> op_done T cfg tbl cw' act"
  by (cases cw; cases cw'; cases act) (auto simp: net_le_def)

lemma pc_ok_mono: "pc_ok T cfg tbl cw pc \<Longrightarrow> net_le T cfg tbl cw cw' \<Longrightarrow> pc_ok T cfg tbl cw' pc"
proof (cases pc)
  case (SvcRouting msg resp acts)
  then show "pc_ok T cfg tbl cw pc \<Longrightarrow> net_le T cfg tbl cw cw' \<Longrightarrow> pc_ok T cfg tbl cw' pc" by (simp, blast intro: op_done_mono)
qed (auto intro: answer_settled_mono)

lemma answer_path_unique:
  assumes "answer_path resp p" and "msg_question resp = q # qs"
    and "scan_answer (msg_answer resp) ([], None, - 1) = Inr (name_ips, cnames, ttl)" and "cname_path cnames (q_name q) p'"
  shows "p' = p"
  using assms cname_path_unique unfolding answer_path_def by fastforce

lemma recorded_queryI:
  assumes "service_choice_ok ch" and "type_a_query ch client c resp = Inr (Some res)" and "ic_cfg c = cfg"
    and "T \<le> dq_time res + uint (dq_ttl res) * second + rd_route_timeout (rc_dynamic cfg)"
  shows "recorded_query T cfg resp res"
proof -
  have ord: "is_order (sch_ifaces ch)" "\<And>h. is_order (sch_hosts ch h)" using assms(1) by (simp_all add: service_choice_ok_def)
  obtain q qs name_ips cnames ttl p where p: "msg_question resp = q # qs"
    "scan_answer (msg_answer resp) ([], None, - 1) = Inr (name_ips, cnames, ttl)" "cname_path cnames (q_name q) p"
    "dq_ips res = sort (addresses_of (last p) (msg_answer resp))" "set (dq_routed res) = chain_ifaces ch c p"
    by (rule type_a_query_cases [OF ord(1) assms(2)])
  have "chain_ifaces ch c p \<noteq> {}" if "n \<in> set p" "host_routed cfg n" for n
    using that ord(2) assms(3) by (auto simp: chain_ifaces_def ctl_lookup_host_def host_routed_def)
  then have "dq_routed res \<noteq> []" if "\<exists>n \<in> set p. host_routed cfg n" using that p(5) by auto
  then have "set (dq_ips res) = set (addresses_of (last p') (msg_answer resp)) \<and> ((\<exists>n \<in> set p'. host_routed cfg n) \<longrightarrow> dq_routed res \<noteq> [])"
    if "answer_path resp p'" for p'
    using answer_path_unique [OF that p(1-3)] p(4) by simp
  with assms(4) show ?thesis by (simp add: recorded_query_def)
qed

lemma no_address_settled:
  assumes "service_choice_ok ch" and "type_a_query ch client c resp = Inr None"
  shows "answer_settled T cfg tbl cw msg (Inr resp)"
proof -
  have "is_order (sch_ifaces ch)" using assms(1) by (simp add: service_choice_ok_def)
  then have "addresses_of (last p) (msg_answer resp) = []" if "answer_path resp p" for p
    using that type_a_query_path [of ch resp _ _ _ _ _ p client c] assms(2) unfolding answer_path_def by (fastforce split: if_splits)
  then show ?thesis by (simp add: answer_settled_def)
qed

lemma all_ops_done:
  assumes "recorded_query T cfg resp res" and "\<forall>act \<in> set (query_ops res). op_done T cfg tbl (c, w) act"
  shows "answer_settled T cfg tbl (c, w) msg (Inr resp)"
proof -
  have "settled T cfg tbl (c, w) a" if p: "answer_path resp p" "\<exists>n \<in> set p. host_routed cfg n" "a \<in> set (addresses_of (last p) (msg_answer resp))" for p a
  proof -
    have "a \<in> set (dq_ips res)" "dq_routed res \<noteq> []" using assms(1) p unfolding recorded_query_def by blast+
    then obtain i where "RequestRoute i a \<in> set (query_ops res)" unfolding query_ops_def by (cases "dq_routed res") fastforce+
    with assms(2) show ?thesis by fastforce
  qed
  then show ?thesis by (auto simp: answer_settled_def)
qed

text \<open>Every record of a query that outlasts the window does so.\<close>

lemma query_ops_record:
  assumes "recorded_query T cfg resp res" and "AddRecord r \<in> set (query_ops res)"
  shows "\<not> rec_expired T r (rd_route_timeout (rc_dynamic cfg))"
  using assms by (auto simp: recorded_query_def query_ops_def rec_expired_def time_after_def new_dns_record_def)

lemma query_ops_before:
  assumes "query_ops res = before @ RequestRoute i a # acts"
  shows "\<exists>r. AddRecord r \<in> set before \<and> rec_ip r = a"
proof -
  have "\<exists>r. AddRecord r \<in> set before \<and> rec_ip r = a"
    if "concat (map (\<lambda>ip. AddRecord (mk ip) # map (\<lambda>j. RequestRoute j ip) js) ips) = before @ RequestRoute i a # acts"
      "\<And>ip. rec_ip (mk ip) = ip" for mk :: "ipv4 \<Rightarrow> dns_record" and js ips
    using that(1)
  proof (induction ips arbitrary: before)
    case (Cons ip ips)
    let ?blk = "AddRecord (mk ip) # map (\<lambda>j. RequestRoute j ip) js"
    from Cons.prems have "?blk @ concat (map (\<lambda>ip. AddRecord (mk ip) # map (\<lambda>j. RequestRoute j ip) js) ips) = before @ RequestRoute i a # acts"
      by simp
    then consider us where "?blk @ us = before" "concat (map (\<lambda>ip. AddRecord (mk ip) # map (\<lambda>j. RequestRoute j ip) js) ips) = us @ RequestRoute i a # acts"
      | us where "?blk = before @ us" "us @ concat (map (\<lambda>ip. AddRecord (mk ip) # map (\<lambda>j. RequestRoute j ip) js) ips) = RequestRoute i a # acts" "us \<noteq> []"
      unfolding append_eq_append_conv2 by fastforce
    then show ?case
    proof cases
      case (1 us)
      from Cons.IH [OF 1(2)] 1(1) [symmetric] show ?thesis by auto
    next
      case (2 us)
      then have "hd us = RequestRoute i a" "hd us \<in> set ?blk" by (auto simp: hd_append2 neq_Nil_conv)
      then have "RequestRoute i a \<in> set ?blk" by simp
      then have "ip = a" by auto
      moreover have "before \<noteq> []" using 2 by auto
      then have "hd before = AddRecord (mk ip)" using 2(1) by (cases before) auto
      then have "AddRecord (mk ip) \<in> set before" using \<open>before \<noteq> []\<close> by (metis hd_in_set)
      ultimately show ?thesis using that(2) by blast
    qed
  qed simp
  from this [OF assms [unfolded query_ops_def]] show ?thesis by (simp add: new_dns_record_def)
qed

lemma sf_answer_log:
  "asks fl t msg \<Longrightarrow> set (si_upstream (sf_answer t res fl)) \<subseteq> insert (msg, res) (set (si_upstream fl))"
  by (auto simp: asks_def sf_answer_def sf_done_def sf_direct_def)

lemma window_invD:
  assumes "window_inv rule T cfg tbl s" and "cs_net s = (c, w)"
  shows "conc_inv rule tbl s" "owned cfg tbl (c, w)" "ic_cfg c = cfg" "pc_ok T cfg tbl (c, w) (cs_pc s t)"
    "(msg, res) \<in> set (si_upstream (cs_flights s)) \<Longrightarrow> answer_settled T cfg tbl (c, w) msg res"
  using assms by (auto simp: window_inv_def owned_def)

lemma window_invI:
  assumes "window_inv rule T cfg tbl s" and "conc_inv rule tbl s'" and "owned cfg tbl (cs_net s')"
    and "net_le T cfg tbl (cs_net s) (cs_net s')"
    and "\<And>t. cs_pc s' t \<noteq> cs_pc s t \<Longrightarrow> pc_ok T cfg tbl (cs_net s') (cs_pc s' t)"
    and "\<And>msg res. (msg, res) \<in> set (si_upstream (cs_flights s')) \<Longrightarrow> (msg, res) \<notin> set (si_upstream (cs_flights s))
        \<Longrightarrow> answer_settled T cfg tbl (cs_net s') msg res"
  shows "window_inv rule T cfg tbl s'"
proof -
  have "pc_ok T cfg tbl (cs_net s') (cs_pc s' t)" for t
    using assms(1,4,5) pc_ok_mono unfolding window_inv_def by metis
  moreover have "answer_settled T cfg tbl (cs_net s') msg res" if "(msg, res) \<in> set (si_upstream (cs_flights s'))" for msg res
    using assms(1) assms(6) [OF that] answer_settled_mono [OF _ assms(4)] unfolding window_inv_def by blast
  ultimately show ?thesis using assms(2,3) by (auto simp: window_inv_def)
qed

lemma route_op_window:
  assumes router: "ip_router ip rule tbl has" and inv: "window_inv rule T cfg tbl s" and cw: "cs_net s = (c, w)"
    and pc: "cs_pc s t = SvcRouting msg resp (act # acts)"
    and run: "do_op (agent_client ip detail_ok) act (c, w) = (c', w')"
  shows "owned cfg tbl (c', w') \<and> net_le T cfg tbl (c, w) (c', w') \<and> pc_ok T cfg tbl (c', w') (SvcRouting msg resp acts)"
proof -
  note i = window_invD [OF inv cw] and ci = conc_invD [OF window_invD(1) [OF inv cw] cw]
  obtain res before where r: "query_ops res = before @ act # acts" "recorded_query T cfg resp res" "\<forall>act \<in> set before. op_done T cfg tbl (c, w) act"
    using i(4) [of t] pc by auto
  have acc: "acceptable (rule_table rule) (route_of c j a)" if "act = RequestRoute j a" for j a
    using ci(7) [OF pc, of j a] that by (simp add: route_of_def ci(4))
  have rec: "\<not> rec_expired T r (rd_route_timeout (rc_dynamic cfg))" if "act = AddRecord r" for r
    using query_ops_record [OF r(2)] r(1) that by auto
  note d = do_op_window [OF router ci(1) i(2) acc rec run]
  then have le: "net_le T cfg tbl (c, w) (c', w')" by (simp add: net_le_def)
  have "op_done T cfg tbl (c', w') act"
  proof (cases act)
    case (RequestRoute j a)
    with query_ops_before [of res before j a acts] r(1) obtain r0 where "AddRecord r0 \<in> set before" "rec_ip r0 = a" by blast
    with r(3) have "outlives T cfg c a" by fastforce
    with d RequestRoute show ?thesis by (simp add: settled_def)
  qed (use d in simp)
  with r op_done_mono [OF _ le] have "\<forall>act \<in> set (before @ [act]). op_done T cfg tbl (c', w') act" by auto
  moreover have "query_ops res = (before @ [act]) @ acts" using r(1) by simp
  ultimately show ?thesis using d le r(2) unfolding pc_ok.simps by blast
qed

lemma window_step:
  assumes router: "ip_router ip rule tbl has" and up: "upstream_leaves_router tbl has upstream"
    and lim: "limits_ok rule lim" "in_window T cfg lim" and inv: "window_inv rule T cfg tbl s"
    and step: "conc_step lim show_msg (agent_client ip detail_ok) upstream client s s'"
  shows "window_inv rule T cfg tbl s'"
proof -
  obtain c w where cw: "cs_net s = (c, w)" by fastforce
  then have w: "cs_world s = w" "sv_ctl (cs_service s) = c" by (simp_all add: cs_net_def)
  note i = window_invD [OF inv cw]
  have own: "owned cfg tbl (cs_net s)" using i(2) cw by simp
  have conc: "conc_inv rule tbl s'" using conc_step_inv [OF router up lim(1) step i(1)] by blast
  note intro = window_invI [OF inv conc]
  have keeps: "window_inv rule T cfg tbl s'"
    if "cs_net s' = cs_net s" "cs_flights s' = cs_flights s" "\<And>t. cs_pc s' t \<noteq> cs_pc s t \<Longrightarrow> pc_ok T cfg tbl (c, w) (cs_pc s' t)"
    by (rule intro) (use that own cw in auto)
  from step show ?thesis
  proof (cases rule: conc_stepE)
    case (flight fl)
    show ?thesis by (rule intro) (use own in \<open>auto simp: flight(1,3)\<close>)
  next
    case (begin_call t msg ord tm svc)
    show ?thesis by (rule keeps) (use append_keeps_ctl(1) [OF begin_call(4)] in \<open>auto simp: begin_call(1) cs_net_def split: if_splits\<close>)
  next
    case (answer t msg res w1)
    have r: "tbl w1 = tbl w" using up answer(3) w(1) unfolding upstream_leaves_router_def by blast
    have net: "cs_net s' = (c, w1)" using cw by (simp add: answer(1))
    have "net_le T cfg tbl (cs_net s) (cs_net s')" unfolding net cw using r by (simp add: net_le_def settled_def)
    moreover have "owned cfg tbl (cs_net s')" unfolding net using i(2) r by (simp add: owned_def)
    ultimately show ?thesis by (intro intro) (auto simp: answer(1) split: if_splits)
  next
    case (record_answer t msg res ord tm svc)
    have "pc_ok T cfg tbl (c, w) (after_record msg res)"
      by (cases res) (auto simp: answer_settled_def)
    then show ?thesis
      by (intro keeps) (use append_keeps_ctl(1) [OF record_answer(3)] in \<open>auto simp: record_answer(1) cs_net_def split: if_splits\<close>)
  next
    case (no_address t msg resp ch)
    from no_address_settled [OF no_address(3,4)] show ?thesis by (intro keeps) (auto simp: no_address(1) split: if_splits)
  next
    case (record_query t msg resp ch res svc)
    have "T \<le> dq_time res + uint (dq_ttl res) * second + rd_route_timeout (rc_dynamic cfg)"
      by (rule in_windowD(4) [OF lim(2) record_query(5)])
    from recorded_queryI [OF record_query(3,4) _ this] i(3) w(2) have "recorded_query T cfg resp res" by simp
    then have "pc_ok T cfg tbl (c, w) (SvcRouting msg resp (query_ops res))" by fastforce
    then show ?thesis
      by (intro keeps) (use append_keeps_ctl(2) [OF record_query(6)] in \<open>auto simp: record_query(1) cs_net_def split: if_splits\<close>)
  next
    case (route t msg resp act acts)
    obtain c' w' where run: "do_op (agent_client ip detail_ok) act (c, w) = (c', w')" by fastforce
    note r = route_op_window [OF router inv cw route(2) run]
    have net: "cs_net s' = (c', w')" by (simp add: route(1) cw run)
    show ?thesis by (rule intro) (use r in \<open>auto simp: net cw run route(1) simp del: pc_ok.simps split: if_splits\<close>)
  next
    case (routed t msg resp)
    obtain res where "recorded_query T cfg resp res" "\<forall>act \<in> set (query_ops res). op_done T cfg tbl (c, w) act"
      using i(4) [of t] routed(2) by auto
    from all_ops_done [OF this] show ?thesis by (intro keeps) (auto simp: routed(1) split: if_splits)
  next
    case (end_call t msg res)
    have ok: "answer_settled T cfg tbl (c, w) msg res" using i(4) [of t] end_call(2) by simp
    have net: "cs_net s' = cs_net s" by (simp add: end_call(1))
    have log: "(m, r) = (msg, res)" if "(m, r) \<in> set (si_upstream (cs_flights s'))" "(m, r) \<notin> set (si_upstream (cs_flights s))" for m r
      using that sf_answer_log [OF end_call(3), of res] by (auto simp: end_call(1))
    show ?thesis by (rule intro) (use own ok log in \<open>auto simp: net cw end_call(1) split: if_splits\<close>)
  next
    case (reconcile cw')
    obtain c' w' where cw': "cw' = (c', w')" by (cases cw')
    have part: "reconcile_part lim (agent_client ip detail_ok) (c, w) (c', w')" using reconcile(2) by (simp add: cw cw')
    note r = reconcile_part_window [OF router lim conc_invD(1) [OF i(1) cw] i(2) part]
    have net: "cs_net s' = (c', w')" by (simp add: reconcile(1) cw')
    show ?thesis by (rule intro) (use r in \<open>auto simp: net cw cw' net_le_def reconcile(1)\<close>)
  qed
qed

lemma window_run:
  assumes "ip_router ip rule tbl has" and "upstream_leaves_router tbl has upstream"
    and "limits_ok rule lim" and "in_window T cfg lim"
    and "(conc_step lim show_msg (agent_client ip detail_ok) upstream client)\<^sup>*\<^sup>* s s'" and "window_inv rule T cfg tbl s"
  shows "window_inv rule T cfg tbl s'"
  using assms(5)
proof (induction rule: rtranclp_induct)
  case (step y z)
  from window_step [OF assms(1-4) step(3,2)] show ?case .
qed (simp add: assms(6))

subsection \<open>A call nobody interrupts\<close>

lemma set_net_twice: "set_net cw (set_net cw' s) = set_net cw s"
  by (simp add: set_net_def split_beta)

lemma fold_route_steps:
  "(conc_step lim show_msg nc upstream client)\<^sup>*\<^sup>* (set_pc t (SvcRouting msg resp acts) s)
     (set_pc t (SvcRouting msg resp []) (set_net (fold (do_op nc) acts (cs_net s)) s))"
proof (induction acts arbitrary: s)
  case Nil
  have "set_net (cs_net s) s = s" by (simp add: set_net_def cs_net_def)
  then show ?case by simp
next
  case (Cons act acts)
  let ?s = "set_pc t (SvcRouting msg resp (act # acts)) s" and ?s1 = "set_net (do_op nc act (cs_net s)) s"
  have "conc_step lim show_msg nc upstream client ?s (set_pc t (SvcRouting msg resp acts) (set_net (do_op nc act (cs_net ?s)) ?s))"
    by (rule conc_step.route) simp
  moreover have "set_pc t (SvcRouting msg resp acts) (set_net (do_op nc act (cs_net ?s)) ?s) = set_pc t (SvcRouting msg resp acts) ?s1"
    by (simp add: set_pc_def set_net_def cs_net_def split_beta)
  ultimately have "conc_step lim show_msg nc upstream client ?s (set_pc t (SvcRouting msg resp acts) ?s1)" by simp
  then have "(conc_step lim show_msg nc upstream client)\<^sup>*\<^sup>* ?s (set_pc t (SvcRouting msg resp acts) ?s1)" ..
  also note Cons.IH [of ?s1]
  also have "set_net (fold (do_op nc) acts (cs_net ?s1)) ?s1 = set_net (fold (do_op nc) (act # acts) (cs_net s)) s"
    by (simp add: set_net_twice)
  finally show ?case .
qed

definition conc_state_of :: "inflight \<Rightarrow> (nat \<Rightarrow> service_pc) \<Rightarrow> ('l, 'k) service \<Rightarrow> 'w \<Rightarrow> ('l, 'k, 'w) conc_state" where
  "conc_state_of fl pc sv w = \<lparr>cs_flights = fl, cs_pc = pc, cs_service = sv, cs_world = w\<rparr>"

lemma conc_state_of_upd [simp]:
  "set_pc t x (conc_state_of fl pc sv w) = conc_state_of fl (pc(t := x)) sv w"
  "(conc_state_of fl pc sv w)\<lparr>cs_service := sv'\<rparr> = conc_state_of fl pc sv' w"
  "(conc_state_of fl pc sv w)\<lparr>cs_world := w'\<rparr> = conc_state_of fl pc sv w'"
  "(conc_state_of fl pc sv w)\<lparr>cs_flights := fl'\<rparr> = conc_state_of fl' pc sv w"
  "set_net (c, w') (conc_state_of fl pc sv w) = conc_state_of fl pc (sv\<lparr>sv_ctl := c\<rparr>) w'"
  "cs_net (conc_state_of fl pc sv w) = (sv_ctl sv, w)" "cs_flights (conc_state_of fl pc sv w) = fl"
  "cs_pc (conc_state_of fl pc sv w) = pc" "cs_service (conc_state_of fl pc sv w) = sv" "cs_world (conc_state_of fl pc sv w) = w"
  by (simp_all add: conc_state_of_def set_pc_def set_net_def cs_net_def)

lemma process_type_a_conc_steps:
  assumes "process_type_a nc ch (client t) resp (sv, w) = Inr (sv', w')" and "service_choice_ok ch" and "\<forall>c resp q. type_a_query ch (client t) c resp = Inr (Some q) \<longrightarrow> lm_query lim q"
  shows "(conc_step lim show_msg nc upstream client)\<^sup>*\<^sup>* (conc_state_of fl (pc(t := SvcRecorded msg resp)) sv w)
     (conc_state_of fl (pc(t := SvcServed msg (Inr resp))) sv' w')"
proof -
  let ?step = "conc_step lim show_msg nc upstream client"
  let ?s = "conc_state_of fl (pc(t := SvcRecorded msg resp)) sv w"
  obtain res where q: "type_a_query ch (client t) (sv_ctl sv) resp = Inr res"
    using assms(1) by (auto simp: process_type_a_ops split: sum.splits)
  show ?thesis
  proof (cases res)
    case None
    then have "sv' = sv" "w' = w" using assms(1) q by (simp_all add: process_type_a_ops)
    moreover have "?step ?s (set_pc t (SvcServed msg (Inr resp)) ?s)"
      by (rule conc_step.no_address [OF _ assms(2)]) (simp_all add: q None)
    ultimately show ?thesis by (simp add: r_into_rtranclp)
  next
    case (Some dq)
    obtain sv1 where app: "append_query ch dq sv = Inr sv1"
      using assms(1) q Some by (auto simp: process_type_a_ops split: sum.splits)
    obtain c' w1 where ops: "fold (do_op nc) (query_ops dq) (sv_ctl sv, w) = (c', w1)" by fastforce
    have r: "sv' = sv1\<lparr>sv_ctl := c'\<rparr>" "w' = w1"
      using assms(1) q Some app ops append_keeps_ctl(2) [OF app] by (simp_all add: process_type_a_ops)
    let ?s1 = "conc_state_of fl (pc(t := SvcRecorded msg resp)) sv1 w"
    have "?step ?s (set_pc t (SvcRouting msg resp (query_ops dq)) (?s\<lparr>cs_service := sv1\<rparr>))"
      by (rule conc_step.record_query [OF _ assms(2)]) (use assms(3) q Some app in auto)
    then have "?step\<^sup>*\<^sup>* ?s (set_pc t (SvcRouting msg resp (query_ops dq)) ?s1)" by simp
    also note fold_route_steps [of lim show_msg nc upstream client t msg resp "query_ops dq" ?s1]
    also have "?step (set_pc t (SvcRouting msg resp []) (set_net (fold (do_op nc) (query_ops dq) (cs_net ?s1)) ?s1))
        (set_pc t (SvcServed msg (Inr resp)) (set_pc t (SvcRouting msg resp []) (set_net (fold (do_op nc) (query_ops dq) (cs_net ?s1)) ?s1)))"
      by (rule conc_step.routed) simp
    finally show ?thesis using append_keeps_ctl(2) [OF app] by (simp add: ops r)
  qed
qed

lemma resolve_conc_steps:
  assumes "service_resolve show_msg nc upstream ch (client t) msg (sv, w) = Inr (res, (sv', w'))"
    and "service_choice_ok ch" and "\<forall>c resp q. type_a_query ch (client t) c resp = Inr (Some q) \<longrightarrow> lm_query lim q" and "asks fl t msg" and "pc t = SvcIdle"
  shows "(conc_step lim show_msg nc upstream client)\<^sup>*\<^sup>* (conc_state_of fl pc sv w) (conc_state_of (sf_answer t res fl) pc sv' w')"
proof -
  let ?step = "conc_step lim show_msg nc upstream client"
  obtain sv1 where 1: "append_raw_query (sch_raw_listeners ch) (sch_request ch) (client t) False (show_msg msg) sv = Inr sv1"
    using assms(1) by (auto simp: service_resolve_def split: sum.splits)
  obtain r w1 where 2: "upstream (client t) msg w = Inr (r, w1)"
    using assms(1) 1 by (auto simp: service_resolve_def split: sum.splits)
  obtain sv2 where 3: "append_raw_query (sch_raw_listeners ch) (sch_response ch) (client t) True (result_text show_msg msg r) sv1 = Inr sv2"
    using assms(1) 1 2 by (cases r) (auto simp: service_resolve_def split: sum.splits if_splits)
  let ?at = "\<lambda>x. conc_state_of fl (pc(t := x))"
  have "?step (conc_state_of fl pc sv w) (set_pc t (SvcAsking msg) ((conc_state_of fl pc sv w)\<lparr>cs_service := sv1\<rparr>))"
    by (rule conc_step.begin_call) (use assms(4,5) 1 in simp_all)
  then have "?step\<^sup>*\<^sup>* (conc_state_of fl pc sv w) (?at (SvcAsking msg) sv1 w)" by simp
  also have "?step (?at (SvcAsking msg) sv1 w) (set_pc t (SvcAnswered msg r) ((?at (SvcAsking msg) sv1 w)\<lparr>cs_world := w1\<rparr>))"
    by (rule conc_step.answer) (use 2 in simp_all)
  also have "?step (set_pc t (SvcAnswered msg r) ((?at (SvcAsking msg) sv1 w)\<lparr>cs_world := w1\<rparr>))
      (set_pc t (after_record msg r) ((set_pc t (SvcAnswered msg r) ((?at (SvcAsking msg) sv1 w)\<lparr>cs_world := w1\<rparr>))\<lparr>cs_service := sv2\<rparr>))"
    by (rule conc_step.record_answer) (use 3 in simp_all)
  finally have "?step\<^sup>*\<^sup>* (conc_state_of fl pc sv w) (?at (after_record msg r) sv2 w1)" by simp
  also have "?step\<^sup>*\<^sup>* (?at (after_record msg r) sv2 w1) (?at (SvcServed msg res) sv' w')"
  proof (cases "\<exists>resp. r = Inr resp \<and> has_single_question msg [type_a]")
    case True
    then obtain resp where resp: "r = Inr resp" "has_single_question msg [type_a]" by blast
    then have "process_type_a nc ch (client t) resp (sv2, w1) = Inr (sv', w')" "res = Inr resp"
      using assms(1) 1 2 3 by (auto simp: service_resolve_def split: sum.splits)
    with process_type_a_conc_steps [where client = client and t = t, OF this(1) assms(2,3)] resp show ?thesis by simp
  next
    case False
    then have "after_record msg r = SvcServed msg res" "sv' = sv2" "w' = w1"
      using assms(1) 1 2 3 by (cases r; auto simp: service_resolve_def)+
    then show ?thesis by simp
  qed
  also have "?step (?at (SvcServed msg res) sv' w')
      (set_pc t SvcIdle ((?at (SvcServed msg res) sv' w')\<lparr>cs_flights := sf_answer t res (cs_flights (?at (SvcServed msg res) sv' w'))\<rparr>))"
    by (rule conc_step.end_call) (use assms(4) in simp_all)
  finally show ?thesis using assms(5) by (simp add: fun_upd_idem)
qed

text \<open>From the moment a call is known to the merging layer: what that layer and the service compute for it as functions is
  a run of the steps of this call alone.\<close>

lemma begin_log: "si_upstream (sf_begin t msg fl) = si_upstream fl"
  by (auto simp: sf_begin_def sf_register_def Let_def goto_def split: option.split)

lemma inflight_conc_steps:
  assumes "single_inflight_resolve t ctx_err (service_resolve show_msg nc upstream ch) (client t) msg (fl, (sv, w)) = Inr (res, (fl', (sv', w')))"
    and "si_pc fl t = Idle" and "pc t = SvcIdle" and "service_choice_ok ch"
    and "\<forall>c resp q. type_a_query ch (client t) c resp = Inr (Some q) \<longrightarrow> lm_query lim q"
  shows "(conc_step lim show_msg nc upstream client)\<^sup>*\<^sup>* (conc_state_of (sf_begin t msg fl) pc sv w) (conc_state_of fl' pc sv' w')"
proof -
  let ?step = "conc_step lim show_msg nc upstream client" and ?b = "sf_begin t msg fl"
  let ?svc = "service_resolve show_msg nc upstream ch"
  have quiet: "?step (conc_state_of f pc v x) (conc_state_of f' pc v x)" if "sf_step f f'" "si_upstream f' = si_upstream f" for f f' v x
    using conc_step.flight [of "conc_state_of f pc v x" f'] that by simp
  show ?thesis
  proof (cases "has_single_question msg []")
    case False
    then have b: "?b = goto t (Direct msg) fl" by (simp add: sf_begin_def)
    with assms(1) have up: "?svc (client t) msg (sv, w) = Inr (res, (sv', w'))" "fl' = sf_direct t msg res ?b"
      by (auto simp: single_inflight_resolve_def split: sum.splits prod.splits)
    have "asks ?b t msg" by (simp add: asks_def b)
    moreover have "sf_answer t res ?b = fl'" by (simp add: sf_answer_def up(2) b)
    ultimately show ?thesis using resolve_conc_steps [where client = client and t = t and pc = pc and fl = ?b, OF up(1) assms(4) _ _ assms(3)] assms(5) by simp
  next
    case True
    show ?thesis
    proof (cases "si_requests fl (req_key msg)")
      case (Some req)
      then have b: "?b = goto t (Waiting msg req) fl" using True by (simp add: sf_begin_def)
      with assms(1) have up: "fl' = goto t (Returned msg (Inl ctx_err)) ?b" "sv' = sv" "w' = w"
        by (auto simp: single_inflight_resolve_def)
      have "sf_step ?b fl'" unfolding up(1) by (rule sf_step.cancel [of _ _ _ req]) (simp add: b)
      from quiet [OF this, of sv w] show ?thesis by (simp add: up goto_def r_into_rtranclp)
    next
      case None
      let ?req = "length (si_flights fl)"
      have b: "?b = sf_register t msg fl" using True None by (simp add: sf_begin_def)
      then have at: "si_pc ?b t = Leading msg ?req" by (simp add: sf_register_def Let_def)
      let ?d = "sf_done t msg ?req res ?b"
      from at assms(1) have up: "?svc (client t) msg (sv, w) = Inr (res, (sv', w'))" "fl' = sf_finish t msg ?req res ?d"
        by (auto simp: single_inflight_resolve_def split: sum.splits prod.splits)
      have "asks ?b t msg" by (simp add: asks_def at)
      moreover have "sf_answer t res ?b = ?d" by (simp add: sf_answer_def at)
      ultimately have "?step\<^sup>*\<^sup>* (conc_state_of ?b pc sv w) (conc_state_of ?d pc sv' w')"
        using resolve_conc_steps [where client = client and t = t and pc = pc and fl = ?b, OF up(1) assms(4) _ _ assms(3)] assms(5) by simp
      also have "?step (conc_state_of ?d pc sv' w') (conc_state_of fl' pc sv' w')"
      proof (rule quiet)
        show "sf_step ?d fl'" unfolding up(2)
          by (rule sf_step.finish) (simp_all add: sf_done_def b sf_register_def Let_def)
      qed (simp add: up(2) sf_finish_def goto_def)
      finally show ?thesis .
    qed
  qed
qed

subsection \<open>The start\<close>

definition conc_start :: "('l, 'k) service \<Rightarrow> 'w \<Rightarrow> ('l, 'k, 'w) conc_state" where
  "conc_start sv w = conc_state_of new_single_inflight (\<lambda>t. SvcIdle) sv w"

lemma conc_start_inv:
  "net_inv rule tbl (sv_ctl sv, w) \<Longrightarrow> config_usable (ic_cfg (sv_ctl sv)) \<Longrightarrow> conc_inv rule tbl (conc_start sv w)"
  by (simp add: conc_inv_def conc_start_def)

lemma conc_start_window:
  "net_inv rule tbl (sv_ctl sv, w) \<Longrightarrow> config_usable cfg \<Longrightarrow> owned cfg tbl (sv_ctl sv, w) \<Longrightarrow> window_inv rule T cfg tbl (conc_start sv w)"
  using conc_start_inv [of rule tbl sv w]
  by (simp add: window_inv_def owned_def conc_start_def new_single_inflight_def)

text \<open>After a reconciliation every route of the table is one the controller remembers or a static one.\<close>

lemma ctl_reconcile_owned:
  assumes router: "ip_router ip rule tbl has" and "choice_ok ch" and "net_inv rule tbl (c, w)" and "config_usable (ic_cfg c)"
    and run: "ctl_reconcile (agent_client ip detail_ok) ch (c, w) = Inr (c', w')"
  shows "owned (ic_cfg c) tbl (c', w')"
proof -
  let ?nc = "agent_client ip detail_ok"
  note keeps = ip_router_keeps [OF router, of detail_ok]
  have i: "in_sync tbl c w" "store_inv (ic_store c)" "rc_rule (ic_cfg c) = rule" using assms(3) by (simp_all add: net_inv_def)
  obtain w1 where 1: "reconcile_rules ?nc (ic_cfg c) (purged ch c, w) = (purged ch c, w1)" "tbl w1 = tbl w"
    using reconcile_rules_rule [OF keeps [folded i(3)], of "purged ch c" w] by blast
  have 2: "reconcile_routes ?nc ch (ic_cfg c) (purged ch c, w1) = Inr (c', w')"
    using run 1(1) by (simp add: ctl_reconcile_def Let_def purged_def)
  have sync: "in_sync tbl (purged ch c) w1" using i(1) 1(2) by (simp add: in_sync_def)
  have acc: "\<forall>w. \<forall>r \<in> tbl w. acceptable (rule_table rule) r" "\<forall>r \<in> static_set (ic_cfg c). acceptable (rule_table rule) r"
    using ip_router_tables [OF router] assms(4) i(3) by (auto simp: config_usable_def)
  from reconcile_routes_owned [OF keeps i(3) assms(2) acc purged_inv [OF assms(2) i(2)] sync 2]
  have "tbl w' \<subseteq> set_elems (ic_routes c') \<union> static_set (ic_cfg c)" by blast
  moreover have "ic_cfg c' = ic_cfg c" using i(1) by (intro ctl_reconcile_cfg [OF run]) (simp add: in_sync_def)
  ultimately show ?thesis by (simp add: owned_def)
qed

end
