(* ===== verification/CachedRun.thy ===== *)
theory CachedRun
  imports Concurrent
begin

text \<open>
  The interleaved calls of \<open>Concurrent\<close> with the cache above them (\<open>cachedDNSResolver\<close> in \<open>dns_resolver.go\<close>, \<open>dns_cache.go\<close>), as
  \<open>cmd/main.go\<close> stacks them: a call looks into the cache, goes on to the merging layer when it finds nothing, and stores
  what it gets; each access to the cache is one step (\<open>cached_step\<close>). \<open>cached_inv\<close> says that whatever the cache holds or a
  call returns is an answer of the merging layer to the same question, so what \<open>window_inv\<close> says of those answers holds
  of every reply. \<open>uninterrupted_call\<close> relates the steps to the functions of \<open>Resolver\<close>, \<open>Inflight\<close> and \<open>Service\<close>.

  The layer above, the TTL override, changes TTLs only; that it writes through records which merged calls share is
  in \<open>Sharing\<close>.
\<close>

subsection \<open>Calls through the cache\<close>

text \<open>Where a call is inside \<open>Resolve\<close> of the cache: it has looked into the cache and goes on to the merging layer, or it
  returns. Every call is a thread of its own.\<close>

datatype cache_pc = CacheIdle | CacheMissed dns_msg | CacheAnswered dns_msg "string + dns_msg"

record ('l, 'k, 'w) cached_state =
  cr_cache :: dns_cache
  cr_pc :: "nat \<Rightarrow> cache_pc"
  cr_conc :: "('l, 'k, 'w) conc_state"

definition set_cache_pc :: "nat \<Rightarrow> cache_pc \<Rightarrow> ('l, 'k, 'w) cached_state \<Rightarrow> ('l, 'k, 'w) cached_state" where
  "set_cache_pc t pc s = s\<lparr>cr_pc := (cr_pc s)(t := pc)\<rparr>"

text \<open>\<open>Get\<close>, for the questions the cache is used for, and \<open>Put\<close>, each under the lock of the cache.\<close>

definition cache_lookup :: "instant \<Rightarrow> instant \<Rightarrow> dns_cache \<Rightarrow> dns_msg \<Rightarrow> dns_msg option" where
  "cache_lookup now now2 cache msg =
     (if has_single_question msg [type_a] then cache_get now now2 cache (msg_question msg ! 0) else None)"

definition cache_store :: "instant \<Rightarrow> dns_msg \<Rightarrow> string + dns_msg \<Rightarrow> dns_cache \<Rightarrow> dns_cache" where
  "cache_store now msg res cache =
     (case res of
        Inl err \<Rightarrow> cache
      | Inr resp \<Rightarrow> if has_single_question msg [type_a] then cache_put now cache (msg_question msg ! 0) resp else cache)"

text \<open>Only calls that the cache lets through enter the merging layer; the layers below move as in \<open>conc_step\<close>.\<close>

inductive cached_step :: "run_limits \<Rightarrow> (dns_msg \<Rightarrow> string) \<Rightarrow> ('w, 'e) network_client \<Rightarrow> 'w resolver \<Rightarrow> (nat \<Rightarrow> string)
    \<Rightarrow> ('l, 'k, 'w) cached_state \<Rightarrow> ('l, 'k, 'w) cached_state \<Rightarrow> bool"
  for lim show_msg nc upstream client where
  hit: "cr_pc s t = CacheIdle \<Longrightarrow> cache_lookup now now2 (cr_cache s) msg = Some resp
     \<Longrightarrow> cached_step lim show_msg nc upstream client s (set_cache_pc t (CacheAnswered msg (Inr (resp\<lparr>msg_id := msg_id msg\<rparr>))) s)"
| miss: "cr_pc s t = CacheIdle \<Longrightarrow> cache_lookup now now2 (cr_cache s) msg = None
     \<Longrightarrow> cached_step lim show_msg nc upstream client s (set_cache_pc t (CacheMissed msg) s)"
| call: "cr_pc s t = CacheMissed msg \<Longrightarrow> si_pc (cs_flights (cr_conc s)) t = Idle
     \<Longrightarrow> cached_step lim show_msg nc upstream client s
           (s\<lparr>cr_conc := (cr_conc s)\<lparr>cs_flights := sf_begin t msg (cs_flights (cr_conc s))\<rparr>\<rparr>)"
| inner: "conc_step lim show_msg nc upstream client (cr_conc s) c
     \<Longrightarrow> \<forall>t. si_pc (cs_flights (cr_conc s)) t = Idle \<longrightarrow> si_pc (cs_flights c) t = Idle
     \<Longrightarrow> cached_step lim show_msg nc upstream client s (s\<lparr>cr_conc := c\<rparr>)"
| return: "cr_pc s t = CacheMissed msg \<Longrightarrow> si_pc (cs_flights (cr_conc s)) t = Returned msg res
     \<Longrightarrow> cached_step lim show_msg nc upstream client s
           (set_cache_pc t (CacheAnswered msg res) (s\<lparr>cr_cache := cache_store now msg res (cr_cache s)\<rparr>))"
| clean_up: "is_order ord
     \<Longrightarrow> cached_step lim show_msg nc upstream client s (s\<lparr>cr_cache := cache_remove_expired ord clock (cr_cache s)\<rparr>)"

inductive_cases cached_stepE [consumes 1, case_names hit miss call inner return clean_up]:
  "cached_step lim show_msg nc upstream client s s'"

definition cached_start :: "('l, 'k) service \<Rightarrow> 'w \<Rightarrow> ('l, 'k, 'w) cached_state" where
  "cached_start sv w = \<lparr>cr_cache = new_dns_cache, cr_pc = (\<lambda>t. CacheIdle), cr_conc = conc_start sv w\<rparr>"

lemma cached_sel [simp]:
  "cr_cache (set_cache_pc t pc s) = cr_cache s" "cr_pc (set_cache_pc t pc s) = (cr_pc s)(t := pc)" "cr_conc (set_cache_pc t pc s) = cr_conc s"
  by (simp_all add: set_cache_pc_def)

text \<open>Below the cache there is a run of \<open>conc_step\<close>.\<close>

lemma cached_step_conc:
  assumes "cached_step lim show_msg nc upstream client s s'"
  shows "(conc_step lim show_msg nc upstream client)\<^sup>*\<^sup>* (cr_conc s) (cr_conc s')"
  using assms
proof (cases rule: cached_stepE)
  case (call t msg)
  have "conc_step lim show_msg nc upstream client (cr_conc s) ((cr_conc s)\<lparr>cs_flights := sf_begin t msg (cs_flights (cr_conc s))\<rparr>)"
    by (rule conc_step.flight [OF sf_step.call [OF call(3)] begin_log])
  then show ?thesis by (simp add: call(1) r_into_rtranclp)
qed auto

lemma cached_run_conc:
  "(cached_step lim show_msg nc upstream client)\<^sup>*\<^sup>* s s' \<Longrightarrow> (conc_step lim show_msg nc upstream client)\<^sup>*\<^sup>* (cr_conc s) (cr_conc s')"
proof (induction rule: rtranclp_induct)
  case (step y z)
  from step(3) cached_step_conc [OF step(2)] show ?case by (rule rtranclp_trans)
qed simp

subsection \<open>What the cache holds\<close>

text \<open>Every answer, in the cache or on its way out, is one the merging layer gave to the same question, up to TTLs and id.\<close>

definition merged_answer :: "(dns_msg \<times> (string + dns_msg)) list \<Rightarrow> question list \<Rightarrow> dns_msg \<Rightarrow> bool" where
  "merged_answer log qs r \<longleftrightarrow> (\<exists>m. msg_question m = qs \<and> answered log m r)"

definition cached_inv :: "('l, 'k, 'w) cached_state \<Rightarrow> bool" where
  "cached_inv s \<longleftrightarrow> sf_reach (cs_flights (cr_conc s)) \<and> cache_inv (cr_cache s)
   \<and> (\<forall>q e. gm_get (dc_entries (cr_cache s)) q = Some e \<longrightarrow> merged_answer (si_upstream (cs_flights (cr_conc s))) [q] (ce_result e))
   \<and> (\<forall>t msg ans. cr_pc s t = CacheAnswered msg (Inr ans)
        \<longrightarrow> (\<exists>r. merged_answer (si_upstream (cs_flights (cr_conc s))) (msg_question msg) r \<and> same_answer r ans))"

lemma merged_answer_mono: "merged_answer log qs r \<Longrightarrow> set log \<subseteq> set log' \<Longrightarrow> merged_answer log' qs r"
  unfolding merged_answer_def using answered_mono by blast

lemma sf_step_log: "sf_step s s' \<Longrightarrow> set (si_upstream s) \<subseteq> set (si_upstream s')"
  by (cases rule: sf_step.cases)
    (auto simp: sf_begin_def sf_register_def sf_direct_def sf_wake_def sf_done_def sf_finish_def goto_def Let_def split: option.splits sum.splits)

lemma sf_run_log: "sf_step\<^sup>*\<^sup>* s s' \<Longrightarrow> set (si_upstream s) \<subseteq> set (si_upstream s')"
  by (induction rule: rtranclp_induct) (auto dest: sf_step_log)

lemma cached_invD:
  assumes "cached_inv s"
  shows "sf_reach (cs_flights (cr_conc s))" "cache_inv (cr_cache s)"
    "gm_get (dc_entries (cr_cache s)) q = Some e \<Longrightarrow> merged_answer (si_upstream (cs_flights (cr_conc s))) [q] (ce_result e)"
    "cr_pc s t = CacheAnswered msg (Inr ans)
      \<Longrightarrow> \<exists>r. merged_answer (si_upstream (cs_flights (cr_conc s))) (msg_question msg) r \<and> same_answer r ans"
  using assms unfolding cached_inv_def by blast+

lemma cache_lookup_entry:
  assumes "cache_lookup now now2 cache msg = Some resp"
  shows "\<exists>q e. msg_question msg = [q] \<and> gm_get (dc_entries cache) q = Some e \<and> resp = entry_result now2 e"
proof -
  from assms have "has_single_question msg [type_a]" by (simp add: cache_lookup_def split: if_splits)
  then obtain q where "msg_question msg = [q]" by (rule has_single_questionE)
  with assms show ?thesis by (auto simp: cache_lookup_def cache_get_def split: option.splits if_splits)
qed

lemma cache_store_entry:
  assumes "gm_get (dc_entries (cache_store now msg res cache)) q = Some e"
  shows "gm_get (dc_entries cache) q = Some e \<or> msg_question msg = [q] \<and> res = Inr (ce_result e)"
proof (cases "\<exists>resp. res = Inr resp \<and> has_single_question msg [type_a]")
  case True
  then obtain resp where r: "res = Inr resp" "has_single_question msg [type_a]" by blast
  then obtain q' where q': "msg_question msg = [q']" by (auto elim: has_single_questionE)
  show ?thesis
  proof (cases "positive_ttls (msg_answer resp) = {}")
    case True
    then show ?thesis using assms r q' by (simp add: cache_store_def cache_put_skips)
  next
    case False
    then show ?thesis using assms r q' by (auto simp: cache_store_def cache_put_stores split: if_splits)
  qed
next
  case False
  then show ?thesis using assms by (auto simp: cache_store_def split: sum.splits if_splits)
qed

lemma cache_store_inv: "cache_inv cache \<Longrightarrow> cache_inv (cache_store now msg res cache)"
  by (simp add: cache_store_def split: sum.splits)

lemma cached_invI:
  assumes "cached_inv s" and "sf_step\<^sup>*\<^sup>* (cs_flights (cr_conc s)) (cs_flights (cr_conc s'))" and "cache_inv (cr_cache s')"
    and "\<And>q e. gm_get (dc_entries (cr_cache s')) q = Some e \<Longrightarrow> gm_get (dc_entries (cr_cache s)) q \<noteq> Some e
      \<Longrightarrow> merged_answer (si_upstream (cs_flights (cr_conc s'))) [q] (ce_result e)"
    and "\<And>t msg ans. cr_pc s' t = CacheAnswered msg (Inr ans) \<Longrightarrow> cr_pc s t \<noteq> CacheAnswered msg (Inr ans)
      \<Longrightarrow> \<exists>r. merged_answer (si_upstream (cs_flights (cr_conc s'))) (msg_question msg) r \<and> same_answer r ans"
  shows "cached_inv s'"
proof -
  note log = sf_run_log [OF assms(2)] and i = cached_invD [OF assms(1)]
  have "sf_reach (cs_flights (cr_conc s'))" using i(1) assms(2) by (rule rtranclp_trans)
  moreover have "merged_answer (si_upstream (cs_flights (cr_conc s'))) [q] (ce_result e)" if "gm_get (dc_entries (cr_cache s')) q = Some e" for q e
    using assms(4) [OF that] merged_answer_mono [OF i(3) log] by blast
  moreover have "\<exists>r. merged_answer (si_upstream (cs_flights (cr_conc s'))) (msg_question msg) r \<and> same_answer r ans"
    if "cr_pc s' t = CacheAnswered msg (Inr ans)" for t msg ans
    using assms(5) [OF that] merged_answer_mono [OF _ log] i(4) by blast
  ultimately show ?thesis using assms(3) unfolding cached_inv_def by blast
qed

lemma cached_step_inv:
  assumes "cached_step lim show_msg nc upstream client s s'" and inv: "cached_inv s"
  shows "cached_inv s'"
proof -
  note i = cached_invD [OF inv] and intro = cached_invI [OF inv conc_run_flights [OF cached_step_conc [OF assms(1)]]]
  from assms(1) show ?thesis
  proof (cases rule: cached_stepE)
    case (hit t now now2 msg resp)
    from cache_lookup_entry [OF hit(3)] obtain q e where e: "msg_question msg = [q]" "gm_get (dc_entries (cr_cache s)) q = Some e"
      "resp = entry_result now2 e" by blast
    have "\<exists>r. merged_answer (si_upstream (cs_flights (cr_conc s))) (msg_question msg) r \<and> same_answer r (resp\<lparr>msg_id := msg_id msg\<rparr>)"
      unfolding e(1,3) using i(3) [OF e(2)] same_answer_entry by blast
    then show ?thesis by (intro intro) (auto simp: hit(1) i(2) split: if_splits)
  next
    case (miss t now now2 msg)
    show ?thesis by (rule intro) (auto simp: miss(1) i(2) split: if_splits)
  next
    case (call t msg)
    show ?thesis by (rule intro) (auto simp: call(1) i(2))
  next
    case (inner c)
    show ?thesis by (rule intro) (auto simp: inner(1) i(2))
  next
    case (return t msg res now)
    have ans: "answered (si_upstream (cs_flights (cr_conc s))) msg resp" if "res = Inr resp" for resp
      by (rule answers_invD(3) [OF conjunct2 [OF answers_reach [OF i(1)]] return(3) [unfolded that]])
    have "merged_answer (si_upstream (cs_flights (cr_conc s))) [q] (ce_result e)"
      if "gm_get (dc_entries (cache_store now msg res (cr_cache s))) q = Some e" "gm_get (dc_entries (cr_cache s)) q \<noteq> Some e" for q e
      using cache_store_entry [OF that(1)] that(2) ans unfolding merged_answer_def by blast
    moreover have "\<exists>r. merged_answer (si_upstream (cs_flights (cr_conc s))) (msg_question msg) r \<and> same_answer r resp" if "res = Inr resp" for resp
      using ans [OF that] same_answer_refl unfolding merged_answer_def by blast
    ultimately show ?thesis by (intro intro) (auto simp: return(1) i(2) cache_store_inv split: if_splits)
  next
    case (clean_up ord clock)
    show ?thesis
    proof (rule intro)
      show "cache_inv (cr_cache s')" using cache_remove_expired_spec(1) [OF i(2) clean_up(2)] by (simp add: clean_up(1))
      show "merged_answer (si_upstream (cs_flights (cr_conc s'))) [q] (ce_result e)"
        if "gm_get (dc_entries (cr_cache s')) q = Some e" "gm_get (dc_entries (cr_cache s)) q \<noteq> Some e" for q e
        using that cache_remove_expired_spec(2) [OF i(2) clean_up(2), of clock q] by (auto simp: clean_up(1) split: option.splits if_splits)
    qed (simp add: clean_up(1))
  qed
qed

lemma cached_run_inv: "(cached_step lim show_msg nc upstream client)\<^sup>*\<^sup>* (cached_start sv w) s \<Longrightarrow> cached_inv s"
proof (induction rule: rtranclp_induct)
  case base
  show ?case by (simp add: cached_inv_def cached_start_def conc_start_def new_dns_cache_def cache_inv_def)
next
  case (step y z)
  from cached_step_inv [OF step(2,3)] show ?case .
qed

subsection \<open>Properties of all interleavings\<close>

lemma same_answer_addresses:
  assumes "same_answer r ans"
  shows "addresses_of name (msg_answer ans) = addresses_of name (msg_answer r)"
proof -
  have "addresses_of name (map (\<lambda>r. set_rr_ttl (t r) r) rs) = addresses_of name rs" for t rs
  proof (induction rs)
    case (Cons x rs)
    then show ?case by (cases x) (simp_all add: addresses_of_def)
  qed (simp add: addresses_of_def)
  with assms show ?thesis by (auto simp: same_answer_def)
qed



subsection \<open>A call nobody interrupts\<close>

lemma sf_step_not_idle: "sf_step s s' \<Longrightarrow> si_pc s u \<noteq> Idle \<Longrightarrow> si_pc s' u \<noteq> Idle"
  by (cases rule: sf_step.cases)
    (auto simp: sf_begin_def sf_register_def sf_direct_def sf_wake_def sf_done_def sf_finish_def goto_def Let_def split: option.splits sum.splits if_splits)

lemma sf_run_not_idle: "sf_step\<^sup>*\<^sup>* s s' \<Longrightarrow> si_pc s u \<noteq> Idle \<Longrightarrow> si_pc s' u \<noteq> Idle"
  by (induction rule: rtranclp_induct) (auto dest: sf_step_not_idle)

text \<open>A run below the cache in which no new call comes in is a run with the cache.\<close>

lemma conc_run_cached:
  assumes "(conc_step lim show_msg nc upstream client)\<^sup>*\<^sup>* a b"
    and "\<forall>u. si_pc (cs_flights a) u = Idle \<longrightarrow> si_pc (cs_flights b) u = Idle"
  shows "(cached_step lim show_msg nc upstream client)\<^sup>*\<^sup>* (s\<lparr>cr_conc := a\<rparr>) (s\<lparr>cr_conc := b\<rparr>)"
  using assms
proof (induction rule: rtranclp_induct)
  case (step y z)
  have idle: "si_pc (cs_flights y) u = Idle" if "si_pc (cs_flights z) u = Idle" for u
    using sf_run_not_idle [OF conc_step_flights [OF step(2)]] that by blast
  then have "(cached_step lim show_msg nc upstream client)\<^sup>*\<^sup>* (s\<lparr>cr_conc := a\<rparr>) (s\<lparr>cr_conc := y\<rparr>)"
    using step.IH step.prems idle by blast
  moreover have "\<forall>u. si_pc (cs_flights y) u = Idle \<longrightarrow> si_pc (cs_flights z) u = Idle"
    using sf_run_not_idle [OF conc_run_flights [OF step(1)]] step.prems by blast
  then have "cached_step lim show_msg nc upstream client (s\<lparr>cr_conc := y\<rparr>) ((s\<lparr>cr_conc := y\<rparr>)\<lparr>cr_conc := z\<rparr>)"
    by (intro cached_step.inner) (simp_all add: step(2))
  ultimately show ?case by simp
qed simp

definition cached_state_of :: "dns_cache \<Rightarrow> (nat \<Rightarrow> cache_pc) \<Rightarrow> inflight \<Rightarrow> (nat \<Rightarrow> service_pc) \<Rightarrow> ('l, 'k) service \<Rightarrow> 'w \<Rightarrow> ('l, 'k, 'w) cached_state" where
  "cached_state_of cache cpc fl pc sv w = \<lparr>cr_cache = cache, cr_pc = cpc, cr_conc = conc_state_of fl pc sv w\<rparr>"

lemma cached_state_of_upd [simp]:
  "set_cache_pc t x (cached_state_of cache cpc fl pc sv w) = cached_state_of cache (cpc(t := x)) fl pc sv w"
  "(cached_state_of cache cpc fl pc sv w)\<lparr>cr_cache := cache'\<rparr> = cached_state_of cache' cpc fl pc sv w"
  "(cached_state_of cache cpc fl pc sv w)\<lparr>cr_conc := conc_state_of fl' pc' sv' w'\<rparr> = cached_state_of cache cpc fl' pc' sv' w'"
  "cr_cache (cached_state_of cache cpc fl pc sv w) = cache" "cr_pc (cached_state_of cache cpc fl pc sv w) = cpc"
  "cr_conc (cached_state_of cache cpc fl pc sv w) = conc_state_of fl pc sv w"
  by (simp_all add: cached_state_of_def set_cache_pc_def)

lemma cached_resolve_cases:
  assumes "cached_resolve clk upstream client msg (cache, s) = Inr (res, (cache', s'))"
  obtains (hit) resp where "cache_lookup (cc_get clk) (cc_result clk) cache msg = Some resp" "res = Inr (resp\<lparr>msg_id := msg_id msg\<rparr>)"
      "cache' = cache" "s' = s"
    | (miss) "cache_lookup (cc_get clk) (cc_result clk) cache msg = None" "upstream client msg s = Inr (res, s')"
      "cache' = cache_store (cc_put clk) msg res cache"
proof (cases "has_single_question msg [type_a]")
  case True
  show thesis
  proof (cases "cache_get (cc_get clk) (cc_result clk) cache (msg_question msg ! 0)")
    case None
    with True assms show thesis
      by (intro miss) (auto simp: cached_resolve_def cache_lookup_def cache_store_def Let_def split: sum.splits prod.splits)
  next
    case (Some resp)
    with True assms show thesis by (intro hit [of resp]) (auto simp: cached_resolve_def cache_lookup_def Let_def)
  qed
next
  case False
  with assms show thesis
    by (intro miss) (auto simp: cached_resolve_def cache_lookup_def cache_store_def split: sum.splits prod.splits)
qed

lemma uninterrupted_steps:
  fixes sv :: "('l, 'k) service" and w :: 'w
  assumes run: "cached_resolve clk (single_inflight_resolve t ctx_err (service_resolve show_msg nc upstream ch)) (client t) msg (cache, (fl, (sv, w)))
      = Inr (res, (cache', (fl', (sv', w'))))"
    and "cpc t = CacheIdle" and "si_pc fl t = Idle" and "pc t = SvcIdle" and "service_choice_ok ch"
    and "\<forall>c resp q. type_a_query ch (client t) c resp = Inr (Some q) \<longrightarrow> lm_query lim q"
  shows "(cached_step lim show_msg nc upstream client)\<^sup>*\<^sup>* (cached_state_of cache cpc fl pc sv w)
    (cached_state_of cache' (cpc(t := CacheAnswered msg res)) fl' pc sv' w')"
proof -
  let ?step = "cached_step lim show_msg nc upstream client"
  let ?si = "single_inflight_resolve t ctx_err (service_resolve show_msg nc upstream ch)"
  have snoc: "?step\<^sup>*\<^sup>* a y \<Longrightarrow> ?step y z \<Longrightarrow> ?step\<^sup>*\<^sup>* a z" for a y z :: "('l, 'k, 'w) cached_state" by (rule rtranclp.rtrancl_into_rtrancl)
  have trans: "?step\<^sup>*\<^sup>* a y \<Longrightarrow> ?step\<^sup>*\<^sup>* y z \<Longrightarrow> ?step\<^sup>*\<^sup>* a z" for a y z :: "('l, 'k, 'w) cached_state" by (rule rtranclp_trans)
  from run show ?thesis
  proof (cases rule: cached_resolve_cases)
    case (hit resp)
    have "?step (cached_state_of cache cpc fl pc sv w)
        (set_cache_pc t (CacheAnswered msg (Inr (resp\<lparr>msg_id := msg_id msg\<rparr>))) (cached_state_of cache cpc fl pc sv w))"
      by (rule cached_step.hit) (use assms(2) hit(1) in simp_all)
    then show ?thesis using hit by (simp add: r_into_rtranclp)
  next
    case miss
    let ?pc = "cpc(t := CacheMissed msg)"
    have 1: "?step (cached_state_of cache cpc fl pc sv w) (cached_state_of cache ?pc fl pc sv w)"
      using cached_step.miss [of "cached_state_of cache cpc fl pc sv w" t "cc_get clk" "cc_result clk" msg] assms(2) miss(1) by simp
    have 2: "?step (cached_state_of cache ?pc fl pc sv w) (cached_state_of cache ?pc (sf_begin t msg fl) pc sv w)"
      using cached_step.call [of "cached_state_of cache ?pc fl pc sv w" t msg] assms(3) by simp
    note seq = single_inflight_steps [OF assms(3) miss(2)]
    have others: "\<forall>u. si_pc (sf_begin t msg fl) u = Idle \<longrightarrow> si_pc fl' u = Idle"
    proof (intro allI impI)
      fix u
      assume u: "si_pc (sf_begin t msg fl) u = Idle"
      have "u \<noteq> t" using u by (auto simp: sf_begin_def sf_register_def goto_def Let_def split: option.splits if_splits)
      moreover have "si_pc fl u = Idle" using sf_step_not_idle [OF sf_step.call [OF assms(3)], of u msg] u by blast
      ultimately show "si_pc fl' u = Idle" using seq by simp
    qed
    from inflight_conc_steps [where client = client and t = t and pc = pc and lim = lim, OF miss(2) assms(3-6)]
    have 3: "?step\<^sup>*\<^sup>* (cached_state_of cache ?pc (sf_begin t msg fl) pc sv w) (cached_state_of cache ?pc fl' pc sv' w')"
      using conc_run_cached [where s = "cached_state_of cache ?pc fl pc sv w" and a = "conc_state_of (sf_begin t msg fl) pc sv w"
          and b = "conc_state_of fl' pc sv' w'"] others by simp
    have 4: "?step (cached_state_of cache ?pc fl' pc sv' w') (cached_state_of cache' (cpc(t := CacheAnswered msg res)) fl' pc sv' w')"
      using cached_step.return [where s = "cached_state_of cache ?pc fl' pc sv' w'" and t = t and msg = msg and res = res and now = "cc_put clk"] seq miss(3) by simp
    note steps = snoc [OF snoc [OF rtranclp.rtrancl_refl 1] 2]
    note steps = trans [OF steps 3]
    show ?thesis by (rule snoc [OF steps 4])
  qed
qed

text \<open>C6: The cache over the merging layer over the service, as \<open>Server\<close> composes them, is one of the interleavings: what the
  three compute as functions for a call, with any state of the other calls, is a run of the steps of this call alone.\<close>

theorem uninterrupted_call:
  assumes "cached_resolve clk (single_inflight_resolve t ctx_err (service_resolve show_msg nc upstream ch)) (client t) msg (cache, (fl, (sv, w)))
      = Inr (res, (cache', (fl', (sv', w'))))"
    and "cpc t = CacheIdle" and "si_pc fl t = Idle" and "pc t = SvcIdle" and "service_choice_ok ch"
    and "\<forall>c resp q. type_a_query ch (client t) c resp = Inr (Some q) \<longrightarrow> lm_query lim q"
  shows "(cached_step lim show_msg nc upstream client)\<^sup>*\<^sup>* (cached_state_of cache cpc fl pc sv w)
    (cached_state_of cache' (cpc(t := CacheAnswered msg res)) fl' pc sv' w')"
  using assms by (rule uninterrupted_steps)

subsection \<open>A sample run: the second client is served from the cache\<close>

definition sample_limits :: run_limits where
  "sample_limits = \<lparr>lm_reconcile = (\<lambda>ch cfg. ch = sample_choice \<and> cfg = sample_routing),
     lm_query = (\<lambda>res. dq_time res = 50), lm_config = (\<lambda>d. False)\<rparr>"

lemma sample_limits_ok: "limits_ok (rc_rule sample_routing) sample_limits" "in_window 100 sample_routing sample_limits"
proof -
  have "\<forall>r \<in> static_set sample_routing. acceptable (rule_table (rc_rule sample_routing)) r"
    using sample_usable by (simp add: config_usable_def)
  then show "limits_ok (rc_rule sample_routing) sample_limits" by (simp add: limits_ok_def sample_limits_def sample_choice_ok)
  have "100 \<le> 50 + uint t * second + rd_route_timeout (rc_dynamic sample_routing)" for t :: u32
  proof -
    have "0 \<le> uint t * second" by (simp add: second_def)
    then show ?thesis by (simp add: sample_routing_def second_def)
  qed
  then show "in_window 100 sample_routing sample_limits"
    by (simp add: in_window_def sample_limits_def sample_choice_def)
qed

lemma type_a_query_time: "type_a_query ch client c resp = Inr (Some q) \<Longrightarrow> dq_time q = fst (sch_query ch)"
  by (auto simp: type_a_query_def Let_def split: list.splits sum.splits prod.splits if_splits)

lemma sample_host_routed: "host_routed sample_routing ''a.example.''"
proof -
  have "normalize_name ''a.example.'' = ''a.example''" by (simp add: normalize_name_def trim_right_def)
  moreover have "routing_lookup_host ord sample_routing ''a.example'' = ''tun0''" if "is_order ord" for ord
    by (rule routing_lookup_host_unique [OF that sample_hosts_unambiguous, of _ "[''a.example'']"])
      (auto simp: sample_routing_def hosts_lookup_host_iff subdomain_of_def)
  ultimately show ?thesis by (simp add: host_routed_def)
qed

lemma sample_answer_path: "answer_path (sample_msg [sample_answer 60]) [''a.example.'']"
proof -
  have "scan_answer (msg_answer (sample_msg [sample_answer 60])) ([], None, - 1) = Inr ([(''a.example.'', [IPv4 1 2 3 4 32])], None, 60)"
    using sample_scan by (simp add: sample_msg_def)
  moreover have "cname_path None (q_name sample_question) [''a.example.'']" by (simp add: cname_path_end sample_question_def)
  moreover have "msg_question (sample_msg [sample_answer 60]) = [sample_question]" by (simp add: sample_msg_def)
  ultimately show ?thesis unfolding answer_path_def by blast
qed

lemma sample_resolves:
  assumes "service_inv (sv :: (unit, unit) service)"
  shows "\<exists>sv' w'. service_resolve (\<lambda>m. []) (agent_client sample_ip (\<lambda>d. True)) (sample_upstream []) sample_svc_choice ''10.0.0.2:5000''
      (sample_msg []) (sv, w) = Inr (Inr (sample_msg [sample_answer 60]), (sv', w'))"
proof -
  let ?r = "sample_msg [sample_answer 60]"
  have ord: "is_order (sch_ifaces sample_svc_choice)" by (simp add: sample_svc_choice_def)
  have q: "has_single_question (sample_msg []) [type_a]" "msg_question ?r = [sample_question]"
    by (simp_all add: has_single_question_def sample_msg_def sample_question_def)
  have scan: "scan_answer (msg_answer ?r) ([], None, - 1) = Inr ([(''a.example.'', [IPv4 1 2 3 4 32])], None, 60)"
    using sample_scan by (simp add: sample_msg_def)
  have p: "cname_path None (q_name sample_question) [''a.example.'']" by (simp add: cname_path_end sample_question_def)
  have a: "addresses_of (last [''a.example.'']) (msg_answer ?r) \<noteq> []" using sample_addresses by (simp add: sample_msg_def)
  have up: "sample_upstream [] ''10.0.0.2:5000'' (sample_msg []) w = Inr (Inr ?r, w)" by (simp add: sample_upstream_def)
  from service_answers [where upstream = "sample_upstream []" and client = "''10.0.0.2:5000''" and show_msg = "\<lambda>m. []"
      and nc = "agent_client sample_ip (\<lambda>d. True)", OF assms ord q(1) up q(2) scan p a] show ?thesis by blast
qed

abbreviation sample_cached_step ::
  "(unit, unit, sample_router) cached_state \<Rightarrow> (unit, unit, sample_router) cached_state \<Rightarrow> bool"
where
  "sample_cached_step \<equiv> cached_step sample_limits (\<lambda>m. []) (agent_client sample_ip (\<lambda>d. True)) (sample_upstream []) (\<lambda>t. ''10.0.0.2:5000'')"

definition sample_cached_call where
  "sample_cached_call = cached_resolve (sample_clock 0)
     (single_inflight_resolve 0 [] (service_resolve (\<lambda>m. []) (agent_client sample_ip (\<lambda>d. True)) (sample_upstream []) sample_svc_choice))
     ''10.0.0.2:5000'' (sample_msg [])"

lemma sample_cached_resolves:
  assumes "service_inv (sv :: (unit, unit) service)"
  shows "\<exists>fl' sv' w'. sample_cached_call (new_dns_cache, (new_single_inflight, (sv, w)))
      = Inr (Inr (sample_msg [sample_answer 60]), (cache_put (cc_put (sample_clock 0)) new_dns_cache sample_question (sample_msg [sample_answer 60]), (fl', (sv', w'))))
    \<and> si_upstream fl' = [(sample_msg [], Inr (sample_msg [sample_answer 60]))]"
proof -
  let ?svc = "service_resolve (\<lambda>m. []) (agent_client sample_ip (\<lambda>d. True)) (sample_upstream []) sample_svc_choice"
  obtain sv' w' where svc: "?svc ''10.0.0.2:5000'' (sample_msg []) (sv, w) = Inr (Inr (sample_msg [sample_answer 60]), (sv', w'))"
    using sample_resolves [OF assms] by blast
  have q: "msg_question (sample_msg []) = [sample_question]" "has_single_question (sample_msg []) [type_a]" "has_single_question (sample_msg []) []"
    by (simp_all add: sample_msg_def has_single_question_def sample_question_def)
  have "si_pc (sf_begin 0 (sample_msg []) new_single_inflight) 0 = Leading (sample_msg []) 0"
    by (simp add: sf_begin_def sf_register_def new_single_inflight_def Let_def q)
  then obtain fl' where "single_inflight_resolve 0 [] ?svc ''10.0.0.2:5000'' (sample_msg []) (new_single_inflight, (sv, w))
      = Inr (Inr (sample_msg [sample_answer 60]), (fl', (sv', w')))" "si_upstream fl' = [(sample_msg [], Inr (sample_msg [sample_answer 60]))]"
    by (simp add: single_inflight_resolve_def svc sf_finish_def sf_done_def goto_def begin_log) (simp add: new_single_inflight_def)
  then show ?thesis by (simp add: sample_cached_call_def cached_resolve_def q cache_get_def new_dns_cache_def Let_def)
qed

text \<open>The first client asks upstream; the second finds the answer a second later.\<close>

lemma sample_cached_run:
  assumes "service_inv (sv :: (unit, unit) service)"
  shows "\<exists>s resp. sample_cached_step\<^sup>*\<^sup>* (cached_start sv w) s \<and> cr_pc s 1 = CacheAnswered (sample_msg []) (Inr resp)
     \<and> addresses_of ''a.example.'' (msg_answer resp) = [IPv4 1 2 3 4 32]
     \<and> si_upstream (cs_flights (cr_conc s)) = [(sample_msg [], Inr (sample_msg [sample_answer 60]))]"
proof -
  let ?step = sample_cached_step and ?r = "sample_msg [sample_answer 60]" and ?pc = "\<lambda>t :: nat. SvcIdle" and ?cpc = "\<lambda>t :: nat. CacheIdle"
  let ?cache = "cache_put (cc_put (sample_clock 0)) new_dns_cache sample_question ?r"
  obtain fl' sv' w' where call: "sample_cached_call (new_dns_cache, (new_single_inflight, (sv, w))) = Inr (Inr ?r, (?cache, (fl', (sv', w'))))"
    and log: "si_upstream fl' = [(sample_msg [], Inr ?r)]"
    using sample_cached_resolves [OF assms] by blast
  have ch: "service_choice_ok sample_svc_choice" by (simp add: sample_svc_choice_def service_choice_ok_def)
  have lim: "lm_query sample_limits q" if "type_a_query sample_svc_choice cl c resp = Inr (Some q)" for cl c resp q
    using type_a_query_time [OF that] by (simp add: sample_svc_choice_def sample_limits_def)
  have idle: "si_pc new_single_inflight 0 = Idle" by (simp add: new_single_inflight_def)
  let ?s = "cached_state_of ?cache (?cpc(0 := CacheAnswered (sample_msg []) (Inr ?r))) fl' ?pc sv' w'"
  have 1: "?step\<^sup>*\<^sup>* (cached_start sv w) ?s"
    using uninterrupted_steps [where client = "\<lambda>t. ''10.0.0.2:5000''" and t = 0 and pc = ?pc and cpc = ?cpc and lim = sample_limits,
        OF call [unfolded sample_cached_call_def] refl idle refl ch] lim
    by (simp add: cached_start_def conc_start_def cached_state_of_def)
  have q: "msg_question (sample_msg []) ! 0 = sample_question" "has_single_question (sample_msg []) [type_a]"
    by (simp_all add: sample_msg_def has_single_question_def sample_question_def)
  have ttl: "positive_ttls (msg_answer ?r) = {60}" by (auto simp: positive_ttls_def sample_msg_def sample_answer_def)
  define e where "e = \<lparr>ce_result = ?r, ce_expires = 60 * second\<rparr>"
  have get: "gm_get (dc_entries ?cache) sample_question = Some e"
    using cache_put_stores [of ?r] by (simp add: ttl e_def sample_clock_def)
  have "cache_lookup second second ?cache (sample_msg []) = Some (entry_result second e)"
    using get by (simp add: cache_lookup_def cache_get_def q entry_expired_def time_after_def e_def second_def)
  then have 2: "?step ?s (set_cache_pc 1 (CacheAnswered (sample_msg []) (Inr ((entry_result second e)\<lparr>msg_id := msg_id (sample_msg [])\<rparr>))) ?s)"
    by (intro cached_step.hit) simp_all
  let ?e = "set_cache_pc 1 (CacheAnswered (sample_msg []) (Inr ((entry_result second e)\<lparr>msg_id := msg_id (sample_msg [])\<rparr>))) ?s"
  have a: "addresses_of ''a.example.'' (msg_answer ((entry_result second e)\<lparr>msg_id := msg_id (sample_msg [])\<rparr>)) = [IPv4 1 2 3 4 32]"
    unfolding same_answer_addresses [OF same_answer_entry] using sample_addresses by (simp add: e_def sample_msg_def)
  have snoc: "?step\<^sup>*\<^sup>* x y \<Longrightarrow> ?step y z \<Longrightarrow> ?step\<^sup>*\<^sup>* x z" for x y z by (rule rtranclp.rtrancl_into_rtrancl)
  note run = snoc [OF 1 2]
  show ?thesis
    by (rule exI [of _ ?e], rule exI [of _ "(entry_result second e)\<lparr>msg_id := msg_id (sample_msg [])\<rparr>"], intro conjI)
      (rule run, simp, rule a, simp add: log)
qed

lemma sample_conc_start:
  "\<exists>sv w. ctl_reconcile (agent_client sample_ip (\<lambda>d. True)) sample_choice (sample_ctl, ([] :: ip_route list, False)) = Inr (sv_ctl (sv :: (unit, unit) service), w)
     \<and> service_inv sv \<and> net_inv (rc_rule sample_routing) (\<lambda>w. set (sample_table w)) (sv_ctl sv, w) \<and> ic_cfg (sv_ctl sv) = sample_routing"
proof -
  let ?nc = "agent_client sample_ip (\<lambda>d. True)"
  have inv: "net_inv (rc_rule sample_routing) (\<lambda>w. set (sample_table w)) (sample_ctl, ([], False))"
    unfolding sample_ctl_def by (rule new_controller_net_inv [OF refl new_store_inv])
  have usable: "config_usable (ic_cfg sample_ctl)" by (simp add: sample_ctl_fields sample_usable)
  obtain c1 w1 where rec: "ctl_reconcile ?nc sample_choice (sample_ctl, ([], False)) = Inr (c1, w1)"
    using ctl_reconcile_returns [OF sample_router sample_choice_ok inv usable] by blast
  from ctl_reconcile_inv [OF sample_router sample_choice_ok inv usable rec]
  have c1: "net_inv (rc_rule sample_routing) (\<lambda>w. set (sample_table w)) (c1, w1)" "ic_cfg c1 = sample_routing" by (simp_all add: sample_ctl_fields)
  have i: "set_inv (ic_routes c1)" "store_inv (ic_store c1)" using c1(1) by (simp_all add: net_inv_def in_sync_def)
  have five: "0 < (5 :: int)" by simp
  from new_service_inv [OF five i] obtain sv :: "(unit, unit) service" where "sv_ctl sv = c1" "service_inv sv" by blast
  with rec c1 show ?thesis by blast
qed

lemma sample_facts:
  "upstream_leaves_router (\<lambda>w. set (sample_table w)) snd (sample_upstream [])" "config_usable (ic_cfg sample_ctl)"
  "in_window 100 (ic_cfg sample_ctl) sample_limits"
  by (simp_all add: upstream_leaves_router_def sample_upstream_def sample_ctl_fields sample_usable sample_limits_ok(2))



theorem uninterrupted_call_witness:
  "\<exists>(sv :: (unit, unit) service) (w :: sample_router) s. sample_cached_step\<^sup>*\<^sup>* (cached_start sv w) s
     \<and> cr_pc s 0 = CacheAnswered (sample_msg []) (Inr (sample_msg [sample_answer 60]))"
proof -
  obtain sv :: "(unit, unit) service" and w :: sample_router where sv: "service_inv sv" using sample_conc_start by blast
  obtain cache' fl' sv' w' where call: "sample_cached_call (new_dns_cache, (new_single_inflight, (sv, w)))
      = Inr (Inr (sample_msg [sample_answer 60]), (cache', (fl', (sv', w'))))"
    using sample_cached_resolves [OF sv] by blast
  have ch: "service_choice_ok sample_svc_choice" by (simp add: sample_svc_choice_def service_choice_ok_def)
  have lim: "\<forall>c resp q. type_a_query sample_svc_choice ''10.0.0.2:5000'' c resp = Inr (Some q) \<longrightarrow> lm_query sample_limits q"
    using type_a_query_time [of sample_svc_choice] by (auto simp: sample_svc_choice_def sample_limits_def)
  have idle: "si_pc new_single_inflight 0 = Idle" by (simp add: new_single_inflight_def)
  let ?s = "cached_state_of cache' ((\<lambda>t. CacheIdle)(0 := CacheAnswered (sample_msg []) (Inr (sample_msg [sample_answer 60])))) fl' (\<lambda>t. SvcIdle) sv' w'"
  have run: "sample_cached_step\<^sup>*\<^sup>* (cached_state_of new_dns_cache (\<lambda>t. CacheIdle) new_single_inflight (\<lambda>t. SvcIdle) sv w) ?s"
    by (rule uninterrupted_call [where client = "\<lambda>t. ''10.0.0.2:5000''" and t = 0 and pc = "\<lambda>t. SvcIdle" and cpc = "\<lambda>t. CacheIdle"
        and lim = sample_limits, OF call [unfolded sample_cached_call_def] refl idle refl ch lim])
  have "cached_start sv w = cached_state_of new_dns_cache (\<lambda>t. CacheIdle) new_single_inflight (\<lambda>t. SvcIdle) sv w"
    by (simp add: cached_start_def conc_start_def cached_state_of_def)
  with run show ?thesis by (intro exI [of _ sv] exI [of _ w] exI [of _ ?s]) simp
qed

end
