(* ===== verification/Boot.thy ===== *)
theory Boot
  imports Startup ServerRun Flags
begin

text \<open>
  \<open>main\<close> of the DNS server (\<open>dns-server/cmd/main.go\<close>) from its arguments to its first state, with the constructors of the
  clients it talks to (\<open>dns_client.go\<close>, \<open>doh_client.go\<close>, \<open>mdns_resolver.go\<close>, \<open>mdns_client.go\<close>, \<open>agent/client.go\<close>), and what
  holds in every run of a server started that way on a router.
\<close>

subsection \<open>Clients\<close>

text \<open>The constructors fix what the libraries are called with; the libraries are the first arguments.\<close>

definition new_dns_client :: "(string \<Rightarrow> duration \<Rightarrow> string \<Rightarrow> dns_msg \<Rightarrow> 's \<Rightarrow> (string + dns_msg) \<times> 's) \<Rightarrow> string \<Rightarrow> duration \<Rightarrow> 's resolver" where
  "new_dns_client exchange address timeout = dns_client_resolve (exchange ''udp'' timeout) address"

record 's doh_library =
  dl_pack :: "dns_msg \<Rightarrow> string + string"
  dl_new_request :: "string \<Rightarrow> string option"
  dl_post :: "duration \<Rightarrow> string \<Rightarrow> string \<Rightarrow> 's \<Rightarrow> (string + int \<times> (string + string)) \<times> 's"
  dl_unpack :: "string \<Rightarrow> string + dns_msg"

definition new_doh_client :: "'s doh_library \<Rightarrow> string \<Rightarrow> duration \<Rightarrow> 's resolver" where
  "new_doh_client lib url timeout = doh_client_resolve (dl_pack lib) (dl_new_request lib) (dl_post lib timeout) (dl_unpack lib) url"

record 's mdns_library =
  ml_connection :: "string \<Rightarrow> 's \<Rightarrow> (string + unit) \<times> 's"
  ml_query :: "duration \<Rightarrow> string \<Rightarrow> 's \<Rightarrow> (string + (string \<times> u32 \<times> u16) \<times> net_ip) \<times> 's"

definition new_mdns_client :: "'s mdns_library \<Rightarrow> string \<Rightarrow> duration \<Rightarrow> 's resolver" where
  "new_mdns_client lib address timeout = mdns_client_resolve (ml_connection lib address) (ml_query lib timeout)"

text \<open>\<open>NewMDNSResolver\<close> makes the client from the configuration.\<close>

definition new_mdns_resolver :: "'s mdns_library \<Rightarrow> 's resolver \<Rightarrow> mdns_config \<Rightarrow> 's resolver" where
  "new_mdns_resolver lib resolver cfg = mdns_resolve cfg (new_mdns_client lib (md_addr cfg) (md_query_timeout cfg)) resolver"

text \<open>\<open>connect\<close> is the constructor of the generated code, on a HTTP client with the time limit.\<close>

definition new_network_service_client :: "(duration \<Rightarrow> string \<Rightarrow> ('w, 'e) network_client) \<Rightarrow> string \<Rightarrow> duration \<Rightarrow> ('w, 'e) network_client" where
  "new_network_service_client connect base_url timeout = connect timeout base_url"

subsection \<open>From the arguments to the first state\<close>

text \<open>What \<open>main\<close> finds: files, libraries, clocks, and what the runtime chooses in the first reconciliation.\<close>

record ('b, 'lw, 'w, 'e) boot_env =
  be_config_file :: "string \<Rightarrow> string + string"
  be_yaml :: "string \<Rightarrow> config \<Rightarrow> string + config"
  be_default :: config
  be_text_handler :: "int \<Rightarrow> 'b"
  be_slog :: "('b, 'lw) slog_base"
  be_log_world :: 'lw
  be_millis :: int
  be_now :: instant
  be_dump :: "string \<Rightarrow> open_file"
  be_records :: "string \<Rightarrow> string + dns_record list"
  be_connect :: "duration \<Rightarrow> string \<Rightarrow> ('w, 'e) network_client"
  be_order :: store_order
  be_hosts :: "dns_record \<Rightarrow> (string \<times> hosts) order"
  be_reconcile :: reconcile_choice

text \<open>The result is the code the process exits with (for a configuration that does not load, 1 after a line on standard
  error), or the configuration, the first state and the log. The goroutines it starts on the way are steps of
  \<open>Lifecycle\<close> (profile handler, periodic save) and the ticks of \<open>Support\<close> (configuration file).\<close>

definition server_boot ::
  "('b, 'lw, 'w, 'e) boot_env \<Rightarrow> string list \<Rightarrow> 'w \<Rightarrow> (int + config \<times> ('l, 'k, 'w) server_state \<times> 'lw log_state) panicking"
where
  "server_boot env args w =
     (case server_options_of args of
        Inl code \<Rightarrow> Inr (Inl code)
      | Inr opts \<Rightarrow>
          (case load_config (be_yaml env) (be_default env) (be_config_file env (so_config_file opts)) of
             Inl err \<Rightarrow> Inr (Inl 1)
           | Inr cfg \<Rightarrow>
               (case setup_server_logger (be_text_handler env) (so_debug opts) (cfg_log_history_size cfg) of
                  Inl panic \<Rightarrow> Inl panic
                | Inr (logger, log_stream) \<Rightarrow>
                    (case init_dns_store (be_slog env) (be_millis env) (be_now env) (be_records env) (dump_file (cfg_dump cfg))
                            (be_dump env (dump_file (cfg_dump cfg))) (with_prefix (be_slog env) ''dns_store'' logger) new_dns_store
                            (log_stream, be_log_world env) of
                       Inl panic \<Rightarrow> Inl panic
                     | Inr (dns_store, ls) \<Rightarrow>
                         let network_service = new_network_service_client (be_connect env) (cfg_agent_base_url cfg) (cfg_agent_timeout cfg);
                             ip_routes = new_ip_route_controller (cfg_routing cfg) dns_store (cfg_reconcile_interval cfg) (cfg_reconcile_timeout cfg)
                         in (case ctl_start network_service (be_order env) (be_hosts env) (be_reconcile env) (ip_routes, w) of
                               Inl panic \<Rightarrow> Inl panic
                             | Inr (ip_routes, w) \<Rightarrow>
                                 (case new_server_state cfg ip_routes w of
                                    Inl panic \<Rightarrow> Inl panic
                                  | Inr s \<Rightarrow> Inr (Inr (cfg, s, ls))))))))"

text \<open>The steps of a server started with these libraries.\<close>

record 'w upstream_libraries =
  ul_exchange :: "string \<Rightarrow> duration \<Rightarrow> string \<Rightarrow> dns_msg \<Rightarrow> 'w \<Rightarrow> (string + dns_msg) \<times> 'w"
  ul_doh :: "'w doh_library"
  ul_mdns :: "'w mdns_library"

definition boot_upstream :: "'w upstream_libraries \<Rightarrow> config \<Rightarrow> 'w resolver" where
  "boot_upstream libs cfg =
     new_mdns_resolver (ul_mdns libs)
       (dns_provider (\<lambda>url. new_doh_client (ul_doh libs) url (cfg_dns_provider_timeout cfg))
          (\<lambda>address. new_dns_client (ul_exchange libs) address (cfg_dns_provider_timeout cfg)) cfg)
       (cfg_mdns cfg)"

definition booted_step :: "'w upstream_libraries \<Rightarrow> config \<Rightarrow> (dns_msg \<Rightarrow> string) \<Rightarrow> ('w, 'e) network_client
    \<Rightarrow> ('l, 'k, 'w) server_state \<Rightarrow> ('l, 'k, 'w) server_state \<Rightarrow> bool" where
  "booted_step libs cfg show_msg nc =
     server_step cfg show_msg nc (\<lambda>m. new_mdns_client (ul_mdns libs) (md_addr m) (md_query_timeout m))
       (\<lambda>url. new_doh_client (ul_doh libs) url (cfg_dns_provider_timeout cfg))
       (\<lambda>address. new_dns_client (ul_exchange libs) address (cfg_dns_provider_timeout cfg))"

lemma boot_upstream_server:
  "boot_upstream libs cfg = server_upstream cfg (\<lambda>m. new_mdns_client (ul_mdns libs) (md_addr m) (md_query_timeout m))
     (\<lambda>url. new_doh_client (ul_doh libs) url (cfg_dns_provider_timeout cfg))
     (\<lambda>address. new_dns_client (ul_exchange libs) address (cfg_dns_provider_timeout cfg))"
  by (simp add: boot_upstream_def new_mdns_resolver_def server_upstream_def)

lemma init_dns_store_loads:
  "init_dns_store ops millis now decode name dump logger st ls = Inr (st', ls') \<Longrightarrow> st' = fst (store_load decode st dump)"
  by (auto simp: init_dns_store_def Let_def split: prod.splits option.splits sum.splits)

text \<open>What a start that succeeds has gone through.\<close>

lemma server_boot_cases:
  assumes "server_boot env args w0 = Inr (Inr (cfg, s, ls))"
  obtains opts store ctl w where "server_options_of args = Inr opts"
    "load_config (be_yaml env) (be_default env) (be_config_file env (so_config_file opts)) = Inr cfg"
    "store = fst (store_load (be_records env) new_dns_store (be_dump env (dump_file (cfg_dump cfg))))"
    "ctl_start (new_network_service_client (be_connect env) (cfg_agent_base_url cfg) (cfg_agent_timeout cfg)) (be_order env) (be_hosts env)
       (be_reconcile env) (new_ip_route_controller (cfg_routing cfg) store (cfg_reconcile_interval cfg) (cfg_reconcile_timeout cfg), w0) = Inr (ctl, w)"
    "new_server_state cfg ctl w = Inr s"
proof -
  obtain opts where 1: "server_options_of args = Inr opts" using assms by (auto simp: server_boot_def split: sum.splits)
  obtain cfg' where 2: "load_config (be_yaml env) (be_default env) (be_config_file env (so_config_file opts)) = Inr cfg'"
    using assms by (auto simp: server_boot_def 1 split: sum.splits)
  obtain logger st where 3: "setup_server_logger (be_text_handler env) (so_debug opts) (cfg_log_history_size cfg') = Inr (logger, st)"
    using assms by (auto simp: server_boot_def 1 2 split: sum.splits)
  obtain dns_store ls' where 4: "init_dns_store (be_slog env) (be_millis env) (be_now env) (be_records env) (dump_file (cfg_dump cfg'))
        (be_dump env (dump_file (cfg_dump cfg'))) (with_prefix (be_slog env) ''dns_store'' logger) new_dns_store (st, be_log_world env)
      = Inr (dns_store, ls')"
    using assms by (auto simp: server_boot_def 1 2 3 split: sum.splits)
  obtain ctl w where 5: "ctl_start (new_network_service_client (be_connect env) (cfg_agent_base_url cfg') (cfg_agent_timeout cfg')) (be_order env)
      (be_hosts env) (be_reconcile env)
      (new_ip_route_controller (cfg_routing cfg') dns_store (cfg_reconcile_interval cfg') (cfg_reconcile_timeout cfg'), w0) = Inr (ctl, w)"
    using assms by (auto simp: server_boot_def 1 2 3 4 Let_def split: sum.splits)
  have 6: "new_server_state cfg' ctl w = Inr s \<and> cfg' = cfg"
    using assms by (auto simp: server_boot_def 1 2 3 4 5 Let_def split: sum.splits)
  note eq = conjunct2 [OF 6] and store = init_dns_store_loads [OF 4]
  show thesis by (rule that [OF 1 2 [unfolded eq] store [unfolded eq] 5 [unfolded eq] conjunct1 [OF 6, unfolded eq]])
qed

lemma start_in_sync:
  assumes "ip_router ip (rc_rule rcfg) tbl has" and "choice_ok ch" and "store_order_ok ord" and "store_inv store" and "config_usable rcfg"
    and "saved_routes hosts_ord rcfg store \<subseteq> tbl w0"
    and "ctl_start (agent_client ip detail_ok) ord hosts_ord ch (new_ip_route_controller rcfg store interval timeout, w0) = Inr (ctl, w)"
  shows "net_inv (rc_rule rcfg) tbl (ctl, w) \<and> has w \<and> ic_cfg ctl = rcfg"
proof -
  define c where "c = new_ip_route_controller rcfg store interval timeout"
  have c: "ic_cfg c = rcfg" "ic_store c = store" "ic_routes c = None" "ic_table_id c = rule_table (rc_rule rcfg)"
    by (simp_all add: c_def new_ip_route_controller_def)
  define s where "s = ctl_init ord hosts_ord rcfg c"
  have s: "same_but_routes c s" "set_inv (ic_routes s)" using ctl_init_state [of c] c(3) by (simp_all add: s_def)
  have "store_inv (ic_store c)" "set_inv (ic_routes c)" using assms(4) by (simp_all add: c)
  from start_takes_over_routes [OF this(1) assms(3) this(2), of hosts_ord rcfg]
  have "set_elems (ic_routes s) = saved_routes hosts_ord rcfg store" by (simp add: s_def c saved_routes_def)
  with assms(4,6) s c have inv: "net_inv (rc_rule rcfg) tbl (s, w0)" and cfg: "ic_cfg s = rcfg"
    using same_but_routesD [OF s(1)] by (simp_all add: net_inv_def in_sync_def)
  have run: "ctl_reconcile (agent_client ip detail_ok) ch (s, w0) = Inr (ctl, w)"
    using assms(7) by (simp add: ctl_start_def s_def c_def [symmetric] c(1))
  have usable: "config_usable (ic_cfg s)" using assms(5) by (simp add: cfg)
  from ctl_reconcile_returns [OF assms(1,2) inv usable, of detail_ok] run have "has w" by simp
  with ctl_reconcile_inv [OF assms(1,2) inv usable run] cfg show ?thesis by simp
qed

subsection \<open>Every run of a server that was started\<close>

text \<open>C4: A server that starts from arguments and a file that give a usable configuration (interfaces that are words, static
  routes the kernel accepts) with a positive size of the query history, on a router that still has the routes its
  saved records stand for, or with none saved: at any time of its run every route it remembers is in the router's
  table, the rule is installed, and store, cache and histories keep their invariants. Its configuration is the one of
  the file the arguments name. (The \<open>ip\<close> command behaves as documented, and asking upstream leaves the router alone.)\<close>

theorem boot_in_sync:
  assumes router: "ip_router ip (rc_rule (cfg_routing cfg)) tbl has" and up: "upstream_leaves_router tbl has (boot_upstream libs cfg)"
    and "be_connect env (cfg_agent_timeout cfg) (cfg_agent_base_url cfg) = agent_client ip detail_ok"
    and "choice_ok (be_reconcile env)" and "store_order_ok (be_order env)"
    and usable: "config_usable (cfg_routing cfg)" and "0 < cfg_dns_query_history_size cfg"
    and boot: "server_boot env args w0 = Inr (Inr (cfg, (s0 :: ('l, 'k, 'w) server_state), ls))"
    and "saved_routes (be_hosts env) (cfg_routing cfg)
           (fst (store_load (be_records env) new_dns_store (be_dump env (dump_file (cfg_dump cfg))))) \<subseteq> tbl w0"
    and run: "(booted_step libs cfg show_msg (agent_client ip detail_ok))\<^sup>*\<^sup>* s0 (cache, fl, sv, w)"
  shows "set_elems (ic_routes (sv_ctl sv)) \<subseteq> tbl w \<and> has w \<and> cache_inv cache \<and> service_inv sv
    \<and> (\<exists>opts. server_options_of args = Inr opts
         \<and> load_config (be_yaml env) (be_default env) (be_config_file env (so_config_file opts)) = Inr cfg)"
proof -
  obtain opts store ctl w1 where start: "server_options_of args = Inr opts"
    "load_config (be_yaml env) (be_default env) (be_config_file env (so_config_file opts)) = Inr cfg"
    "store = fst (store_load (be_records env) new_dns_store (be_dump env (dump_file (cfg_dump cfg))))"
    "ctl_start (new_network_service_client (be_connect env) (cfg_agent_base_url cfg) (cfg_agent_timeout cfg)) (be_order env) (be_hosts env)
       (be_reconcile env) (new_ip_route_controller (cfg_routing cfg) store (cfg_reconcile_interval cfg) (cfg_reconcile_timeout cfg), w0) = Inr (ctl, w1)"
    "new_server_state cfg ctl w1 = Inr s0"
    by (rule server_boot_cases [OF boot])
  have "store_inv store" by (auto simp: start(3) store_load_def split: open_file.splits sum.splits)
  note ctl = start_in_sync [OF router assms(4,5) this usable assms(9) [folded start(3)] start(4) [unfolded new_network_service_client_def assms(3)]]
  then have c: "net_inv (rc_rule (cfg_routing cfg)) tbl (ctl, w1)" "has w1" "ic_cfg ctl = cfg_routing cfg" by blast+
  then have i: "set_inv (ic_routes ctl)" "store_inv (ic_store ctl)" by (simp_all add: net_inv_def in_sync_def)
  obtain sv0 :: "('l, 'k) service" where sv0: "new_dns_routing_service ctl (cfg_dns_query_history_size cfg) = Inr sv0" "sv_ctl sv0 = ctl" "service_inv sv0"
    using new_service_inv [OF assms(7) i] by blast
  have s0: "s0 = (new_dns_cache, new_single_inflight, sv0, w1)" using start(5) by (simp add: new_server_state_def sv0(1))
  have "run_inv (rc_rule (cfg_routing cfg)) tbl s0" using sv0(2,3) c usable by (simp add: s0 run_inv_def)
  from server_run_inv [OF router up [unfolded boot_upstream_server] run [unfolded booted_step_def] this]
  have "run_inv (rc_rule (cfg_routing cfg)) tbl (cache, fl, sv, w)" "has w" using c(2) by (simp_all add: s0)
  with start(1,2) show ?thesis by (auto simp: run_inv_def net_inv_def in_sync_def)
qed

subsection \<open>A sample start\<close>

definition sample_options :: server_options where
  "sample_options = \<lparr>so_config_file = ''router.yaml'', so_pprof_addr = [], so_debug = False\<rparr>"

definition sample_boot_config :: config where
  "sample_boot_config = config_init sample_server_config"

definition sample_libraries :: "sample_router upstream_libraries" where
  "sample_libraries =
     \<lparr>ul_exchange = (\<lambda>net timeout address msg w. (Inr (sample_msg [sample_answer 60]), w)),
      ul_doh = \<lparr>dl_pack = (\<lambda>m. Inl ''no''), dl_new_request = (\<lambda>url. None), dl_post = (\<lambda>t url body w. (Inl ''no'', w)), dl_unpack = (\<lambda>s. Inl ''no'')\<rparr>,
      ul_mdns = \<lparr>ml_connection = (\<lambda>addr w. (Inl ''no'', w)), ml_query = (\<lambda>t name w. (Inl ''no'', w))\<rparr>\<rparr>"

definition sample_boot_env :: "(int \<times> log_attr list, (log_attr list \<times> log_record) list, sample_router, rpc_error) boot_env" where
  "sample_boot_env =
     \<lparr>be_config_file = (\<lambda>name. if name = ''router.yaml'' then Inr ''addr: :53'' else Inl ''no such file''),
      be_yaml = (\<lambda>text cfg. Inr sample_server_config), be_default = sample_config,
      be_text_handler = (\<lambda>level. (level, [])), be_slog = sample_base, be_log_world = [], be_millis = 7, be_now = 0,
      be_dump = (\<lambda>name. FileMissing), be_records = (\<lambda>content. Inl ''no''),
      be_connect = (\<lambda>timeout url. agent_client sample_ip (\<lambda>d. True)),
      be_order = (rev, rev), be_hosts = (\<lambda>r. rev), be_reconcile = sample_choice\<rparr>"

lemma sample_boot_upstream: "boot_upstream sample_libraries sample_boot_config client msg w = Inr (Inr (sample_msg [sample_answer 60]), w)"
  by (simp add: boot_upstream_def new_mdns_resolver_def mdns_resolve_def should_process_query_def dns_provider_def new_dns_client_def
    dns_client_resolve_def sample_libraries_def sample_boot_config_def sample_server_config_def sample_config_def config_init_def
    set_defaults_def mdns_normalize_def has_prefix_def Let_def)

lemma sample_boot_config_fields:
  "cfg_routing sample_boot_config = sample_routing" "0 < cfg_dns_query_history_size sample_boot_config" "cfg_log_history_size sample_boot_config = 1000"
  by (simp_all add: sample_boot_config_def sample_server_config_def sample_config_def config_init_def set_defaults_def mdns_normalize_def Let_def)

lemma sample_boots:
  "\<exists>sv w ls. server_boot sample_boot_env (server_args sample_options) ([], False)
      = Inr (Inr (sample_boot_config, (new_dns_cache, new_single_inflight, (sv :: (unit, unit) service), w), ls)) \<and> service_inv sv"
proof -
  let ?nc = "agent_client sample_ip (\<lambda>d. True)" and ?cfg = sample_boot_config
  have opts: "server_options_of (server_args sample_options) = Inr sample_options" by (rule server_args_roundtrip)
  have load: "load_config (be_yaml sample_boot_env) (be_default sample_boot_env) (be_config_file sample_boot_env (so_config_file sample_options)) = Inr ?cfg"
    by (simp add: load_config_def sample_boot_env_def sample_options_def sample_boot_config_def)
  obtain logger st where log: "setup_server_logger (be_text_handler sample_boot_env) (so_debug sample_options) (cfg_log_history_size ?cfg) = Inr (logger, st)"
    by (simp add: setup_server_logger_def new_recorder_stream_def new_buffered_stream_def new_ring_buf_def sample_boot_config_fields)
  have init: "init_dns_store ops millis now decode name FileMissing lg new_dns_store ls = Inr (new_dns_store, ls)" for
    ops :: "((int \<times> log_attr list), (log_attr list \<times> log_record) list) slog_base" and millis now decode name lg ls
    by (simp add: init_dns_store_def store_load_def)
  let ?c = "new_ip_route_controller sample_routing new_dns_store (cfg_reconcile_interval ?cfg) (cfg_reconcile_timeout ?cfg)"
  have net: "net_inv (rc_rule sample_routing) (\<lambda>w. set (sample_table w)) (?c, ([], False))" by (rule new_controller_net_inv [OF refl new_store_inv])
  have usable: "config_usable (ic_cfg ?c)" by (simp add: new_ip_route_controller_def sample_usable)
  obtain ctl w where rec: "ctl_reconcile ?nc sample_choice (?c, ([], False)) = Inr (ctl, w)"
    using ctl_reconcile_returns [OF sample_router sample_choice_ok net usable] by blast
  have "ctl_init (rev, rev) (\<lambda>r. rev) (ic_cfg ?c) ?c = ?c"
    by (simp add: ctl_init_def store_records_def store_iterate_def new_ip_route_controller_def new_dns_store_def)
  with rec have start: "ctl_start ?nc (rev, rev) (\<lambda>r. rev) sample_choice (?c, ([], False)) = Inr (ctl, w)" by (simp add: ctl_start_def)
  from ctl_reconcile_inv [OF sample_router sample_choice_ok net usable rec]
  have "set_inv (ic_routes ctl)" "store_inv (ic_store ctl)" by (simp_all add: net_inv_def in_sync_def)
  from new_service_inv [OF sample_boot_config_fields(2) this] obtain sv :: "(unit, unit) service" where
    sv: "new_dns_routing_service ctl (cfg_dns_query_history_size ?cfg) = Inr sv" "service_inv sv" by blast
  have "server_boot sample_boot_env (server_args sample_options) ([], False)
      = Inr (Inr (?cfg, (new_dns_cache, new_single_inflight, sv, w), (st, [])))"
    unfolding server_boot_def opts sum.case load log prod.case
    by (simp add: sample_boot_env_def init new_network_service_client_def sample_boot_config_fields start new_server_state_def sv(1) Let_def)
  with sv(2) show ?thesis by blast
qed

theorem boot_in_sync_witness:
  "\<exists>s0 ls cache fl sv w. server_boot sample_boot_env (server_args sample_options) ([], False) = Inr (Inr (sample_boot_config, s0, ls))
     \<and> booted_step sample_libraries sample_boot_config (\<lambda>m. []) (agent_client sample_ip (\<lambda>d. True)) s0
          (cache, fl, (sv :: (unit, unit) service), w)
     \<and> set_elems (ic_routes (sv_ctl sv)) \<subseteq> set (sample_table w) \<and> snd w"
proof -
  let ?nc = "agent_client sample_ip (\<lambda>d. True)" and ?cfg = sample_boot_config
  let ?step = "booted_step sample_libraries ?cfg (\<lambda>m. []) ?nc"
  obtain sv0 :: "(unit, unit) service" and w0 ls where boot: "server_boot sample_boot_env (server_args sample_options) ([], False)
      = Inr (Inr (?cfg, (new_dns_cache, new_single_inflight, sv0, w0), ls))" "service_inv sv0"
    using sample_boots by blast
  let ?s0 = "(new_dns_cache, new_single_inflight, sv0, w0)"
  obtain cache fl sv w where step: "?step ?s0 (cache, fl, sv, w)"
  proof (rule server_asks [OF sample_asked [OF boot(2), of 0] sample_boot_upstream [unfolded boot_upstream_server], where show_msg = "\<lambda>m. []" and nc = ?nc])
    fix a fl' sv' w' res
    assume "server_resolver ?cfg (\<lambda>m. []) ?nc (\<lambda>m. new_mdns_client (ul_mdns sample_libraries) (md_addr m) (md_query_timeout m))
         (\<lambda>url. new_doh_client (ul_doh sample_libraries) url (cfg_dns_provider_timeout ?cfg))
         (\<lambda>address. new_dns_client (ul_exchange sample_libraries) address (cfg_dns_provider_timeout ?cfg))
         (sample_choice_at 0) ''10.0.0.2:5000'' (sample_msg []) ?s0
       = Inr (Inr a, (cache_put (cc_put (vch_cache (sample_choice_at 0))) new_dns_cache (msg_question (sample_msg []) ! 0) (sample_msg [sample_answer 60]), fl', sv', w'))"
    from server_step.query [OF sample_service_choice_ok this] show thesis by (intro that) (simp add: booted_step_def)
  qed
  then have run: "?step\<^sup>*\<^sup>* ?s0 (cache, fl, sv, w)" ..
  have router: "ip_router sample_ip (rc_rule (cfg_routing ?cfg)) (\<lambda>w. set (sample_table w)) snd" using sample_router by (simp add: sample_boot_config_fields)
  have up: "upstream_leaves_router (\<lambda>w. set (sample_table w)) snd (boot_upstream sample_libraries ?cfg)"
    by (simp add: upstream_leaves_router_def sample_boot_upstream)
  have env: "be_connect sample_boot_env (cfg_agent_timeout ?cfg) (cfg_agent_base_url ?cfg) = ?nc" "choice_ok (be_reconcile sample_boot_env)"
    "store_order_ok (be_order sample_boot_env)" "be_dump sample_boot_env n = FileMissing" for n
    using sample_choice_ok by (simp_all add: sample_boot_env_def store_order_ok_def)
  have usable: "config_usable (cfg_routing ?cfg)" by (simp add: sample_boot_config_fields sample_usable)
  have none: "saved_routes (be_hosts sample_boot_env) (cfg_routing ?cfg)
      (fst (store_load (be_records sample_boot_env) new_dns_store (be_dump sample_boot_env (dump_file (cfg_dump ?cfg))))) \<subseteq> set (sample_table ([], False))"
    by (simp add: env(4) store_load_def saved_routes_def)
  from boot_in_sync [OF router up env(1-3) usable sample_boot_config_fields(2) boot(1) none run] boot(1) step show ?thesis by blast
qed

end
