(* ===== verification/Support.thy ===== *)
theory Support
  imports Config
begin

text \<open>
  What the server's parts lean on: the client's address that \<open>dns-server/internal/context.go\<close> puts into a context, the
  two collectors of \<open>dns-server/internal/metrics/metrics.go\<close>, the default configuration of
  \<open>dns-server/internal/config.go\<close>, and the polling of the configuration file in \<open>dns-server/cmd/main.go\<close> over its ticks.
\<close>

subsection \<open>The client's address in the context\<close>

text \<open>A context as the values put into it, the last one first. The key is a type of its own, which no other package
  can use.\<close>

datatype context_key = RemoteAddrKey | OtherKey string

type_synonym context_values = "(context_key \<times> string) list"

definition with_dns_query_remote_addr :: "context_values \<Rightarrow> string \<Rightarrow> context_values" where
  "with_dns_query_remote_addr ctx remote_addr = (RemoteAddrKey, remote_addr) # ctx"

definition get_dns_query_remote_addr :: "context_values \<Rightarrow> string" where
  "get_dns_query_remote_addr ctx = (case map_of ctx RemoteAddrKey of Some addr \<Rightarrow> addr | None \<Rightarrow> [])"

text \<open>A resolver reads the address the handler put in, whatever layers add below other keys.\<close>

lemma get_with_remote_addr:
  "\<forall>(k, v) \<in> set added. k \<noteq> RemoteAddrKey \<Longrightarrow> get_dns_query_remote_addr (added @ with_dns_query_remote_addr ctx addr) = addr"
proof -
  assume "\<forall>(k, v) \<in> set added. k \<noteq> RemoteAddrKey"
  then have "map_of added RemoteAddrKey = None" by (auto simp: map_of_eq_None_iff)
  then show ?thesis by (simp add: get_dns_query_remote_addr_def with_dns_query_remote_addr_def map_add_def)
qed

subsection \<open>Metrics\<close>

text \<open>The two collectors: durations observed by operation, and calls counted by operation and status.\<close>

record metrics =
  mt_durations :: "(string, duration list) gomap"
  mt_status :: "(string \<times> string, nat) gomap"

definition duration_buckets_ms :: "int list" where
  "duration_buckets_ms = [1, 2, 5, 10, 20, 50, 100, 200, 500, 1000, 2000, 5000, 10000, 20000, 60000, 120000, 600000]"

definition track_duration :: "string \<Rightarrow> instant \<Rightarrow> instant \<Rightarrow> metrics \<Rightarrow> metrics" where
  "track_duration operation start now m =
     m\<lparr>mt_durations := gm_set (mt_durations m) operation
         ((case gm_get (mt_durations m) operation of None \<Rightarrow> [] | Some ds \<Rightarrow> ds) @ [now - start])\<rparr>"

definition track_status :: "string \<Rightarrow> string \<Rightarrow> metrics \<Rightarrow> metrics" where
  "track_status operation status m =
     m\<lparr>mt_status := gm_set (mt_status m) (operation, status)
         ((case gm_get (mt_status m) (operation, status) of None \<Rightarrow> 0 | Some n \<Rightarrow> n) + 1)\<rparr>"

definition status_count :: "metrics \<Rightarrow> string \<Rightarrow> string \<Rightarrow> nat" where
  "status_count m operation status = (case gm_get (mt_status m) (operation, status) of None \<Rightarrow> 0 | Some n \<Rightarrow> n)"

lemma status_count_track:
  "status_count (track_status op st m) operation status = status_count m operation status + (if (op, st) = (operation, status) then 1 else 0)"
  by (simp add: track_status_def status_count_def split: option.split)

lemma status_counts_calls:
  "status_count (fold (\<lambda>(op, st). track_status op st) calls m) operation status
     = status_count m operation status + count_list calls (operation, status)"
  by (induction calls arbitrary: m) (auto simp: status_count_track split: if_splits)

definition durations :: "metrics \<Rightarrow> string \<Rightarrow> duration list" where
  "durations m operation = (case gm_get (mt_durations m) operation of None \<Rightarrow> [] | Some ds \<Rightarrow> ds)"

lemma durations_track:
  "durations (track_duration op start now m) operation = durations m operation @ (if op = operation then [now - start] else [])"
  by (simp add: track_duration_def durations_def split: option.split)

lemma durations_of_calls:
  "durations (fold (\<lambda>(op, start, now). track_duration op start now) calls m) operation
     = durations m operation @ map (\<lambda>(op, start, now). now - start) (filter (\<lambda>c. fst c = operation) calls)"
  by (induction calls arbitrary: m) (auto simp: durations_track)

subsection \<open>The default configuration\<close>

text \<open>\<open>unmarshal\<close> is the YAML decoder on the embedded text, which the configuration file is then decoded over; a
  text that does not decode is a panic.\<close>

definition default_config :: "(string + config) \<Rightarrow> string + config" where
  "default_config unmarshalled =
     (case unmarshalled of
        Inl err \<Rightarrow> Inl (''failed to load default config: '' @ err)
      | Inr cfg \<Rightarrow> Inr cfg)"

definition exported_default_config :: "(string + config) \<Rightarrow> string + config" where
  "exported_default_config unmarshalled = map_sum (\<lambda>panic. panic) config_init (default_config unmarshalled)"

definition get_mod_time :: "string + instant \<Rightarrow> instant \<times> bool" where
  "get_mod_time stat = (case stat of Inl err \<Rightarrow> (0, False) | Inr t \<Rightarrow> (t, True))"

text \<open>The ticks of \<open>listenConfigUpdate\<close>, each with what \<open>stat\<close> and \<open>LoadConfig\<close> give: the configurations applied.\<close>

fun config_ticks :: "instant \<Rightarrow> ((string + instant) \<times> (config_error + config)) list \<Rightarrow> config list" where
  "config_ticks mod_time [] = []"
| "config_ticks mod_time ((stat, loaded) # ticks) =
     (let (t, ok) = get_mod_time stat;
          (mod_time', applied) = config_tick (if ok then Some t else None) loaded mod_time
      in (case applied of None \<Rightarrow> [] | Some cfg \<Rightarrow> [cfg]) @ config_ticks mod_time' ticks)"

text \<open>A file written once and readable from then on is applied once, at the first tick that sees it, however many
  ticks fail before and after.\<close>

lemma config_applied_once:
  assumes "mod_time < t" and "\<forall>(stat, loaded) \<in> set before. (\<exists>e. stat = Inl e) \<or> (\<exists>e. loaded = Inl e)"
    and "\<forall>(stat, loaded) \<in> set after. (\<exists>e. stat = Inl e) \<or> stat = Inr t"
  shows "config_ticks mod_time (before @ (Inr t, Inr cfg) # after) = [cfg]"
proof -
  have quiet: "config_ticks t ticks = []" if "\<forall>(stat, loaded) \<in> set ticks. (\<exists>e. stat = Inl e) \<or> stat = Inr t" for ticks
    using that
  proof (induction ticks)
    case (Cons x ticks)
    then show ?case by (cases x) (auto simp: get_mod_time_def config_tick_def time_after_def)
  qed simp
  show ?thesis using assms(1,2)
  proof (induction before)
    case Nil
    then show ?case using quiet [OF assms(3)] by (simp add: get_mod_time_def config_tick_def time_after_def)
  next
    case (Cons x before)
    obtain stat loaded where x: "x = (stat, loaded)" by (cases x)
    have "config_tick (if snd (get_mod_time stat) then Some (fst (get_mod_time stat)) else None) loaded mod_time = (mod_time, None)"
      using Cons.prems(2) by (auto simp: x get_mod_time_def config_tick_def split: sum.splits)
    with Cons show ?case by (simp add: x split_beta)
  qed
qed

end
