(* ===== verification/LogValues.thy ===== *)
theory LogValues
  imports Logging IPRoutes
begin

text \<open>
  The \<open>LogValue\<close> methods of \<open>dns-server/internal/types.go\<close> and \<open>agent/rpc/v1/agent.pb.custom.go\<close>: what
  records, routes and rules look like in a log record, and what of it an entry of the stream of logs holds.
\<close>

definition int_string :: "int \<Rightarrow> string" where
  "int_string n = (if n < 0 then ''-'' else []) @ itoa (nat \<bar>n\<bar>)"

text \<open>\<open>Duration.String\<close> for a whole number of seconds, which is what \<open>TTL\<close> returns.\<close>

definition duration_string :: "duration \<Rightarrow> string" where
  "duration_string d =
     (let u = nat (\<bar>d\<bar> div second); h = u div 3600; m = u div 60 mod 60; s = u mod 60 in
      if u = 0 then ''0s''
      else (if d < 0 then ''-'' else [])
           @ (if 0 < h then itoa h @ ''h'' @ itoa m @ ''m'' else if 0 < m then itoa m @ ''m'' else [])
           @ itoa s @ ''s'')"

text \<open>\<open>slog.GroupValue\<close>: its text is that of its attributes, in brackets.\<close>

definition group_value :: "log_attr list \<Rightarrow> log_value" where
  "group_value attrs = LGroup (''['' @ join_with '' '' (map (\<lambda>(k, v). k @ ''='' @ value_string v) attrs) @ '']'') attrs"

text \<open>\<open>clk\<close> are the two readings of the clock that \<open>TTL\<close> makes.\<close>

definition ttl_text :: "instant \<times> instant \<Rightarrow> dns_record \<Rightarrow> string" where
  "ttl_text clk r = duration_string (rec_ttl (fst clk) (snd clk) r)"

definition record_log_value :: "instant \<times> instant \<Rightarrow> dns_record \<Rightarrow> log_value" where
  "record_log_value clk r =
     group_value [(''domain'', LText (rec_domain r)), (''ip'', LText (ipv4_string (rec_ip r))), (''ttl'', LText (ttl_text clk r))]"

definition route_log_value :: "ip_route \<Rightarrow> log_value" where
  "route_log_value r = group_value [(''addr'', LText (ipv4_string (rt_addr r))), (''iface'', LText (rt_iface r))]"

definition domain_attrs :: "nat \<Rightarrow> instant \<times> instant \<Rightarrow> dns_record \<Rightarrow> log_attr list" where
  "domain_attrs i clk rec =
     (if i = 0 then [(''domain'', LText (rec_domain rec)), (''ttl'', LText (ttl_text clk rec))]
      else [(''domain'' @ itoa (i + 1), LText (rec_domain rec)), (''ttl'' @ itoa (i + 1), LText (ttl_text clk rec))])"

fun domains_attrs :: "nat \<Rightarrow> (nat \<Rightarrow> instant \<times> instant) \<Rightarrow> dns_record list \<Rightarrow> log_attr list" where
  "domains_attrs i clk [] = []"
| "domains_attrs i clk (rec # recs) = domain_attrs i (clk i) rec @ domains_attrs (Suc i) clk recs"

definition route_dns_log_value :: "(nat \<Rightarrow> instant \<times> instant) \<Rightarrow> ip_route_dns \<Rightarrow> log_value" where
  "route_dns_log_value clk r =
     group_value ([(''addr'', LText (ipv4_string (rt_addr r))), (''iface'', LText (rt_iface r))] @ domains_attrs 0 clk (rt_records r))"

definition rule_log_value :: "ip_routing_rule \<Rightarrow> log_value" where
  "rule_log_value r =
     group_value [(''table'', LText (int_string (rule_table r))), (''iif'', LText (rule_iif r)), (''priority'', LText (int_string (rule_priority r)))]"

definition proto_rule_log_value :: "proto_rule \<Rightarrow> log_value" where
  "proto_rule_log_value r =
     group_value [(''iif'', LText (pr_iif r)), (''table'', LText (int_string (uint (pr_table r)))),
                  (''priority'', LText (int_string (uint (pr_priority r))))]"

definition proto_route_log_value :: "proto_route \<Rightarrow> log_value" where
  "proto_route_log_value r =
     group_value [(''table'', LText (int_string (uint (pt_table r)))), (''iface'', LText (pt_iface r)), (''addr'', LText (pt_address r))]"

subsection \<open>The keys of a route\<close>

lemma itoa_inj: "n < 2 ^ 64 \<Longrightarrow> m < 2 ^ 64 \<Longrightarrow> itoa n = itoa m \<longleftrightarrow> n = m"
  by (metis parse_uint_itoa sum.inject(2))

definition domain_key :: "nat \<Rightarrow> string" where
  "domain_key i = (if i = 0 then ''domain'' else ''domain'' @ itoa (i + 1))"

lemma domain_key_inj: "i + 1 < 2 ^ 64 \<Longrightarrow> j + 1 < 2 ^ 64 \<Longrightarrow> domain_key i = domain_key j \<longleftrightarrow> i = j"
proof -
  assume b: "i + 1 < 2 ^ 64" "j + 1 < 2 ^ 64"
  have "itoa k \<noteq> []" "[] \<noteq> itoa k" for k using format_uint_not_Nil [of 10 k] by (metis itoa_def)+
  moreover have "itoa (i + 1) = itoa (j + 1) \<longleftrightarrow> i = j" using itoa_inj [OF b] by simp
  ultimately show ?thesis by (cases "i = 0"; cases "j = 0") (simp_all add: domain_key_def)
qed

lemma domains_attrs_text: "\<exists>kvs. domains_attrs i clk recs = map (\<lambda>(k, v). (k, LText v)) kvs"
proof (induction recs arbitrary: i)
  case (Cons rec recs)
  from Cons [of "Suc i"] obtain kvs where kvs: "domains_attrs (Suc i) clk recs = map (\<lambda>(k, v). (k, LText v)) kvs" by blast
  show ?case
    by (rule exI [of _ "(if i = 0 then [(''domain'', rec_domain rec), (''ttl'', ttl_text (clk i) rec)]
        else [(''domain'' @ itoa (i + 1), rec_domain rec), (''ttl'' @ itoa (i + 1), ttl_text (clk i) rec)]) @ kvs"])
      (simp add: kvs domain_attrs_def)
qed (intro exI [of _ "[]"], simp)

text \<open>What the attributes of the records say last about a key.\<close>

lemma leaves_append: "attrs_leaves (as @ bs) = attrs_leaves as @ attrs_leaves bs"
  by (induction as) simp_all

lemma domains_attrs_get:
  "i + length recs < 2 ^ 64 \<Longrightarrow> j < 2 ^ 64 - 1 \<Longrightarrow> map_of (rev (attrs_leaves (domains_attrs i clk recs))) (domain_key j)
     = (if i \<le> j \<and> j < i + length recs then Some (rec_domain (recs ! (j - i))) else None)"
proof (induction recs arbitrary: i)
  case (Cons rec recs)
  have head: "attrs_leaves (domain_attrs i (clk i) rec) = [(domain_key i, rec_domain rec), (if i = 0 then ''ttl'' else ''ttl'' @ itoa (i + 1), ttl_text (clk i) rec)]"
    by (simp add: domain_attrs_def domain_key_def)
  have ttl: "domain_key j \<noteq> (if i = 0 then ''ttl'' else ''ttl'' @ itoa (i + 1))" by (simp add: domain_key_def)
  have key: "domain_key i = domain_key j \<longleftrightarrow> i = j" using Cons.prems by (intro domain_key_inj) simp_all
  have IH: "map_of (rev (attrs_leaves (domains_attrs (Suc i) clk recs))) (domain_key j)
     = (if Suc i \<le> j \<and> j < Suc i + length recs then Some (rec_domain (recs ! (j - Suc i))) else None)"
    using Cons.prems by (intro Cons.IH) simp_all
  have first: "map_of (rev (attrs_leaves (domain_attrs i (clk i) rec))) (domain_key j) = (if j = i then Some (rec_domain rec) else None)"
    unfolding head using key ttl by (cases "j = i") simp_all
  have split: "map_of (rev (attrs_leaves (domains_attrs i clk (rec # recs)))) (domain_key j)
     = (case map_of (rev (attrs_leaves (domains_attrs (Suc i) clk recs))) (domain_key j) of
          Some v \<Rightarrow> Some v | None \<Rightarrow> map_of (rev (attrs_leaves (domain_attrs i (clk i) rec))) (domain_key j))"
    by (simp add: leaves_append map_add_def)
  consider "j < i" | "j = i" | "i < j" by linarith
  then show ?case
  proof cases
    case 3
    then have "(rec # recs) ! (j - i) = recs ! (j - Suc i)" by (simp add: nth_Cons')
    with 3 show ?thesis unfolding split first IH by simp
  qed (unfold split first IH, simp_all)
qed simp

text \<open>The log entry of a route names every domain of its records: the first under the key \<open>domain\<close>, the
  \<open>n\<close>-th under \<open>domainn\<close>, and no other key of that form is there.\<close>

theorem route_log_names_domains:
  assumes "lr_attrs rec = [(key, route_dns_log_value clk r)]" and "length (rt_records r) < 2 ^ 64 - 1" and "j < 2 ^ 64 - 1"
  shows "\<exists>m. le_attrs (new_entry rec) = Some m
    \<and> gm_get m (domain_key j) = (if j < length (rt_records r) then Some (rec_domain (rt_records r ! j)) else None)
    \<and> gm_get m ''addr'' = Some (ipv4_string (rt_addr r)) \<and> gm_get m ''iface'' = Some (rt_iface r)"
proof -
  have ne: "lr_attrs rec \<noteq> []" using assms(1) by simp
  obtain m where m: "le_attrs (new_entry rec) = Some m" "\<And>k. gm_get m k = map_of (rev (attrs_leaves (lr_attrs rec))) k"
    using new_entry_attrs(3) [OF ne] by blast
  let ?ds = "attrs_leaves (domains_attrs 0 clk (rt_records r))"
  have leaves: "attrs_leaves (lr_attrs rec) = [(''addr'', ipv4_string (rt_addr r)), (''iface'', rt_iface r)] @ ?ds"
    by (simp add: assms(1) route_dns_log_value_def group_value_def)
  have other: "map_of (rev (attrs_leaves (domains_attrs i clk recs))) k = None" if "hd k \<noteq> CHR ''d''" "hd k \<noteq> CHR ''t''" for i recs k
    using that by (induction recs arbitrary: i) (auto simp: leaves_append domain_attrs_def map_add_def)
  have "domain_key j \<noteq> ''addr''" "domain_key j \<noteq> ''iface''" by (simp_all add: domain_key_def)
  then show ?thesis
    using m assms(2,3) other [of "''addr''" 0 "rt_records r"] other [of "''iface''" 0 "rt_records r"] domains_attrs_get [of 0 "rt_records r" j clk]
    by (simp add: leaves map_add_def split: option.split)
qed

definition sample_route_dns :: ip_route_dns where
  "sample_route_dns = \<lparr>rt_table = 1000, rt_iface = ''tun0'', rt_addr = IPv4 1 2 3 4 32,
     rt_records = [new_dns_record ''a.example'' (IPv4 1 2 3 4 32) 100, new_dns_record ''b.example'' (IPv4 1 2 3 4 32) 100]\<rparr>"

theorem route_log_names_domains_witness:
  "\<exists>m. le_attrs (new_entry \<lparr>lr_time = 0, lr_level = 0, lr_message = ''add route'',
         lr_attrs = [(''route'', route_dns_log_value (\<lambda>i. (50, 50)) sample_route_dns)]\<rparr>) = Some m
     \<and> gm_get m (domain_key 1) = Some ''b.example'' \<and> domain_key 1 = ''domain2''"
proof -
  have key: "domain_key 1 = ''domain2''" by code_simp
  let ?rec = "\<lparr>lr_time = 0, lr_level = 0, lr_message = ''add route'', lr_attrs = [(''route'', route_dns_log_value (\<lambda>i. (50, 50)) sample_route_dns)]\<rparr>"
  obtain m where "le_attrs (new_entry ?rec) = Some m" "gm_get m (domain_key 1) = Some ''b.example''"
    using route_log_names_domains [where rec = ?rec and j = 1 and r = sample_route_dns and clk = "\<lambda>i. (50, 50)" and key = "''route''"]
    by (auto simp: sample_route_dns_def new_dns_record_def)
  with key show ?thesis by blast
qed

end
