(* ===== verification/Spec2Isabelle.thy ===== *)
theory Spec2Isabelle
  imports MDNSConn LiveRun Sharing AgentProcess CachedRun Boot Support LogValues
begin

text \<open>
  A model of keenetic-dns and the theorems about it. The program is a DNS server (\<open>src/dns-server\<close>) that routes by
  name: it answers A questions from an upstream server, and when the name, or a name of its CNAME chain, belongs to an
  interface of the configuration, it asks an agent on the router (\<open>src/agent\<close>) for a route of every address of the
  answer through that interface. It remembers addresses until their records expire, and a periodic reconciliation
  keeps the router's table equal to what records and configuration want. An HTTP API shows logs, queries and routes,
  live over websockets. \<open>src/internal\<close> holds what both sides use.

  \<^bold>\<open>Conventions\<close> (\<open>Prelude\<close>). A function of the source is a function here, with the state it reads and writes as a
  pair. A panic is the left value of a sum (\<open>panicking\<close>), an error of the source a sum or an option inside it. A Go map
  is an association list with distinct keys; each \<open>range\<close> over a map takes its order as an argument, each reading of
  a clock the instant read, and a property that fixes neither holds for all. Integers of 16, 32 and 64 bits are words;
  \<open>int\<close> of the source is an integer where it counts elements of memory or holds a TTL (it has 64 bits, as on \<open>arm64\<close>; with
  32 only TTLs above 68 years are treated otherwise, see \<open>DNSCache\<close>). Strings are lists of bytes. Concurrency is an
  \<open>inductive\<close> step relation wherever a method does not hold one lock for its whole body, and a single step where it does.

  \<^bold>\<open>The library under the program.\<close> \<open>GoStd\<close>, \<open>Strconv\<close> and \<open>NetIP\<close> model what the sources use of \<open>strings\<close>,
  \<open>strconv\<close>, \<open>fmt\<close> and \<open>net\<close>, with the round trips the texts of addresses and cursors rest on. \<open>DNSMsg\<close> has the
  messages of \<open>miekg/dns\<close> as data.

  \<^bold>\<open>Data structures\<close> (\<open>src/internal/util\<close>, \<open>src/internal/stream\<close>).
  \<^item> \<open>RingBuf\<close>: \<open>ring_buf.go\<close>. Refinement of the list of the last \<open>cap\<close> elements; the locale \<open>bounded_log\<close> is its contract.
  \<^item> \<open>Sets\<close>: \<open>set.go\<close>, \<open>map.go\<close>. The locale \<open>set_ops\<close>, provided by \<open>Set\<close> and by \<open>SyncSet\<close>.
  \<^item> \<open>Stream\<close>: \<open>cursor.go\<close>, \<open>buffered.go\<close>. The invariant of a stream, the meaning of a forward and of a backward query by
    comparison with the list of entries, complete pagination, listeners, and the bounds inside which cursors increase.

  \<^bold>\<open>Data of the server\<close> (\<open>src/dns-server/internal\<close>).
  \<^item> \<open>IPv4\<close>: \<open>types.go\<close>, addresses with prefix, records, entries of histories, routes. Round trip of the text form.
  \<^item> \<open>Expiry\<close>: the locale \<open>expiring_store\<close>, the contract of a store with a periodic clean-up, provided by the next two.
  \<^item> \<open>DNSStore\<close>: \<open>dns_store.go\<close>. Refinement of one map from domain and address to record by the two indexes.
  \<^item> \<open>DNSCache\<close>: \<open>dns_cache.go\<close>. Refinement of the map of the last answers; TTLs of what is served.
  \<^item> \<open>Config\<close>: \<open>config.go\<close>. The host that belongs to an interface is found by suffix, whatever the map orders.

  \<^bold>\<open>Routes.\<close>
  \<^item> \<open>Agent\<close>: \<open>src/agent/internal/service.go\<close> over the \<open>ip\<close> command; the locale \<open>network_service\<close> is what its client needs.
  \<^item> \<open>IPRoutes\<close>: \<open>ip_routes.go\<close>. The calls one reconciliation makes whatever the router answers, the answers that make it panic,
    and its own table as the only one it touches in any interleaving (\<open>ctl_step\<close>).
  \<^item> \<open>Network\<close>: controller, agent and \<open>ip\<close> together. \<open>keeps_router\<close> says what the kernel promises of a table, \<open>ip_router\<close>
    the documented behaviour of the command that gives it; two reconciliations make the table what is wanted.
  \<^item> \<open>Sync\<close>: the set the controller remembers against the table, as an invariant of its steps (\<open>net_step\<close>), and how a
    start, a lost answer or a changed configuration leaves the two apart.

  \<^bold>\<open>Resolving.\<close>
  \<^item> \<open>Service\<close>: \<open>service.go\<close>. The CNAME chain ends and follows the aliases (\<open>cname_path\<close> is its specification); what an
    answer records, remembers and asks for.
  \<^item> \<open>Resolver\<close>: \<open>dns_resolver.go\<close> (cache, TTL override, verbose), \<open>mdns_resolver.go\<close>, \<open>mdns_client.go\<close>, \<open>dns_client.go\<close>,
    \<open>doh_client.go\<close>, \<open>dns_server_udp.go\<close>. The locale \<open>resolver_contract\<close>, which each layer passes upward.
  \<^item> \<open>Inflight\<close>: \<open>singleInflightResolver\<close>, a thread per call; \<open>Sharing\<close>: the records merged calls share, in an explicit store;
    \<open>MDNSConn\<close>: the lock around the mDNS connection.
  \<^item> \<open>Server\<close>: the resolvers as \<open>cmd/main.go\<close> stacks them, from a question down to the routing table.
  \<^item> \<open>ServerRun\<close>: queries, reconciliations, changed configurations and clean-ups in any order as a step relation on
    the server's state (\<open>server_step\<close>): answers are routed in every reachable state.
  \<^item> \<open>Concurrent\<close>: calls of many clients and the parts of reconciliations interleaved (\<open>conc_step\<close>), from the merging layer
    down to the table: what a call has achieved is not undone by the others while its records last.
  \<^item> \<open>CachedRun\<close>: the same with the cache above (\<open>cached_step\<close>): an answer, own, shared or cached, stays routed. The steps
    refine the functions of \<open>Resolver\<close>, \<open>Inflight\<close> and \<open>Service\<close> (\<open>uninterrupted_call\<close>).

  \<^bold>\<open>API and process.\<close>
  \<^item> \<open>HTTPApi\<close>: the handlers of \<open>dns_server_http.go\<close>; \<open>HTTPRoutes\<close>: which of them a request reaches, and the routes of the
    agent's \<open>http_server.go\<close>; \<open>LiveUpdates\<close>: websocket messages and debouncing; \<open>LiveRun\<close>: one connection while others append.
  \<^item> \<open>Logging\<close>: \<open>src/internal/log\<close>, \<open>setup/logger.go\<close>; \<open>LogValues\<close>: the \<open>LogValue\<close> methods.
  \<^item> \<open>Startup\<close>: the dump file and the first reconciliation; \<open>Flags\<close>: the command lines; \<open>Boot\<close>: \<open>cmd/main.go\<close> from its
    arguments to the first state, with the constructors of the clients, and what holds in every run after it.
  \<^item> \<open>Lifecycle\<close>: stop signal, shutdown and the end of \<open>main\<close>; \<open>AgentProcess\<close>: the same for the agent
    (\<open>agent/cmd/main.go\<close>, \<open>Serve\<close>), and the routes of the profile handler.
  \<^item> \<open>Support\<close>: \<open>context.go\<close>, \<open>metrics.go\<close>, default configuration and its polling.

  \<^bold>\<open>Termination and bounds.\<close> No function of the program takes fuel. The loop over aliases (\<open>chase\<close>) deletes the alias
  it follows and ends by the number of aliases left; the binary search of the stream and the iterators of the ring
  buffer have measures; all other loops run over a list. Only the client that follows page links (\<open>read_pages\<close>)
  takes a bound on its pages, and one above the number of entries left is proved enough. Loops of goroutines are step relations, and
  what a theorem says of them holds for runs of any length. Sums of lengths never reach the word sizes; where a word
  wraps around (cursors, the counter of listeners, TTLs) the definition keeps the width and a theorem states the effect.

  \<^bold>\<open>Parameters and what is assumed of them.\<close> The \<open>ip\<close> command (\<open>ip_router\<close>: add, delete and list of one table of
  directly connected routes through interfaces that exist, and of rules), the upstream servers (any answer; \<open>upstream_leaves_router\<close> where a run is
  followed: asking them does not change the router), the YAML, JSON and DNS wire codecs (round trips where a theorem
  names them), the JSON of the API, \<open>net/http\<close> below the \<open>ServeMux\<close>, websocket and CORS packages, Prometheus, map
  orders (any permutation), clocks (monotone where a theorem says so). Each theorem with such a hypothesis is followed
  by a witness on concrete functions.

  \<^bold>\<open>Not modelled.\<close> Generated code (\<open>agent.pb.go\<close>, the Connect stubs) is the interface \<open>network_client\<close>. The web client is
  TypeScript. The pages of \<open>net/http/pprof\<close>, the embedded static files, the CORS wrapper, the websocket handshake and what
  is printed on standard error are calls of libraries. \<open>server_step\<close> takes queries one after the other; \<open>cached_step\<close>
  interleaves them, but for the TTL override and the records it shares (\<open>Sharing\<close>) and the lock of the mDNS connection
  (\<open>MDNSConn\<close>). What is uncovered of the Go files are imports, interface declarations and
  the structs of resolvers, whose fields are arguments here.
\<close>

end
